(* ===== verification/Prelude.thy ===== *)
theory Prelude
  imports Main "HOL-Library.Word" "HOL-Library.Signed_Division"
begin

text \<open>
  Shared vocabulary of the development: the result type for code that can leave its contract,
  lookups and updates of \<^verbatim>\<open>std::unordered_map\<close> as maps, decimal printing
  (\<^verbatim>\<open>std::to_string\<close>), truncating division, and the generic lemmas on lists, sums and maps
  that the component theories use.

  Integers. A field whose wrap-around the code relies on (order ids, generations, sequence
  numbers, hashes, counters, wire values) is a word of its width. The signed 64-bit quantities,
  prices and timestamps of the order path are \<^typ>\<open>int\<close>: in C++ their overflow is undefined
  behaviour, so every defined run computes the mathematical result; the predicate \<open>in_i64\<close>
  states the range where a theorem is about it.
\<close>

section \<open>Results\<close>

text \<open>
  A failed \<^verbatim>\<open>assert\<close> aborts a debug build and is undefined behaviour in the default Release
  build (which defines \<^verbatim>\<open>NDEBUG\<close>); an out-of-range index of a \<^verbatim>\<open>std::array\<close> and a division
  by zero are undefined in both, as is a call through a pointer to a destroyed object; an
  allocation that fails throws. All are the \<open>Inl\<close> branch of a
  result.
\<close>

datatype abort =
    BadCapacity | PoolExhausted | SlotOutOfRange | DoubleFree
  | VenueNotRegistered | NullClient | VenueTaken | ScratchOutOfRange
  | DivisionByZero | BadAlloc | EmptyFront | DanglingAlgo

type_synonym 'a result = "abort + 'a"

fun ebind :: "'a result \<Rightarrow> ('a \<Rightarrow> 'b result) \<Rightarrow> 'b result" where
  "ebind (Inl e) f = Inl e"
| "ebind (Inr x) f = f x"

lemma ebind_Inr_iff: "ebind r f = Inr y \<longleftrightarrow> (\<exists>x. r = Inr x \<and> f x = Inr y)"
  by (cases r) auto

lemma ebind_InrE:
  assumes "ebind r f = Inr y"
  obtains x where "r = Inr x" and "f x = Inr y"
  using assms by (auto simp: ebind_Inr_iff)

section \<open>Machine words\<close>

type_synonym u8 = "8 word"
type_synonym u16 = "16 word"
type_synonym u32 = "32 word"
type_synonym u64 = "64 word"

lemma unat_inj: "unat a = unat b \<longleftrightarrow> a = b"
  by (simp add: word_unat_eq_iff)

definition in_i64 :: "int \<Rightarrow> bool" where
  "in_i64 x \<longleftrightarrow> - (2 ^ 63) \<le> x \<and> x < 2 ^ 63"

text \<open>C++ integer division and remainder truncate towards zero.\<close>

definition tdiv :: "int \<Rightarrow> int \<Rightarrow> int" where
  "tdiv a b = a sdiv b"

definition tmod :: "int \<Rightarrow> int \<Rightarrow> int" where
  "tmod a b = a smod b"

lemma tdiv_nonneg: "0 \<le> a \<Longrightarrow> 0 < b \<Longrightarrow> tdiv a b = a div b"
  by (cases "a = 0") (simp_all add: tdiv_def signed_divide_int_def sgn_if)

lemma tmod_nonneg: "0 \<le> a \<Longrightarrow> 0 < b \<Longrightarrow> tmod a b = a mod b"
  by (cases "a = 0") (simp_all add: tmod_def signed_modulo_int_def sgn_if)

section \<open>Decimal printing\<close>

fun nat_digits :: "nat \<Rightarrow> string" where
  "nat_digits n =
     (if n < 10 then [char_of (48 + n)]
      else nat_digits (n div 10) @ [char_of (48 + n mod 10)])"

declare nat_digits.simps [simp del]

definition to_string :: "int \<Rightarrow> string" where
  "to_string i = (if i < 0 then CHR ''-'' # nat_digits (nat (- i)) else nat_digits (nat i))"

lemma nat_digits_nonempty: "nat_digits n \<noteq> []"
  by (subst nat_digits.simps) simp

lemma to_string_nonempty: "to_string i \<noteq> []"
  by (simp add: to_string_def nat_digits_nonempty)

definition newline :: string where
  "newline = [char_of (10 :: nat)]"

section \<open>Maps with a default\<close>

text \<open>
  \<^verbatim>\<open>it == m.end() ? d : it->second\<close> is \<open>map_get d m k\<close>; \<^verbatim>\<open>m[k]\<close> on the left of an assignment
  inserts the value-initialised default first, so \<^verbatim>\<open>m[k] += x\<close> is \<open>map_upd 0 (\<lambda>v. v + x) m k\<close>.
\<close>

definition map_get :: "'v \<Rightarrow> ('k \<rightharpoonup> 'v) \<Rightarrow> 'k \<Rightarrow> 'v" where
  "map_get d m k = (case m k of None \<Rightarrow> d | Some v \<Rightarrow> v)"

definition map_upd :: "'v \<Rightarrow> ('v \<Rightarrow> 'v) \<Rightarrow> ('k \<rightharpoonup> 'v) \<Rightarrow> 'k \<Rightarrow> ('k \<rightharpoonup> 'v)" where
  "map_upd d f m k = m(k \<mapsto> f (map_get d m k))"

lemma map_get_empty [simp]: "map_get d Map.empty k = d"
  by (simp add: map_get_def)

lemma map_get_upd [simp]: "map_get d (m(k \<mapsto> v)) k' = (if k' = k then v else map_get d m k')"
  by (simp add: map_get_def)

lemma map_get_map_upd [simp]:
  "map_get d (map_upd d f m k) k' = (if k' = k then f (map_get d m k) else map_get d m k')"
  by (simp add: map_upd_def)

lemma dom_map_upd [simp]: "dom (map_upd d f m k) = insert k (dom m)"
  by (simp add: map_upd_def)

lemma map_upd_Some [simp]: "map_upd d f m k k = Some (f (map_get d m k))"
  by (simp add: map_upd_def)

lemma map_upd_other [simp]: "k' \<noteq> k \<Longrightarrow> map_upd d f m k k' = m k'"
  by (simp add: map_upd_def)

lemma map_get_delete [simp]:
  "map_get d (m(k := None)) k' = (if k' = k then d else map_get d m k')"
  by (simp add: map_get_def)

section \<open>Lists and sums\<close>

lemma list_all_update:
  "list_all P xs \<Longrightarrow> P x \<Longrightarrow> list_all P (xs[i := x])"
  by (auto simp: list_all_iff dest: set_update_subset_insert [THEN subsetD])

lemma set_butlast_distinct:
  "xs \<noteq> [] \<Longrightarrow> distinct xs \<Longrightarrow> set (butlast xs) = set xs - {last xs}"
  by (cases xs rule: rev_cases) auto

lemma last_notin_butlast: "xs \<noteq> [] \<Longrightarrow> distinct xs \<Longrightarrow> last xs \<notin> set (butlast xs)"
  by (simp add: set_butlast_distinct)

lemma sum_update_one:
  fixes f g :: "'a \<Rightarrow> int"
  assumes "finite A" and "a \<in> A" and "\<And>x. x \<in> A \<Longrightarrow> x \<noteq> a \<Longrightarrow> g x = f x"
  shows "sum g A = sum f A - f a + g a"
proof -
  have "sum g A = g a + sum g (A - {a})" using assms(1,2) by (rule sum.remove)
  moreover have "sum f A = f a + sum f (A - {a})" using assms(1,2) by (rule sum.remove)
  moreover have "sum g (A - {a}) = sum f (A - {a})" using assms(3) by (intro sum.cong) auto
  ultimately show ?thesis by simp
qed

lemma foldl_preserves:
  assumes "P a" and "\<And>a x. P a \<Longrightarrow> x \<in> set xs \<Longrightarrow> P (f a x)"
  shows "P (foldl f a xs)"
  using assms by (induction xs arbitrary: a) auto

end
