(* ===== verification/Logging.thy ===== *)
theory Logging
  imports Prelude
begin

text \<open>
  \<^verbatim>\<open>include/oms/Logging.h\<close>: log levels and the capturing sink. A component holds an
  \<^verbatim>\<open>ILogSink*\<close> that may be null; the model's \<open>log_sink\<close> is \<open>None\<close> for the null pointer and
  otherwise the records the sink has captured so far, oldest first.
\<close>

datatype LogLevel = Info | Warn | LogError

text \<open>What \<^verbatim>\<open>StderrLogSink\<close> writes for a line.\<close>

definition stderr_line :: "LogLevel \<Rightarrow> string \<Rightarrow> string" where
  "stderr_line level line =
     (let level_tag = (case level of LogError \<Rightarrow> ''ERROR'' | Warn \<Rightarrow> ''WARN '' | Info \<Rightarrow> ''INFO '')
      in ''['' @ level_tag @ ''] '' @ line @ newline)"

type_synonym log_record = "LogLevel \<times> string"
type_synonym log_sink = "log_record list option"

text \<open>\<^verbatim>\<open>CapturingLogSink::log\<close> behind the null test every caller makes.\<close>

definition log_line :: "LogLevel \<Rightarrow> string \<Rightarrow> log_sink \<Rightarrow> log_sink" where
  "log_line level line sink = map_option (\<lambda>records. records @ [(level, line)]) sink"

definition log_count :: "LogLevel \<Rightarrow> log_record list \<Rightarrow> nat" where
  "log_count level records = foldl (\<lambda>n r. n + (if fst r = level then 1 else 0)) 0 records"

fun is_prefix :: "string \<Rightarrow> string \<Rightarrow> bool" where
  "is_prefix [] ys = True"
| "is_prefix (x # xs) [] = False"
| "is_prefix (x # xs) (y # ys) = (x = y \<and> is_prefix xs ys)"

text \<open>\<^verbatim>\<open>line.find(needle) != npos\<close>: some suffix of the line starts with the needle.\<close>

fun str_find :: "string \<Rightarrow> string \<Rightarrow> bool" where
  "str_find needle [] = is_prefix needle []"
| "str_find needle (c # cs) = (is_prefix needle (c # cs) \<or> str_find needle cs)"

fun log_contains :: "string \<Rightarrow> log_record list \<Rightarrow> bool" where
  "log_contains needle [] = False"
| "log_contains needle (r # rs) = (str_find needle (snd r) \<or> log_contains needle rs)"

definition log_clear :: "log_record list \<Rightarrow> log_record list" where
  "log_clear records = []"

section \<open>Facts about the sink\<close>

lemma log_line_None_iff [simp]: "log_line level line sink = None \<longleftrightarrow> sink = None"
  by (simp add: log_line_def)

lemma log_line_Some [simp]: "log_line level line (Some rs) = Some (rs @ [(level, line)])"
  by (simp add: log_line_def)

lemma foldl_count:
  "foldl (\<lambda>n r. n + (if fst r = level then 1 else 0)) k records
     = k + length (filter (\<lambda>r. fst r = level) records)"
  by (induction records arbitrary: k) auto

lemma log_count_filter: "log_count level records = length (filter (\<lambda>r. fst r = level) records)"
  by (simp add: log_count_def foldl_count)

lemma is_prefix_iff: "is_prefix xs ys \<longleftrightarrow> (\<exists>zs. ys = xs @ zs)"
  by (induction xs ys rule: is_prefix.induct) auto

lemma str_find_iff: "str_find needle line \<longleftrightarrow> (\<exists>pre post. line = pre @ needle @ post)"
proof (induction line)
  case Nil
  then show ?case by (simp add: is_prefix_iff)
next
  case (Cons c cs)
  show ?case
  proof
    assume "str_find needle (c # cs)"
    then consider "is_prefix needle (c # cs)" | "str_find needle cs" by auto
    then show "\<exists>pre post. c # cs = pre @ needle @ post"
    proof cases
      case 1
      then show ?thesis by (auto simp: is_prefix_iff intro: exI [of _ "[]"])
    next
      case 2
      with Cons.IH obtain pre post where "cs = pre @ needle @ post" by blast
      then have "c # cs = (c # pre) @ needle @ post" by simp
      then show ?thesis by blast
    qed
  next
    assume "\<exists>pre post. c # cs = pre @ needle @ post"
    then obtain pre post where eq: "c # cs = pre @ needle @ post" by blast
    show "str_find needle (c # cs)"
    proof (cases pre)
      case Nil
      with eq have "is_prefix needle (c # cs)" by (simp add: is_prefix_iff)
      then show ?thesis by simp
    next
      case (Cons p ps)
      with eq have "cs = ps @ needle @ post" by simp
      with Cons.IH show ?thesis by auto
    qed
  qed
qed

lemma log_contains_iff:
  "log_contains needle records
     \<longleftrightarrow> (\<exists>(level, line) \<in> set records. \<exists>pre post. line = pre @ needle @ post)"
  by (induction records) (simp_all add: str_find_iff split_beta)

end
