(* ===== verification/Domain.thy ===== *)
theory Domain
  imports Logging
begin

text \<open>
  The domain types of \<^verbatim>\<open>Types.h\<close>, \<^verbatim>\<open>Order.h\<close>, \<^verbatim>\<open>Position.h\<close>, \<^verbatim>\<open>MarketData.h\<close> and the
  event and request types of \<^verbatim>\<open>ExchangeClient.h\<close> and \<^verbatim>\<open>OrderManager.h\<close>.
  A field keeps its C++ name behind a short prefix for its struct (\<open>o_\<close> for
  \<^verbatim>\<open>Order\<close>, \<open>pos_\<close> for \<^verbatim>\<open>Position\<close>, \<open>rq_\<close> for \<^verbatim>\<open>OrderRequest\<close>, \<open>ev_\<close> for
  \<^verbatim>\<open>OrderEvent\<close>, \<open>tob_\<close> for \<^verbatim>\<open>TopOfBook\<close>).
\<close>

section \<open>Scalars\<close>

datatype Side = Buy | Sell
datatype OrderType = Limit | Market | IOC | PostOnly

type_synonym InstrumentId = u16
type_synonym Price = int
type_synonym Quantity = int
type_synonym Timestamp = int
type_synonym VenueId = u8
type_synonym LatencyNs = int
type_synonym TradeId = u64
type_synonym ExchangeOrderId = string
type_synonym StrategyId = u16
type_synonym AlgoTag = u8
type_synonym OrderIdRaw = u64

fun signed_qty :: "Side \<Rightarrow> Quantity \<Rightarrow> Quantity" where
  "signed_qty Buy magnitude = magnitude"
| "signed_qty Sell magnitude = - magnitude"

section \<open>Orders\<close>

datatype OrderStatus =
    New | Sent | Confirmed | PartiallyFilled | SentCancel | CancelRejected
  | Filled | Cancelled | Rejected

definition is_terminal :: "OrderStatus \<Rightarrow> bool" where
  "is_terminal s \<longleftrightarrow> s = Filled \<or> s = Cancelled \<or> s = Rejected"

record OrderTimestamps =
  ts_created :: Timestamp
  ts_sent :: Timestamp
  ts_confirmed :: Timestamp
  ts_first_fill :: Timestamp
  ts_last_fill :: Timestamp
  ts_terminal :: Timestamp

definition zero_ts :: OrderTimestamps where
  "zero_ts = \<lparr>ts_created = 0, ts_sent = 0, ts_confirmed = 0, ts_first_fill = 0,
              ts_last_fill = 0, ts_terminal = 0\<rparr>"

record Order =
  o_internal_id :: OrderIdRaw
  o_size :: Quantity
  o_filled_size :: Quantity
  o_total_fill_amount :: int
  o_limit_price :: Price
  o_instrument :: InstrumentId
  o_status :: OrderStatus
  o_side :: Side
  o_type :: OrderType
  o_pending_cancel :: bool
  o_false_cancel_reject :: bool
  o_exchange_id :: ExchangeOrderId
  o_strategy_id :: StrategyId
  o_algo_tag :: AlgoTag
  o_ack_timed_out :: bool
  o_reconciliation :: bool
  o_ts :: OrderTimestamps
  o_int_data :: "int list"

definition kScratchSlots :: nat where
  "kScratchSlots = 4"

text \<open>A value-initialised \<^verbatim>\<open>Order\<close>.\<close>

definition default_order :: Order where
  "default_order = \<lparr>o_internal_id = 0, o_size = 0, o_filled_size = 0, o_total_fill_amount = 0,
     o_limit_price = 0, o_instrument = 0, o_status = New, o_side = Buy, o_type = Limit,
     o_pending_cancel = False, o_false_cancel_reject = False, o_exchange_id = [],
     o_strategy_id = 0, o_algo_tag = 0, o_ack_timed_out = False, o_reconciliation = False,
     o_ts = zero_ts, o_int_data = replicate kScratchSlots 0\<rparr>"

text \<open>
  \<^verbatim>\<open>int_data[static_cast<std::size_t>(offset)]\<close>: a negative offset converts to a huge index,
  so the access is undefined outside \<open>0..3\<close>.
\<close>

definition store_int_data :: "int \<Rightarrow> int \<Rightarrow> Order \<Rightarrow> Order result" where
  "store_int_data v offset ord =
     (if 0 \<le> offset \<and> nat offset < kScratchSlots
      then Inr (ord\<lparr>o_int_data := (o_int_data ord)[nat offset := v]\<rparr>)
      else Inl ScratchOutOfRange)"

definition retrieve_int_data :: "int \<Rightarrow> Order \<Rightarrow> int result" where
  "retrieve_int_data offset ord =
     (if 0 \<le> offset \<and> nat offset < kScratchSlots
      then Inr (o_int_data ord ! nat offset) else Inl ScratchOutOfRange)"

definition remaining :: "Order \<Rightarrow> Quantity" where
  "remaining ord = o_size ord - o_filled_size ord"

definition avg_fill_price :: "Order \<Rightarrow> Price" where
  "avg_fill_price ord =
     (if o_filled_size ord = 0 then 0 else tdiv (o_total_fill_amount ord) (o_filled_size ord))"

section \<open>Positions\<close>

record Position =
  pos_net :: Quantity
  pos_overnight :: Quantity
  pos_volume :: Quantity
  pos_amount :: int
  pos_fees :: int
  pos_last_update :: Timestamp

definition empty_position :: Position where
  "empty_position = \<lparr>pos_net = 0, pos_overnight = 0, pos_volume = 0, pos_amount = 0,
     pos_fees = 0, pos_last_update = 0\<rparr>"

definition pos_apply :: "Quantity \<Rightarrow> Price \<Rightarrow> Timestamp \<Rightarrow> int \<Rightarrow> Position \<Rightarrow> Position" where
  "pos_apply signed_fill_qty fill_price ts fee p =
     p\<lparr>pos_net := pos_net p + signed_fill_qty,
       pos_volume := pos_volume p
         + (if signed_fill_qty < 0 then - signed_fill_qty else signed_fill_qty),
       pos_amount := pos_amount p + signed_fill_qty * fill_price,
       pos_fees := pos_fees p + fee,
       pos_last_update := ts\<rparr>"

definition pos_avg_price :: "Position \<Rightarrow> Price" where
  "pos_avg_price p = (if pos_net p = 0 then 0 else tdiv (pos_amount p) (pos_net p))"

section \<open>Market data\<close>

record TopOfBook =
  tob_bid :: Price
  tob_ask :: Price
  tob_bid_size :: Quantity
  tob_ask_size :: Quantity
  tob_ts :: Timestamp

definition empty_book :: TopOfBook where
  "empty_book = \<lparr>tob_bid = 0, tob_ask = 0, tob_bid_size = 0, tob_ask_size = 0, tob_ts = 0\<rparr>"

definition tob_mid :: "TopOfBook \<Rightarrow> Price" where
  "tob_mid b = tdiv (tob_bid b + tob_ask b) 2"

section \<open>Sends, requests and events\<close>

datatype SendResult = SendOk | RejectedLocally | TransportDown | SendRateLimited | SendDuplicate

datatype RejectReason =
    ReasonUnknown | RiskLimit | InvalidPrice | InvalidSize | PostOnlyWouldCross
  | ReasonRateLimited | TransportError | CancelRejectedReason

record OrderRequest =
  rq_instrument :: InstrumentId
  rq_side :: Side
  rq_size :: Quantity
  rq_price :: Price
  rq_type :: OrderType
  rq_strategy_id :: StrategyId
  rq_algo_tag :: AlgoTag
  rq_worker_index :: int
  rq_worker_offset :: int
  rq_reconciliation :: bool

definition default_request :: OrderRequest where
  "default_request = \<lparr>rq_instrument = 0, rq_side = Buy, rq_size = 0, rq_price = 0,
     rq_type = Limit, rq_strategy_id = 0, rq_algo_tag = 0, rq_worker_index = 0,
     rq_worker_offset = 0, rq_reconciliation = False\<rparr>"

datatype EventKind = KConfirm | KFill | KReject | KCancelAck | KUnsolicitedCancel

datatype ValidationResult =
    ValidOk | UnknownOrder | TerminalState | DuplicateTrade | StaleCumulative | FieldMismatch

record EventContext =
  cx_kind :: EventKind
  cx_trade_id :: TradeId
  cx_qty :: Quantity
  cx_price :: Price

datatype OrderEventKind =
    EvConfirmed | EvPartialFill | EvFill | EvRejected | EvCancelled | EvUnsolicitedCancel

record OrderEvent =
  ev_kind :: OrderEventKind
  ev_internal_id :: OrderIdRaw
  ev_instrument :: InstrumentId
  ev_side :: Side
  ev_last_qty :: Quantity
  ev_last_price :: Price
  ev_filled_size :: Quantity
  ev_size :: Quantity
  ev_status :: OrderStatus
  ev_reason :: RejectReason
  ev_ts :: Timestamp

text \<open>\<^verbatim>\<open>detail::name\<close>: the diagnostic names of \<^verbatim>\<open>Detail.h\<close>.\<close>

fun name_event_kind :: "EventKind \<Rightarrow> string" where
  "name_event_kind KConfirm = ''confirm''"
| "name_event_kind KFill = ''fill''"
| "name_event_kind KReject = ''reject''"
| "name_event_kind KCancelAck = ''cancel_ack''"
| "name_event_kind KUnsolicitedCancel = ''unsolicited_cancel''"

fun name_validation :: "ValidationResult \<Rightarrow> string" where
  "name_validation ValidOk = ''ok''"
| "name_validation UnknownOrder = ''unknown_order''"
| "name_validation TerminalState = ''terminal_state''"
| "name_validation DuplicateTrade = ''duplicate_trade''"
| "name_validation StaleCumulative = ''stale_cumulative''"
| "name_validation FieldMismatch = ''field_mismatch''"

fun name_status :: "OrderStatus \<Rightarrow> string" where
  "name_status New = ''New''"
| "name_status Sent = ''Sent''"
| "name_status Confirmed = ''Confirmed''"
| "name_status PartiallyFilled = ''PartiallyFilled''"
| "name_status SentCancel = ''SentCancel''"
| "name_status CancelRejected = ''CancelRejected''"
| "name_status Filled = ''Filled''"
| "name_status Cancelled = ''Cancelled''"
| "name_status Rejected = ''Rejected''"

text \<open>\<^verbatim>\<open>detail::ceil_div\<close>.\<close>

definition ceil_div :: "Quantity \<Rightarrow> Quantity \<Rightarrow> Quantity" where
  "ceil_div a b = (if b \<le> 0 then a else tdiv (a + b - 1) b)"

section \<open>Facts about the domain types\<close>

lemma is_terminal_simps [simp]:
  "\<not> is_terminal New" "\<not> is_terminal Sent" "\<not> is_terminal Confirmed"
  "\<not> is_terminal PartiallyFilled" "\<not> is_terminal SentCancel" "\<not> is_terminal CancelRejected"
  "is_terminal Filled" "is_terminal Cancelled" "is_terminal Rejected"
  by (simp_all add: is_terminal_def)

lemma signed_qty_0 [simp]: "signed_qty sd 0 = 0"
  by (cases sd) auto

lemma signed_qty_add: "signed_qty sd (a + b) = signed_qty sd a + signed_qty sd b"
  by (cases sd) auto

lemma signed_qty_diff: "signed_qty sd (a - b) = signed_qty sd a - signed_qty sd b"
  by (cases sd) auto

lemma abs_signed_qty: "\<bar>signed_qty sd q\<bar> = \<bar>q\<bar>"
  by (cases sd) auto

lemma ceil_div_bounds:
  assumes "0 \<le> a" and "0 < b"
  shows "a \<le> b * ceil_div a b" and "b * ceil_div a b < a + b"
proof -
  have eq: "ceil_div a b = (a + b - 1) div b"
    using assms by (simp add: ceil_div_def tdiv_nonneg)
  have "b * ((a + b - 1) div b) = a + b - 1 - (a + b - 1) mod b"
    by (simp add: minus_mod_eq_mult_div)
  moreover have "0 \<le> (a + b - 1) mod b" "(a + b - 1) mod b < b" using assms by auto
  ultimately show "a \<le> b * ceil_div a b" and "b * ceil_div a b < a + b"
    unfolding eq by linarith+
qed

lemma ceil_div_nonneg: "0 \<le> a \<Longrightarrow> 0 \<le> ceil_div a b"
  by (auto simp: ceil_div_def tdiv_nonneg pos_imp_zdiv_nonneg_iff)

lemma ceil_div_le: "0 \<le> a \<Longrightarrow> ceil_div a b \<le> a"
proof (cases "0 < b \<and> 0 < a")
  case True
  assume "0 \<le> a"
  from True have "b * ceil_div a b < a + b" by (intro ceil_div_bounds(2)) auto
  moreover have "a + b \<le> b * (a + 1)"
  proof -
    have "a * 1 \<le> a * b" using True by (intro mult_left_mono) auto
    then show ?thesis by (simp add: algebra_simps)
  qed
  ultimately have "b * ceil_div a b < b * (a + 1)" by linarith
  with True show ?thesis by auto
qed (auto simp: ceil_div_def tdiv_nonneg)

lemma pos_apply_net [simp]: "pos_net (pos_apply q pr ts fee p) = pos_net p + q"
  by (simp add: pos_apply_def)

lemma pos_apply_volume: "pos_volume (pos_apply q pr ts fee p) = pos_volume p + \<bar>q\<bar>"
  by (simp add: pos_apply_def)

lemma pos_apply_amount: "pos_amount (pos_apply q pr ts fee p) = pos_amount p + q * pr"
  by (simp add: pos_apply_def)

end
