(* ===== verification/OrderIdCodec.thy ===== *)
theory OrderIdCodec
  imports Domain
begin

unbundle bit_operations_syntax

text \<open>
  \<^verbatim>\<open>include/oms/OrderId.h\<close>: the 64-bit id \<open>[venue:8][generation:16][slot:24][sequence:16]\<close>.
  The fields are words of the source's widths; \<^verbatim>\<open>slot\<close> is a 32-bit word of which the codec
  keeps the low 24 bits.
\<close>

definition kVenue :: nat where "kVenue = 8"
definition kGeneration :: nat where "kGeneration = 16"
definition kSlot :: nat where "kSlot = 24"
definition kSequence :: nat where "kSequence = 16"

definition kSequenceShift :: nat where "kSequenceShift = 0"
definition kSlotShift :: nat where "kSlotShift = kSequence"
definition kGenerationShift :: nat where "kGenerationShift = kSequence + kSlot"
definition kVenueShift :: nat where "kVenueShift = kSequence + kSlot + kGeneration"

definition kVenueMask :: u64 where "kVenueMask = push_bit kVenue 1 - 1"
definition kGenerationMask :: u64 where "kGenerationMask = push_bit kGeneration 1 - 1"
definition kSlotMask :: u64 where "kSlotMask = push_bit kSlot 1 - 1"
definition kSequenceMask :: u64 where "kSequenceMask = push_bit kSequence 1 - 1"

definition kMaxSlots :: u32 where "kMaxSlots = ucast kSlotMask + 1"

record OrderId =
  id_venue :: u8
  id_generation :: u16
  id_slot :: u32
  id_sequence :: u16

definition encode_order_id :: "u8 \<Rightarrow> u16 \<Rightarrow> u32 \<Rightarrow> u16 \<Rightarrow> OrderIdRaw" where
  "encode_order_id venue gen slot sequence =
     push_bit kVenueShift (ucast venue)
     OR push_bit kGenerationShift (ucast gen)
     OR push_bit kSlotShift (ucast slot AND kSlotMask)
     OR push_bit kSequenceShift (ucast sequence)"

definition decode_order_id :: "OrderIdRaw \<Rightarrow> OrderId" where
  "decode_order_id i =
     \<lparr>id_venue = ucast (drop_bit kVenueShift i AND kVenueMask),
      id_generation = ucast (drop_bit kGenerationShift i AND kGenerationMask),
      id_slot = ucast (drop_bit kSlotShift i AND kSlotMask),
      id_sequence = ucast (drop_bit kSequenceShift i AND kSequenceMask)\<rparr>"

section \<open>The codec is a bijection on in-range fields\<close>

lemmas id_consts =
  kVenue_def kGeneration_def kSlot_def kSequence_def kSequenceShift_def kSlotShift_def
  kGenerationShift_def kVenueShift_def

lemma id_masks:
  "kVenueMask = mask 8" "kGenerationMask = mask 16" "kSlotMask = mask 24"
  "kSequenceMask = mask 16"
  by (simp_all add: kVenueMask_def kGenerationMask_def kSlotMask_def kSequenceMask_def
      id_consts mask_eq_exp_minus_1 push_bit_eq_mult)

lemmas id_codec = encode_order_id_def decode_order_id_def id_consts id_masks

lemma kMaxSlots_eq: "unat kMaxSlots = 2 ^ 24"
  by (simp add: kMaxSlots_def id_masks mask_eq_exp_minus_1)

lemma decode_venue [simp]: "id_venue (decode_order_id (encode_order_id v g s q)) = v"
  by (rule bit_word_eqI) (auto simp: id_codec bit_simps dest: bit_imp_le_length)

lemma decode_generation [simp]:
  "id_generation (decode_order_id (encode_order_id v g s q)) = g"
  by (rule bit_word_eqI) (auto simp: id_codec bit_simps dest: bit_imp_le_length)

lemma decode_sequence [simp]: "id_sequence (decode_order_id (encode_order_id v g s q)) = q"
  by (rule bit_word_eqI) (auto simp: id_codec bit_simps)

lemma decode_slot_masked:
  "id_slot (decode_order_id (encode_order_id v g s q)) = s AND mask 24"
  by (rule bit_word_eqI) (auto simp: id_codec bit_simps dest: bit_imp_le_length)

lemma slot_in_range: "unat s < 2 ^ 24 \<Longrightarrow> s AND mask 24 = (s :: u32)"
  by (simp add: word_unat_eq_iff unsigned_take_bit_eq take_bit_nat_eq_self
      flip: take_bit_eq_mask)

lemma decode_slot:
  "unat s < 2 ^ 24 \<Longrightarrow> id_slot (decode_order_id (encode_order_id v g s q)) = s"
  by (simp add: decode_slot_masked slot_in_range)

lemma decode_slot_bound: "unat (id_slot (decode_order_id i)) < 2 ^ 24"
proof -
  have "id_slot (decode_order_id i) = take_bit 24 (id_slot (decode_order_id i))"
    by (rule bit_word_eqI) (auto simp: id_codec bit_simps)
  then have "unat (id_slot (decode_order_id i)) = take_bit 24 (unat (id_slot (decode_order_id i)))"
    by (metis unsigned_take_bit_eq)
  then show ?thesis by (metis take_bit_nat_less_exp)
qed

text \<open>Each field of a decoded id contributes its own range of bits of the id.\<close>

lemma encoded_venue_bit:
  "bit (push_bit kVenueShift (ucast (id_venue (decode_order_id i))) :: u64) n
     \<longleftrightarrow> 56 \<le> n \<and> n < 64 \<and> bit i n"
  by (auto simp: id_codec bit_simps)

lemma encoded_generation_bit:
  "bit (push_bit kGenerationShift (ucast (id_generation (decode_order_id i))) :: u64) n
     \<longleftrightarrow> 40 \<le> n \<and> n < 56 \<and> bit i n"
  by (auto simp: id_codec bit_simps)

lemma encoded_slot_bit:
  "bit (push_bit kSlotShift (ucast (id_slot (decode_order_id i)) AND kSlotMask) :: u64) n
     \<longleftrightarrow> 16 \<le> n \<and> n < 40 \<and> bit i n"
  by (auto simp: id_codec bit_simps)

lemma encoded_sequence_bit:
  "bit (push_bit kSequenceShift (ucast (id_sequence (decode_order_id i))) :: u64) n
     \<longleftrightarrow> n < 16 \<and> bit i n"
  by (auto simp: id_codec bit_simps)

lemma encode_decode:
  "encode_order_id (id_venue (decode_order_id i)) (id_generation (decode_order_id i))
     (id_slot (decode_order_id i)) (id_sequence (decode_order_id i)) = i"
proof (rule bit_word_eqI)
  fix n assume "n < LENGTH(64)"
  then have "n < 64" by simp
  then show "bit (encode_order_id (id_venue (decode_order_id i))
      (id_generation (decode_order_id i)) (id_slot (decode_order_id i))
      (id_sequence (decode_order_id i))) n = bit i n"
    unfolding encode_order_id_def bit_or_iff encoded_venue_bit encoded_generation_bit
      encoded_slot_bit encoded_sequence_bit
    by (cases "n < 16"; cases "n < 40"; cases "n < 56") auto
qed

lemma encode_zero_iff:
  assumes "unat s < 2 ^ 24"
  shows "encode_order_id v g s q = 0 \<longleftrightarrow> v = 0 \<and> g = 0 \<and> s = 0 \<and> q = 0"
proof
  assume z: "encode_order_id v g s q = 0"
  have "v = id_venue (decode_order_id 0)" using z decode_venue [of v g s q] by simp
  moreover have "g = id_generation (decode_order_id 0)"
    using z decode_generation [of v g s q] by simp
  moreover have "s = id_slot (decode_order_id 0)" using z decode_slot [OF assms, of v g q] by simp
  moreover have "q = id_sequence (decode_order_id 0)" using z decode_sequence [of v g s q] by simp
  ultimately show "v = 0 \<and> g = 0 \<and> s = 0 \<and> q = 0" by (simp add: decode_order_id_def)
qed (simp add: encode_order_id_def)

section \<open>Properties\<close>

text \<open>C22: the order id codec is a bijection between 64-bit ids and the four fields with a slot below
  \<open>2 ^ 24\<close>: decoding an encoded id returns every field, and re-encoding the fields of any id
  returns the id.\<close>

theorem order_id_round_trip:
  assumes "unat s < 2 ^ 24"
  shows "decode_order_id (encode_order_id v g s q)
      = \<lparr>id_venue = v, id_generation = g, id_slot = s, id_sequence = q\<rparr>
    \<and> encode_order_id (id_venue (decode_order_id i)) (id_generation (decode_order_id i))
        (id_slot (decode_order_id i)) (id_sequence (decode_order_id i)) = i"
  using decode_slot [OF assms, of v g q] encode_decode [of i] by (simp add: OrderId.equality)

theorem order_id_round_trip_witness:
  "decode_order_id (encode_order_id 200 65535 16777215 7)
     = \<lparr>id_venue = 200, id_generation = 65535, id_slot = 16777215, id_sequence = 7\<rparr>"
  using order_id_round_trip [of 16777215 200 65535 7] by simp

end
