(* ===== verification/OrderPool.thy ===== *)
theory OrderPool
  imports OrderIdCodec
begin

text \<open>
  \<^verbatim>\<open>include/oms/OrderPool.h\<close>, \<^verbatim>\<open>src/OrderPool.cpp\<close>: the fixed-capacity pool. The vectors are
  lists in index order; \<open>free_list\<close> is in vector order, so its back is the last element.
  \<^verbatim>\<open>allocated_\<close> holds 1 for live and 0 for free in the source and a truth value here.
\<close>

record OrderPool =
  capacity :: nat
  in_use :: nat
  slots :: "Order list"
  generation :: "u16 list"
  allocated :: "bool list"
  free_list :: "nat list"

definition pool_new :: "nat \<Rightarrow> OrderPool result" where
  "pool_new cap =
     (if cap > 0 \<and> cap \<le> unat kMaxSlots
      then Inr \<lparr>capacity = cap, in_use = 0, slots = replicate cap default_order,
        generation = replicate cap 0, allocated = replicate cap False,
        free_list = map (\<lambda>i. cap - 1 - i) [0..<cap]\<rparr>
      else Inl BadCapacity)"

definition reset_order :: "Order \<Rightarrow> Order" where
  "reset_order ord = ord\<lparr>o_internal_id := 0, o_size := 0, o_filled_size := 0,
     o_total_fill_amount := 0, o_limit_price := 0, o_instrument := 0, o_status := New,
     o_side := Buy, o_type := Limit, o_pending_cancel := False, o_false_cancel_reject := False,
     o_exchange_id := [], o_strategy_id := 0, o_algo_tag := 0, o_ack_timed_out := False,
     o_reconciliation := False, o_ts := zero_ts, o_int_data := replicate kScratchSlots 0\<rparr>"

definition acquire :: "OrderPool \<Rightarrow> (nat \<times> OrderPool) result" where
  "acquire p =
     (if free_list p = [] then Inl PoolExhausted
      else let slot = last (free_list p) in
        Inr (slot, p\<lparr>free_list := butlast (free_list p),
                     allocated := (allocated p)[slot := True],
                     in_use := in_use p + 1,
                     slots := (slots p)[slot := reset_order (slots p ! slot)]\<rparr>))"

definition release :: "nat \<Rightarrow> OrderPool \<Rightarrow> OrderPool result" where
  "release slot p =
     (if \<not> slot < capacity p then Inl SlotOutOfRange
      else if \<not> allocated p ! slot then Inl DoubleFree
      else Inr (p\<lparr>allocated := (allocated p)[slot := False],
                  generation := (generation p)[slot := generation p ! slot + 1],
                  in_use := in_use p - 1,
                  free_list := free_list p @ [slot]\<rparr>))"

definition pool_at :: "OrderPool \<Rightarrow> nat \<Rightarrow> Order" where
  "pool_at p slot = slots p ! slot"

text \<open>A write through the reference \<^verbatim>\<open>pool_[slot]\<close>.\<close>

definition pool_put :: "nat \<Rightarrow> Order \<Rightarrow> OrderPool \<Rightarrow> OrderPool" where
  "pool_put slot ord p = p\<lparr>slots := (slots p)[slot := ord]\<rparr>"

definition slot_live :: "OrderPool \<Rightarrow> nat \<Rightarrow> bool" where
  "slot_live p slot \<longleftrightarrow> slot < capacity p \<and> allocated p ! slot"

definition slot_of :: "OrderIdRaw \<Rightarrow> nat" where
  "slot_of i = unat (id_slot (decode_order_id i))"

definition is_current :: "OrderIdRaw \<Rightarrow> OrderPool \<Rightarrow> bool" where
  "is_current i p =
     (let d = decode_order_id i in
      if \<not> unat (id_slot d) < capacity p then False
      else if \<not> allocated p ! unat (id_slot d) then False
      else generation p ! unat (id_slot d) = id_generation d)"

section \<open>Well-formed pools\<close>

definition pool_inv :: "OrderPool \<Rightarrow> bool" where
  "pool_inv p \<longleftrightarrow>
     0 < capacity p \<and> capacity p \<le> 2 ^ 24 \<and> length (slots p) = capacity p \<and>
     length (generation p) = capacity p \<and> length (allocated p) = capacity p \<and>
     distinct (free_list p) \<and>
     set (free_list p) = {i. i < capacity p \<and> \<not> allocated p ! i} \<and>
     in_use p + length (free_list p) = capacity p"

definition pool_full :: "OrderPool \<Rightarrow> bool" where
  "pool_full p \<longleftrightarrow> in_use p \<ge> capacity p"

lemma reset_order_default [simp]: "reset_order ord = default_order"
  by (cases ord) (simp add: reset_order_def default_order_def)

lemma pool_inv_new: "pool_new cap = Inr p \<Longrightarrow> pool_inv p"
proof -
  assume "pool_new cap = Inr p"
  then have cap: "0 < cap" "cap \<le> 2 ^ 24" and p: "p = \<lparr>capacity = cap, in_use = 0,
      slots = replicate cap default_order, generation = replicate cap 0,
      allocated = replicate cap False, free_list = map (\<lambda>i. cap - 1 - i) [0..<cap]\<rparr>"
    by (auto simp: pool_new_def kMaxSlots_eq split: if_splits)
  have "inj_on (\<lambda>i. cap - 1 - i) {0..<cap}" by (auto simp: inj_on_def)
  moreover have "i \<in> (\<lambda>i. cap - 1 - i) ` {0..<cap} \<longleftrightarrow> i < cap" for i
  proof
    assume "i < cap"
    then have "i = cap - 1 - (cap - 1 - i)" "cap - 1 - i \<in> {0..<cap}" by auto
    then show "i \<in> (\<lambda>i. cap - 1 - i) ` {0..<cap}" by (rule image_eqI)
  qed (use cap in auto)
  ultimately show ?thesis using cap by (auto simp: pool_inv_def p distinct_map)
qed

lemma acquire_cases:
  assumes "pool_inv p" and "acquire p = Inr (s, q)"
  shows "pool_inv q" and "s < capacity p" and "\<not> allocated p ! s"
    and "capacity q = capacity p" and "generation q = generation p"
    and "allocated q = (allocated p)[s := True]" and "slots q = (slots p)[s := default_order]"
    and "in_use q = in_use p + 1"
proof -
  from assms(2) have ne: "free_list p \<noteq> []" and s: "s = last (free_list p)"
    and q: "q = p\<lparr>free_list := butlast (free_list p), allocated := (allocated p)[s := True],
        in_use := in_use p + 1, slots := (slots p)[s := default_order]\<rparr>"
    by (auto simp: acquire_def Let_def split: if_splits)
  have "s \<in> set (free_list p)" using ne s by simp
  with assms(1) show sc: "s < capacity p" and "\<not> allocated p ! s" by (auto simp: pool_inv_def)
  show "capacity q = capacity p" "generation q = generation p"
    "allocated q = (allocated p)[s := True]" "slots q = (slots p)[s := default_order]"
    "in_use q = in_use p + 1" by (simp_all add: q)
  have "set (butlast (free_list p)) = set (free_list p) - {s}"
    using assms(1) ne s by (simp add: set_butlast_distinct pool_inv_def)
  moreover have "length (free_list p) = Suc (length (butlast (free_list p)))"
    using ne by simp
  ultimately show "pool_inv q"
    using assms(1) sc by (auto simp: pool_inv_def q nth_list_update distinct_butlast)
qed

lemma acquire_Inr_iff: "(\<exists>s q. acquire p = Inr (s, q)) \<longleftrightarrow> free_list p \<noteq> []"
  by (auto simp: acquire_def Let_def)

lemma not_full_free: "pool_inv p \<Longrightarrow> pool_full p \<longleftrightarrow> free_list p = []"
  by (cases "free_list p") (auto simp: pool_inv_def pool_full_def)

lemma acquire_ok:
  assumes "pool_inv p" and "\<not> pool_full p"
  obtains s q where "acquire p = Inr (s, q)"
  using assms not_full_free acquire_Inr_iff by blast

lemma release_cases:
  assumes "pool_inv p" and "slot_live p s"
  obtains q where "release s p = Inr q" and "pool_inv q" and "capacity q = capacity p"
    and "generation q = (generation p)[s := generation p ! s + 1]"
    and "allocated q = (allocated p)[s := False]" and "slots q = slots p"
    and "in_use q = in_use p - 1" and "0 < in_use p"
proof -
  have s: "s < capacity p" "allocated p ! s" using assms(2) by (auto simp: slot_live_def)
  define q where "q = p\<lparr>allocated := (allocated p)[s := False],
      generation := (generation p)[s := generation p ! s + 1],
      in_use := in_use p - 1, free_list := free_list p @ [s]\<rparr>"
  have fl: "set (free_list p) = {i. i < capacity p \<and> \<not> allocated p ! i}" "distinct (free_list p)"
    and len: "in_use p + length (free_list p) = capacity p"
    using assms(1) by (auto simp: pool_inv_def)
  have "set (free_list p) \<subseteq> {..<capacity p} - {s}" using fl(1) s by auto
  then have "card (set (free_list p)) \<le> card ({..<capacity p} - {s})"
    by (rule card_mono [rotated]) simp
  then have "length (free_list p) \<le> capacity p - 1"
    using fl(2) s(1) by (simp add: distinct_card)
  then have pos: "0 < in_use p" using len s(1) by linarith
  have "s \<notin> set (free_list p)" using fl(1) s by simp
  moreover have "set (free_list q) = {i. i < capacity q \<and> \<not> allocated q ! i}"
    using fl(1) s assms(1) by (auto simp: q_def nth_list_update pool_inv_def)
  ultimately have "pool_inv q"
    using assms(1) pos by (simp add: pool_inv_def q_def)
  then show thesis
    using that [of q] s pos by (auto simp: release_def q_def)
qed

lemma pool_inv_put [simp]: "pool_inv (pool_put s ord p) = pool_inv p"
  by (simp add: pool_inv_def pool_put_def)

lemma pool_put_fields [simp]:
  "capacity (pool_put s ord p) = capacity p" "in_use (pool_put s ord p) = in_use p"
  "generation (pool_put s ord p) = generation p" "allocated (pool_put s ord p) = allocated p"
  "free_list (pool_put s ord p) = free_list p"
  by (simp_all add: pool_put_def)

lemma is_current_iff:
  "is_current i p \<longleftrightarrow> slot_live p (slot_of i)
     \<and> generation p ! slot_of i = id_generation (decode_order_id i)"
  by (auto simp: is_current_def slot_live_def slot_of_def Let_def)

lemma slot_live_put [simp]: "slot_live (pool_put s ord p) t = slot_live p t"
  by (simp add: slot_live_def)

lemma is_current_put [simp]: "is_current i (pool_put s ord p) = is_current i p"
  by (simp add: is_current_iff)

lemma pool_at_put:
  "pool_inv p \<Longrightarrow> s < capacity p \<Longrightarrow> pool_at (pool_put s ord p) t = (if t = s then ord else pool_at p t)"
  by (simp add: pool_at_def pool_put_def pool_inv_def nth_list_update)

lemma pool_at_put_other: "t \<noteq> s \<Longrightarrow> pool_at (pool_put s ord p) t = pool_at p t"
  by (simp add: pool_at_def pool_put_def)

lemma is_current_capacity: "is_current i p \<Longrightarrow> slot_of i < capacity p"
  by (simp add: is_current_iff slot_live_def)

lemma slot_of_encode:
  "s < 2 ^ 24 \<Longrightarrow> slot_of (encode_order_id v g (word_of_nat s) q) = s"
  by (simp add: slot_of_def decode_slot unat_of_nat)

section \<open>The slot-allocator contract\<close>

text \<open>
  What the order manager relies on: an acquired slot was free and becomes live, nothing else
  changes; a released slot was live, becomes free, and its generation advances by one.
\<close>

datatype slot_op = Acquire | Release nat

fun releases_of :: "nat \<Rightarrow> slot_op list \<Rightarrow> nat" where
  "releases_of s [] = 0"
| "releases_of s (Acquire # ops) = releases_of s ops"
| "releases_of s (Release t # ops) = (if t = s then 1 else 0) + releases_of s ops"

fun run_slots ::
  "('p \<Rightarrow> (nat \<times> 'p) result) \<Rightarrow> (nat \<Rightarrow> 'p \<Rightarrow> 'p result) \<Rightarrow> slot_op list \<Rightarrow> 'p \<Rightarrow> 'p result"
where
  "run_slots acq rel [] p = Inr p"
| "run_slots acq rel (Acquire # ops) p = ebind (acq p) (\<lambda>(s, q). run_slots acq rel ops q)"
| "run_slots acq rel (Release s # ops) p = ebind (rel s p) (run_slots acq rel ops)"

locale slot_allocator =
  fixes invar :: "'p \<Rightarrow> bool"
    and acq :: "'p \<Rightarrow> (nat \<times> 'p) result"
    and rel :: "nat \<Rightarrow> 'p \<Rightarrow> 'p result"
    and live :: "'p \<Rightarrow> nat \<Rightarrow> bool"
    and gen :: "'p \<Rightarrow> nat \<Rightarrow> u16"
  assumes acq_spec: "invar p \<Longrightarrow> acq p = Inr (s, q) \<Longrightarrow>
      invar q \<and> \<not> live p s \<and> (\<forall>t. live q t \<longleftrightarrow> live p t \<or> t = s) \<and> (\<forall>t. gen q t = gen p t)"
    and rel_spec: "invar p \<Longrightarrow> rel s p = Inr q \<Longrightarrow>
      invar q \<and> live p s \<and> (\<forall>t. live q t \<longleftrightarrow> live p t \<and> t \<noteq> s)
        \<and> (\<forall>t. gen q t = (if t = s then gen p t + 1 else gen p t))"
begin

lemma run_slots_gen:
  assumes "invar p" and "run_slots acq rel ops p = Inr q"
  shows "invar q \<and> gen q s = gen p s + word_of_nat (releases_of s ops)"
  using assms
proof (induction ops arbitrary: p)
  case Nil
  then show ?case by simp
next
  case (Cons op ops)
  show ?case
  proof (cases op)
    case Acquire
    with Cons.prems(2) obtain t r where r: "acq p = Inr (t, r)" "run_slots acq rel ops r = Inr q"
      by (auto elim!: ebind_InrE)
    from acq_spec [OF Cons.prems(1) r(1)] have "invar r" "gen r s = gen p s" by auto
    with Cons.IH [OF _ r(2)] Acquire show ?thesis by simp
  next
    case (Release t)
    with Cons.prems(2) obtain r where r: "rel t p = Inr r" "run_slots acq rel ops r = Inr q"
      by (auto elim!: ebind_InrE)
    from rel_spec [OF Cons.prems(1) r(1)]
    have "invar r" "gen r s = (if s = t then gen p s + 1 else gen p s)" by auto
    with Cons.IH [OF _ r(2)] Release show ?thesis by (auto simp: add.assoc)
  qed
qed

text \<open>The generation tag keeps a released handle stale for the next \<open>2 ^ 16 - 1\<close> releases.\<close>

lemma stale_handle:
  assumes "invar p" and "rel s p = Inr r" and "run_slots acq rel ops r = Inr q"
    and "releases_of s ops < 2 ^ 16 - 1"
  shows "gen q s \<noteq> gen p s"
proof
  assume eq: "gen q s = gen p s"
  from rel_spec [OF assms(1,2)] have "invar r" "gen r s = gen p s + 1" by auto
  with run_slots_gen [OF _ assms(3), of s] eq
  have "word_of_nat (1 + releases_of s ops) = (0 :: u16)" by (simp add: add.assoc)
  then have "2 ^ 16 dvd 1 + releases_of s ops"
    by (subst (asm) word_of_nat_eq_0_iff) simp
  with assms(4) show False by (auto dest: dvd_imp_le)
qed

end

definition slot_gen :: "OrderPool \<Rightarrow> nat \<Rightarrow> u16" where
  "slot_gen p s = (if s < capacity p then generation p ! s else 0)"

lemma release_Inr_live: "release s p = Inr q \<Longrightarrow> slot_live p s"
  by (auto simp: release_def slot_live_def split: if_splits)

interpretation pool: slot_allocator pool_inv acquire release slot_live slot_gen
proof (unfold_locales, goal_cases)
  case (1 p s q)
  note f = acquire_cases [OF 1]
  have "slot_live q t \<longleftrightarrow> slot_live p t \<or> t = s" for t
    using f(2,4,6) 1(1) by (auto simp: slot_live_def nth_list_update pool_inv_def)
  then show ?case using f by (auto simp: slot_live_def slot_gen_def)
next
  case (2 p s q)
  have live: "slot_live p s" using 2(2) by (rule release_Inr_live)
  obtain q' where q': "release s p = Inr q'" "pool_inv q'" "capacity q' = capacity p"
      "generation q' = (generation p)[s := generation p ! s + 1]"
      "allocated q' = (allocated p)[s := False]"
    using release_cases [OF 2(1) live] by blast
  with 2 have q: "q' = q" by simp
  show ?case using q' live 2(1) unfolding q
    by (auto simp: slot_live_def slot_gen_def nth_list_update pool_inv_def)
qed

section \<open>Properties\<close>

text \<open>C23: a stale id stays stale. Once a slot is released, an id of its old generation is
  rejected by \<^verbatim>\<open>is_current\<close> whatever acquires and releases follow, until that slot has been
  released another \<open>2 ^ 16 - 1\<close> times (the generation then wraps).\<close>

theorem released_id_stays_stale:
  assumes "pool_inv p" and "is_current i p" and "release (slot_of i) p = Inr r"
    and "run_slots acquire release ops r = Inr q" and "releases_of (slot_of i) ops < 2 ^ 16 - 1"
  shows "\<not> is_current i q"
  using pool.stale_handle [OF assms(1,3,4,5)] assms(2)
  by (auto simp: is_current_iff slot_gen_def slot_live_def)

text \<open>A pool of one slot whose order has just been acquired.\<close>

definition one_slot :: OrderPool where
  "one_slot = \<lparr>capacity = 1, in_use = 1, slots = [default_order], generation = [5],
     allocated = [True], free_list = []\<rparr>"

lemma one_slot_inv: "pool_inv one_slot"
  by (auto simp: pool_inv_def one_slot_def nth_Cons split: nat.splits)

theorem released_id_stays_stale_witness:
  "\<exists>r q. release 0 one_slot = Inr r \<and> run_slots acquire release [Acquire, Release 0, Acquire] r = Inr q
     \<and> \<not> is_current (encode_order_id 2 5 0 9) q"
proof -
  let ?i = "encode_order_id 2 5 0 9"
  have s: "slot_of ?i = 0" using slot_of_encode [of 0 2 5 9] by simp
  have cur: "is_current ?i one_slot" by (simp add: is_current_iff s slot_live_def one_slot_def)
  have r: "release (slot_of ?i) one_slot = Inr (one_slot\<lparr>in_use := 0, generation := [6],
      allocated := [False], free_list := [0]\<rparr>)"
    by (simp add: release_def s one_slot_def)
  obtain q where q: "run_slots acquire release [Acquire, Release 0, Acquire]
      (one_slot\<lparr>in_use := 0, generation := [6], allocated := [False], free_list := [0]\<rparr>) = Inr q"
    by (simp add: acquire_def release_def one_slot_def)
  show ?thesis
    using released_id_stays_stale [OF one_slot_inv cur r q] r q by (auto simp: s)
qed

text \<open>acquire hands out a free slot, fully reset. On a well-formed pool that is not full it
  succeeds; the slot was free and becomes live with its generation kept, its order is the default
  order whatever the slot held before, no other slot changes, and the count goes up by one.\<close>

theorem acquire_resets_a_free_slot:
  assumes "pool_inv p" and "\<not> pool_full p"
  shows "\<exists>s q. acquire p = Inr (s, q) \<and> \<not> slot_live p s \<and> slot_live q s \<and> pool_inv q
    \<and> pool_at q s = default_order \<and> generation q = generation p \<and> in_use q = in_use p + 1
    \<and> (\<forall>t. t \<noteq> s \<longrightarrow> pool_at q t = pool_at p t \<and> slot_live q t = slot_live p t)"
proof -
  obtain s q where a: "acquire p = Inr (s, q)" using acquire_ok [OF assms] by blast
  note f = acquire_cases [OF assms(1) a]
  have "s < length (slots p)" "s < length (allocated p)" using f(2) assms(1) by (simp_all add: pool_inv_def)
  with f a show ?thesis by (auto simp: slot_live_def pool_at_def)
qed

theorem acquire_resets_a_free_slot_witness:
  "\<exists>s q. acquire (one_slot\<lparr>in_use := 0, allocated := [False], free_list := [0]\<rparr>) = Inr (s, q) \<and> pool_inv q"
proof -
  have "pool_inv (one_slot\<lparr>in_use := 0, allocated := [False], free_list := [0]\<rparr>)"
    by (auto simp: pool_inv_def one_slot_def)
  from acquire_resets_a_free_slot [OF this] show ?thesis by (auto simp: pool_full_def one_slot_def)
qed

end
