(* ===== verification/Double.thy ===== *)
theory Double
  imports Complex_Main Prelude
begin

text \<open>
  IEEE-754 binary64, the \<^verbatim>\<open>double\<close> of the source, as far as the code uses it: a finite double
  is the rational it denotes, and every operation of the source is the exact rational operation
  followed by \<open>dbl\<close>, rounding to 53 significant bits with ties to even (and to multiples of
  \<open>2 ^ -1074\<close> below the normal range). Infinities and NaN are not values here: the
  code computes no quotient by zero, and its magnitudes stay far below \<open>2 ^ 1024\<close>.
  \<open>to_i64\<close> is \<^verbatim>\<open>static_cast<int64_t>\<close> of a double: truncation towards zero.
\<close>

type_synonym double = rat

definition pow2 :: "int \<Rightarrow> rat" where
  "pow2 e = (if 0 \<le> e then 2 ^ nat e else 1 / 2 ^ nat (- e))"

fun ilog2 :: "nat \<Rightarrow> nat" where
  "ilog2 n = (if n < 2 then 0 else Suc (ilog2 (n div 2)))"

declare ilog2.simps [simp del]

text \<open>The exponent of a positive rational: \<open>pow2 (binexp x) \<le> x < pow2 (binexp x + 1)\<close>.\<close>

definition binexp :: "rat \<Rightarrow> int" where
  "binexp x =
     (let (n, d) = quotient_of x;
          e = int (ilog2 (nat n)) - int (ilog2 (nat d))
      in if pow2 e \<le> x then e else e - 1)"

definition round_even :: "rat \<Rightarrow> int" where
  "round_even x =
     (let f = \<lfloor>x\<rfloor>; r = x - of_int f
      in if r < 1 / 2 then f else if r > 1 / 2 then f + 1 else if even f then f else f + 1)"

definition dbl_exp :: "rat \<Rightarrow> int" where
  "dbl_exp x = max (binexp x - 52) (- 1074)"

definition dbl_pos :: "rat \<Rightarrow> double" where
  "dbl_pos x = of_int (round_even (x / pow2 (dbl_exp x))) * pow2 (dbl_exp x)"

definition dbl :: "rat \<Rightarrow> double" where
  "dbl x = (if x = 0 then 0 else if 0 < x then dbl_pos x else - dbl_pos (- x))"

definition of_i64 :: "int \<Rightarrow> double" where
  "of_i64 i = dbl (of_int i)"

definition d_add :: "double \<Rightarrow> double \<Rightarrow> double" where "d_add x y = dbl (x + y)"
definition d_sub :: "double \<Rightarrow> double \<Rightarrow> double" where "d_sub x y = dbl (x - y)"
definition d_mul :: "double \<Rightarrow> double \<Rightarrow> double" where "d_mul x y = dbl (x * y)"
definition d_div :: "double \<Rightarrow> double \<Rightarrow> double" where "d_div x y = dbl (x / y)"

definition to_i64 :: "double \<Rightarrow> int" where
  "to_i64 x = (if 0 \<le> x then \<lfloor>x\<rfloor> else \<lceil>x\<rceil>)"

section \<open>Powers of two and exponents\<close>

lemma pow2_pos [simp]: "0 < pow2 e"
  by (simp add: pow2_def)

lemma pow2_ge0 [simp]: "0 \<le> pow2 e"
  using pow2_pos [of e] by linarith

lemma pow2_nonzero [simp]: "pow2 e \<noteq> 0"
  using pow2_pos [of e] by linarith

lemma pow2_powi: "pow2 e = 2 powi e"
  by (simp add: pow2_def power_int_def field_simps)

lemma pow2_add: "pow2 (a + b) = pow2 a * pow2 b"
  by (simp add: pow2_powi power_int_add)

lemma pow2_strict_mono: "a < b \<Longrightarrow> pow2 a < pow2 b"
  by (simp add: pow2_powi power_int_strict_increasing)

lemma pow2_mono_iff: "pow2 a \<le> pow2 b \<longleftrightarrow> a \<le> b"
  using pow2_strict_mono [of a b] pow2_strict_mono [of b a] by (cases a b rule: linorder_cases) auto

lemma pow2_mono: "a \<le> b \<Longrightarrow> pow2 a \<le> pow2 b"
  by (simp add: pow2_mono_iff)

lemma pow2_strict: "pow2 a < pow2 b \<longleftrightarrow> a < b"
  using pow2_mono_iff [of b a] by linarith

lemma pow2_nat: "pow2 (int n) = 2 ^ n"
  by (simp add: pow2_def)

lemma ilog2_bounds: "0 < n \<Longrightarrow> 2 ^ ilog2 n \<le> n \<and> n < 2 ^ Suc (ilog2 n)"
proof (induction n rule: ilog2.induct)
  case (1 n)
  show ?case
  proof (cases "n < 2")
    case True
    with 1 show ?thesis by (subst (1 2) ilog2.simps) auto
  next
    case False
    with 1 have "2 ^ ilog2 (n div 2) \<le> n div 2 \<and> n div 2 < 2 ^ Suc (ilog2 (n div 2))" by simp
    moreover have "ilog2 n = Suc (ilog2 (n div 2))" using False by (subst ilog2.simps) simp
    ultimately show ?thesis by auto
  qed
qed

lemma ilog2_pow2:
  assumes "0 < k"
  shows "pow2 (int (ilog2 (nat k))) \<le> of_int k"
    and "of_int k < pow2 (int (ilog2 (nat k)) + 1)"
proof -
  let ?a = "ilog2 (nat k)"
  have b: "2 ^ ?a \<le> nat k" "nat k < 2 ^ Suc ?a" using ilog2_bounds [of "nat k"] assms by auto
  have eqs: "pow2 (int ?a) = of_int (2 ^ ?a)" "pow2 (int ?a + 1) = of_int (2 ^ Suc ?a)"
    using pow2_nat [of ?a] pow2_nat [of "Suc ?a"] by (simp_all add: add.commute)
  have "2 ^ ?a \<le> k" using b(1) assms by (simp add: le_nat_iff)
  then show "pow2 (int ?a) \<le> of_int k" unfolding eqs by (rule of_int_le_iff [THEN iffD2])
  have "k < 2 ^ Suc ?a" using b(2) assms by (simp add: nat_less_iff)
  then show "of_int k < pow2 (int ?a + 1)" unfolding eqs by (rule of_int_less_iff [THEN iffD2])
qed

lemma binexp_bounds:
  assumes "0 < x"
  shows "pow2 (binexp x) \<le> x" and "x < pow2 (binexp x + 1)"
proof -
  obtain n d where q: "quotient_of x = (n, d)" by (cases "quotient_of x")
  then have d: "0 < d" and x: "x = of_int n / of_int d"
    by (auto simp: quotient_of_denom_pos quotient_of_div)
  with assms have n: "0 < n" by (simp add: zero_less_divide_iff)
  define a b where "a = ilog2 (nat n)" and "b = ilog2 (nat d)"
  note N = ilog2_pow2 [OF n, folded a_def] and D = ilog2_pow2 [OF d, folded b_def]
  define e where "e = int a - int b"
  have dpos: "(0::rat) < of_int d" using d by simp
  have split: "pow2 (int a + 1) = pow2 (e + 1) * pow2 (int b)"
    "pow2 (int a) = pow2 (e - 1) * pow2 (int b + 1)"
    by (simp_all add: e_def flip: pow2_add)
  have up: "x < pow2 (e + 1)"
  proof -
    have "of_int n < pow2 (e + 1) * pow2 (int b)" using N split by simp
    also have "\<dots> \<le> pow2 (e + 1) * of_int d" using D by (intro mult_left_mono) simp_all
    finally show ?thesis using dpos by (simp add: x pos_divide_less_eq)
  qed
  have lo: "pow2 (e - 1) \<le> x"
  proof -
    have "pow2 (e - 1) * of_int d \<le> pow2 (e - 1) * pow2 (int b + 1)"
      using D by (intro mult_left_mono) simp_all
    also have "\<dots> \<le> of_int n" using N split by simp
    finally show ?thesis using dpos by (simp add: x pos_le_divide_eq)
  qed
  have be: "binexp x = (if pow2 e \<le> x then e else e - 1)"
    by (simp add: binexp_def q e_def a_def b_def)
  show "pow2 (binexp x) \<le> x" and "x < pow2 (binexp x + 1)"
    using up lo by (auto simp: be)
qed

lemma binexp_mono:
  assumes "0 < x" and "x \<le> y"
  shows "binexp x \<le> binexp y"
proof -
  have "pow2 (binexp x) < pow2 (binexp y + 1)"
    using binexp_bounds [of x] binexp_bounds [of y] assms by linarith
  then show ?thesis by (simp add: pow2_strict)
qed

section \<open>Rounding\<close>

lemma round_even_of_int [simp]: "round_even (of_int k) = k"
  by (simp add: round_even_def)

lemma round_even_floor: "\<lfloor>x\<rfloor> \<le> round_even x" and round_even_floor1: "round_even x \<le> \<lfloor>x\<rfloor> + 1"
  by (simp_all add: round_even_def Let_def)

lemma round_even_mono:
  assumes "x \<le> y"
  shows "round_even x \<le> round_even y"
proof (cases "\<lfloor>x\<rfloor> = \<lfloor>y\<rfloor>")
  case True
  with assms show ?thesis by (auto simp: round_even_def Let_def)
next
  case False
  with floor_mono [OF assms] have "\<lfloor>x\<rfloor> + 1 \<le> \<lfloor>y\<rfloor>" by linarith
  with round_even_floor1 [of x] round_even_floor [of y] show ?thesis by linarith
qed

lemma dbl_pos_multiple:
  assumes "x = of_int k * pow2 (dbl_exp x)"
  shows "dbl_pos x = x"
proof -
  have "x / pow2 (dbl_exp x) = of_int k" using assms by (simp add: divide_eq_eq)
  then show ?thesis using assms by (simp add: dbl_pos_def)
qed

lemma pow2_multiple:
  assumes "b \<le> a"
  obtains k where "pow2 a = of_int k * pow2 b"
proof -
  have "pow2 a = pow2 (a - b) * pow2 b" by (simp flip: pow2_add)
  moreover have "pow2 (a - b) = of_int (2 ^ nat (a - b))" using assms by (simp add: pow2_def)
  ultimately show thesis using that [of "2 ^ nat (a - b)"] by simp
qed

lemma dbl_pos_ge:
  assumes "0 < x" and "of_int k * pow2 (dbl_exp x) \<le> x"
  shows "of_int k * pow2 (dbl_exp x) \<le> dbl_pos x"
proof -
  have "of_int k \<le> x / pow2 (dbl_exp x)" using assms by (simp add: pos_le_divide_eq)
  from round_even_mono [OF this] have "k \<le> round_even (x / pow2 (dbl_exp x))" by simp
  then show ?thesis unfolding dbl_pos_def by (intro mult_right_mono) simp_all
qed

lemma dbl_pos_le:
  assumes "0 < x" and "x \<le> of_int k * pow2 (dbl_exp x)"
  shows "dbl_pos x \<le> of_int k * pow2 (dbl_exp x)"
proof -
  have "x / pow2 (dbl_exp x) \<le> of_int k" using assms by (simp add: pos_divide_le_eq)
  from round_even_mono [OF this] have "round_even (x / pow2 (dbl_exp x)) \<le> k" by simp
  then show ?thesis unfolding dbl_pos_def by (intro mult_right_mono) simp_all
qed

lemma dbl_pos_mono:
  assumes "0 < x" and "x \<le> y"
  shows "dbl_pos x \<le> dbl_pos y"
proof (cases "dbl_exp x = dbl_exp y")
  case True
  have "x / pow2 (dbl_exp y) \<le> y / pow2 (dbl_exp y)" using assms by (intro divide_right_mono) simp_all
  from round_even_mono [OF this] show ?thesis
    unfolding dbl_pos_def True by (intro mult_right_mono) simp_all
next
  case False
  have bm: "binexp x \<le> binexp y" using assms by (rule binexp_mono)
  with False have lt: "binexp x < binexp y" and ey: "dbl_exp y = binexp y - 52"
    and exle: "dbl_exp x \<le> binexp y"
    by (auto simp: dbl_exp_def max_def split: if_splits)
  have y: "0 < y" using assms by simp
  obtain k where k: "pow2 (binexp y) = of_int k * pow2 (dbl_exp x)"
    using pow2_multiple [OF exle] by blast
  obtain l where l: "pow2 (binexp y) = of_int l * pow2 (dbl_exp y)"
    using pow2_multiple [of "dbl_exp y" "binexp y"] ey by auto
  have "x \<le> pow2 (binexp y)"
    using binexp_bounds(2) [OF assms(1)] pow2_mono [of "binexp x + 1" "binexp y"] lt by linarith
  then have "dbl_pos x \<le> pow2 (binexp y)" using dbl_pos_le [OF assms(1), of k] k by simp
  also have "\<dots> \<le> dbl_pos y" using dbl_pos_ge [OF y, of l] l binexp_bounds(1) [OF y] by simp
  finally show ?thesis .
qed

lemma dbl_pos_nonneg: "0 < x \<Longrightarrow> 0 \<le> dbl_pos x"
  using dbl_pos_ge [of x 0] by simp

lemma dbl_0 [simp]: "dbl 0 = 0"
  by (simp add: dbl_def)

lemma dbl_mono: "x \<le> y \<Longrightarrow> dbl x \<le> dbl y"
  using dbl_pos_mono [of x y] dbl_pos_mono [of "- y" "- x"] dbl_pos_nonneg [of y]
    dbl_pos_nonneg [of "- x"]
  by (auto simp: dbl_def)

lemma dbl_nonneg: "0 \<le> x \<Longrightarrow> 0 \<le> dbl x"
  using dbl_mono [of 0 x] by simp

lemma dbl_minus: "dbl (- x) = - dbl x"
  by (auto simp: dbl_def)

lemma dbl_pos_of_nat:
  assumes "0 < k" and "k \<le> 2 ^ 53"
  shows "dbl_pos (of_int k) = of_int k"
proof -
  define x :: rat where "x = of_int k"
  have x: "0 < x" "1 \<le> x" using assms by (simp_all add: x_def)
  have ex0: "0 \<le> binexp x"
    using binexp_bounds(2) [OF x(1)] x(2) pow2_strict [of 0 "binexp x + 1"] by (simp add: pow2_def)
  have ke: "pow2 (binexp x) \<le> 2 ^ 53"
  proof -
    have "x \<le> of_int (2 ^ 53)" unfolding x_def using assms(2) by (rule of_int_le_iff [THEN iffD2])
    with binexp_bounds(1) [OF x(1)] show ?thesis by simp
  qed
  then have "binexp x \<le> 53" using pow2_mono_iff [of "binexp x" 53] by (simp add: pow2_def)
  show ?thesis
  proof (cases "binexp x = 53")
    case True
    with binexp_bounds(1) [OF x(1)] have "2 ^ 53 \<le> x" by (simp add: pow2_def)
    then have "of_int (2 ^ 53) \<le> (of_int k :: rat)" by (simp add: x_def)
    then have "2 ^ 53 \<le> k" by (rule of_int_le_iff [THEN iffD1])
    with assms(2) have "k = 2 ^ 53" by simp
    moreover have "dbl_exp x = 1" using True by (simp add: dbl_exp_def)
    ultimately show ?thesis
      using dbl_pos_multiple [of x "2 ^ 52"] by (simp add: x_def pow2_def)
  next
    case False
    with \<open>binexp x \<le> 53\<close> have "dbl_exp x \<le> 0" by (simp add: dbl_exp_def)
    then obtain l where "pow2 0 = of_int l * pow2 (dbl_exp x)" by (rule pow2_multiple)
    then have "x = of_int (k * l) * pow2 (dbl_exp x)" by (simp add: x_def pow2_def)
    from dbl_pos_multiple [OF this] show ?thesis by (simp add: x_def)
  qed
qed

lemma of_i64_exact: "\<bar>k\<bar> \<le> 2 ^ 53 \<Longrightarrow> of_i64 k = of_int k"
  using dbl_pos_of_nat [of k] dbl_pos_of_nat [of "- k"] by (auto simp: of_i64_def dbl_def)

lemma dbl_1 [simp]: "dbl 1 = 1"
  using of_i64_exact [of 1] by (simp add: of_i64_def)

lemma of_i64_0 [simp]: "of_i64 0 = 0"
  by (simp add: of_i64_def)

lemma of_i64_mono: "a \<le> b \<Longrightarrow> of_i64 a \<le> of_i64 b"
  by (simp add: of_i64_def dbl_mono)

lemma to_i64_mono:
  assumes "x \<le> y"
  shows "to_i64 x \<le> to_i64 y"
proof (cases "0 \<le> x \<or> \<not> 0 \<le> y")
  case True
  with assms show ?thesis by (auto simp: to_i64_def floor_mono ceiling_mono)
next
  case False
  then have "\<lceil>x\<rceil> \<le> 0" "0 \<le> \<lfloor>y\<rfloor>" by (simp_all add: ceiling_le_zero)
  then have "\<lceil>x\<rceil> \<le> \<lfloor>y\<rfloor>" by linarith
  with False show ?thesis by (simp add: to_i64_def)
qed

lemma to_i64_of_int [simp]: "to_i64 (of_int k) = k"
  by (simp add: to_i64_def)

lemma to_i64_nonneg: "0 \<le> x \<Longrightarrow> 0 \<le> to_i64 x"
  by (simp add: to_i64_def)

lemma to_i64_le: "x \<le> of_int k \<Longrightarrow> to_i64 x \<le> k"
  using to_i64_mono [of x "of_int k"] by simp

lemma to_i64_ge: "of_int k \<le> x \<Longrightarrow> k \<le> to_i64 x"
  using to_i64_mono [of "of_int k" x] by simp

end
