(* ===== verification/RingBuffer.thy ===== *)
theory RingBuffer
  imports Double "HOL-Library.Multiset"
begin

text \<open>
  \<^verbatim>\<open>include/oms/RingBuffer.h\<close>: the fixed-capacity ring of samples behind the health signals and
  the metrics. A ring of capacity 0 has no defined \<^verbatim>\<open>push\<close> (it takes a remainder by zero); the
  lemmas ask for a positive capacity, which every ring of the source has by default.
\<close>

record 'a RingBuffer =
  rb_capacity :: nat
  rb_head :: nat
  rb_buf :: "'a list"

definition ring_new :: "nat \<Rightarrow> 'a RingBuffer" where
  "ring_new cap = \<lparr>rb_capacity = cap, rb_head = 0, rb_buf = []\<rparr>"

definition ring_push :: "'a \<Rightarrow> 'a RingBuffer \<Rightarrow> 'a RingBuffer" where
  "ring_push v r =
     (let r' = (if length (rb_buf r) < rb_capacity r then r\<lparr>rb_buf := rb_buf r @ [v]\<rparr>
                else r\<lparr>rb_buf := (rb_buf r)[rb_head r := v]\<rparr>)
      in r'\<lparr>rb_head := (rb_head r + 1) mod rb_capacity r\<rparr>)"

definition ring_size :: "'a RingBuffer \<Rightarrow> nat" where
  "ring_size r = length (rb_buf r)"

definition ring_empty :: "'a RingBuffer \<Rightarrow> bool" where
  "ring_empty r \<longleftrightarrow> rb_buf r = []"

definition ring_clear :: "'a RingBuffer \<Rightarrow> 'a RingBuffer" where
  "ring_clear r = r\<lparr>rb_buf := [], rb_head := 0\<rparr>"

definition ring_fraction :: "('a \<Rightarrow> bool) \<Rightarrow> 'a RingBuffer \<Rightarrow> double" where
  "ring_fraction pred r =
     (if rb_buf r = [] then 0
      else d_div (of_i64 (foldl (\<lambda>n v. n + (if pred v then 1 else 0)) 0 (rb_buf r)))
                 (of_i64 (int (length (rb_buf r)))))"

definition ring_percentile :: "double \<Rightarrow> int RingBuffer \<Rightarrow> int" where
  "ring_percentile p r =
     (if rb_buf r = [] then 0
      else let s = sort (rb_buf r) in
        if p \<le> 0 then hd s
        else if p \<ge> 1 then last s
        else let idx = d_mul p (of_i64 (int (length s - 1)));
                 lo = nat (to_i64 idx);
                 hi = min (lo + 1) (length s - 1);
                 fr = d_sub idx (of_i64 (int lo))
             in to_i64 (d_add (of_i64 (s ! lo)) (d_mul (of_i64 (s ! hi - s ! lo)) fr)))"

section \<open>The ring keeps the most recent samples\<close>

definition ring_inv :: "'a RingBuffer \<Rightarrow> bool" where
  "ring_inv r \<longleftrightarrow> 0 < rb_capacity r \<and> length (rb_buf r) \<le> rb_capacity r \<and> rb_head r < rb_capacity r
     \<and> (length (rb_buf r) < rb_capacity r \<longrightarrow> rb_head r = length (rb_buf r))"

text \<open>The samples from the oldest to the newest.\<close>

definition ring_window :: "'a RingBuffer \<Rightarrow> 'a list" where
  "ring_window r =
     (if length (rb_buf r) < rb_capacity r then rb_buf r
      else drop (rb_head r) (rb_buf r) @ take (rb_head r) (rb_buf r))"

lemma ring_inv_new: "0 < cap \<Longrightarrow> ring_inv (ring_new cap)"
  by (simp add: ring_inv_def ring_new_def)

lemma ring_capacity_push [simp]: "rb_capacity (ring_push v r) = rb_capacity r"
  by (simp add: ring_push_def Let_def)

lemma ring_inv_push: "ring_inv r \<Longrightarrow> ring_inv (ring_push v r)"
  by (auto simp: ring_inv_def ring_push_def Let_def mod_Suc)

lemma ring_window_push:
  assumes "ring_inv r"
  shows "ring_window (ring_push v r) =
    (if length (ring_window r) < rb_capacity r then ring_window r @ [v]
     else tl (ring_window r) @ [v])"
proof (cases "length (rb_buf r) < rb_capacity r")
  case True
  with assms have h: "rb_head r = length (rb_buf r)" by (simp add: ring_inv_def)
  show ?thesis
  proof (cases "Suc (length (rb_buf r)) = rb_capacity r")
    case True
    with h show ?thesis by (simp add: ring_window_def ring_push_def)
  next
    case False
    with True h show ?thesis by (simp add: ring_window_def ring_push_def)
  qed
next
  case False
  with assms have full: "length (rb_buf r) = rb_capacity r" and h: "rb_head r < length (rb_buf r)"
    by (auto simp: ring_inv_def)
  let ?b = "rb_buf r" and ?h = "rb_head r"
  have split: "?b = take ?h ?b @ ?b ! ?h # drop (Suc ?h) ?b"
    using h by (simp add: id_take_nth_drop [symmetric])
  have upd: "?b[?h := v] = take ?h ?b @ v # drop (Suc ?h) ?b"
    using h by (simp add: upd_conv_take_nth_drop)
  have old: "tl (ring_window r) = drop (Suc ?h) ?b @ take ?h ?b"
    using h full by (simp add: ring_window_def Cons_nth_drop_Suc [symmetric])
  have lw: "length (ring_window r) = rb_capacity r" using full by (simp add: ring_window_def)
  show ?thesis
  proof (cases "Suc ?h = rb_capacity r")
    case True
    then have "ring_window (ring_push v r) = take ?h ?b @ [v]"
      using full h upd by (simp add: ring_window_def ring_push_def)
    then show ?thesis using True full lw old by simp
  next
    case False
    with h full have "Suc ?h < rb_capacity r" by simp
    then have "ring_window (ring_push v r) = drop (Suc ?h) ?b @ take ?h ?b @ [v]"
      using full h upd by (simp add: ring_window_def ring_push_def min_def)
    then show ?thesis using lw old by simp
  qed
qed

lemma mset_ring_window: "mset (ring_window r) = mset (rb_buf r)"
  by (metis add.commute append_take_drop_id mset_append ring_window_def)

text \<open>The contract of a bounded sample window, and what its clients get from it.\<close>

locale sample_window =
  fixes invar :: "'r \<Rightarrow> bool"
    and push :: "'a \<Rightarrow> 'r \<Rightarrow> 'r"
    and samples :: "'r \<Rightarrow> 'a list"
    and cap :: "'r \<Rightarrow> nat"
  assumes invar_push: "invar r \<Longrightarrow> invar (push v r)"
    and cap_push: "cap (push v r) = cap r"
    and cap_pos: "invar r \<Longrightarrow> 0 < cap r"
    and samples_len: "invar r \<Longrightarrow> length (samples r) \<le> cap r"
    and samples_push: "invar r \<Longrightarrow> samples (push v r) =
      (if length (samples r) < cap r then samples r @ [v] else tl (samples r) @ [v])"
begin

lemma push_as_drop:
  assumes "invar r"
  shows "samples (push v r) = drop (Suc (length (samples r)) - cap r) (samples r @ [v])"
  using samples_push [OF assms, of v] samples_len [OF assms] cap_pos [OF assms]
  by (cases "samples r") (auto split: if_splits simp: Suc_diff_le)

lemma samples_pushes:
  assumes "invar r"
  shows "samples (foldl (\<lambda>r v. push v r) r vs)
      = drop (length (samples r) + length vs - cap r) (samples r @ vs)"
    and "invar (foldl (\<lambda>r v. push v r) r vs)"
    and "cap (foldl (\<lambda>r v. push v r) r vs) = cap r"
  using assms
proof (induction vs rule: rev_induct)
  case Nil
  { case 1 with samples_len [OF this] show ?case by simp }
  { case 2 then show ?case by simp }
  { case 3 show ?case by simp }
next
  case (snoc v vs)
  let ?q = "foldl (\<lambda>r v. push v r) r vs"
  { case 1
    note q = snoc.IH [OF 1]
    have len: "length (samples ?q) \<le> cap r" using samples_len [OF q(2)] q(3) by simp
    let ?n = "length (samples r) + length vs"
    have lq: "length (samples ?q) = ?n - (?n - cap r)" unfolding q(1) by simp
    have "samples (push v ?q) = drop (Suc (length (samples ?q)) - cap r)
        (drop (?n - cap r) (samples r @ vs @ [v]))"
      using push_as_drop [OF q(2), of v] q(1,3) by (simp add: drop_append)
    also have "\<dots> = drop (Suc ?n - cap r) (samples r @ vs @ [v])"
      using len unfolding drop_drop lq by (intro arg_cong2 [where f = drop]) auto
    finally show ?case by simp }
  { case 2 then show ?case using snoc.IH by (simp add: invar_push) }
  { case 3 then show ?case using snoc.IH by (simp add: cap_push) }
qed

text \<open>A full window of new samples evicts every old one.\<close>

lemma samples_evicted:
  assumes "invar r" and "cap r \<le> length vs"
  shows "samples (foldl (\<lambda>r v. push v r) r vs) = drop (length vs - cap r) vs"
  using samples_pushes(1) [OF assms(1), of vs] assms(2) by (simp add: drop_append)

end

interpretation ring: sample_window ring_inv ring_push ring_window rb_capacity
proof (unfold_locales, goal_cases)
  case (4 r)
  then show ?case by (auto simp: ring_window_def ring_inv_def)
qed (simp_all add: ring_inv_push ring_window_push, simp_all add: ring_inv_def)

section \<open>Fractions and percentiles\<close>

lemma count_foldl:
  "foldl (\<lambda>n v. n + (if P v then 1 else 0)) k xs = k + int (length (filter P xs))"
  by (induction xs arbitrary: k) auto

lemma ring_fraction_eq:
  "ring_fraction P r = (if rb_buf r = [] then 0
     else d_div (of_i64 (int (length (filter P (rb_buf r))))) (of_i64 (int (length (rb_buf r)))))"
  by (simp add: ring_fraction_def count_foldl)

lemma ring_fraction_bounds:
  assumes "length (rb_buf r) \<le> 2 ^ 53"
  shows "0 \<le> ring_fraction P r" and "ring_fraction P r \<le> 1"
proof -
  let ?n = "length (filter P (rb_buf r))" and ?m = "length (rb_buf r)"
  have le: "?n \<le> ?m" by (rule length_filter_le)
  have "?n \<le> 2 ^ 53" using le assms by (rule order_trans)
  then have ex: "of_i64 (int ?n) = of_nat ?n" "of_i64 (int ?m) = of_nat ?m"
    using assms of_i64_exact [of "int ?n"] of_i64_exact [of "int ?m"] by simp_all
  have "0 \<le> d_div (of_nat ?n) (of_nat ?m)" by (simp add: d_div_def dbl_nonneg)
  moreover have "d_div (of_nat ?n) (of_nat ?m) \<le> 1" if "?m \<noteq> 0"
    using dbl_mono [of "of_nat ?n / of_nat ?m" 1] that le by (simp add: d_div_def)
  ultimately show "0 \<le> ring_fraction P r" and "ring_fraction P r \<le> 1"
    by (auto simp: ring_fraction_eq ex)
qed

text \<open>The index arithmetic of \<^verbatim>\<open>percentile\<close> stays inside the sorted copy.\<close>

lemma percentile_index:
  assumes "0 < p" and "p < 1" and "0 < n" and "n \<le> 2 ^ 53"
  shows "0 \<le> d_mul p (of_i64 (int (n - 1)))" and "d_mul p (of_i64 (int (n - 1))) \<le> of_nat (n - 1)"
    and "nat (to_i64 (d_mul p (of_i64 (int (n - 1))))) \<le> n - 1"
proof -
  have ex: "of_i64 (int (n - 1)) = of_nat (n - 1)" using assms by (simp add: of_i64_exact)
  show ge: "0 \<le> d_mul p (of_i64 (int (n - 1)))"
    using assms unfolding ex by (simp add: d_mul_def dbl_nonneg)
  have "p * of_nat (n - 1) \<le> 1 * of_nat (n - 1)" using assms by (intro mult_right_mono) auto
  then have "dbl (p * of_nat (n - 1)) \<le> dbl (of_int (int (n - 1)))" by (intro dbl_mono) simp
  also have "\<dots> = of_nat (n - 1)" using ex by (simp add: of_i64_def)
  finally show le: "d_mul p (of_i64 (int (n - 1))) \<le> of_nat (n - 1)"
    unfolding ex by (simp add: d_mul_def)
  have "to_i64 (d_mul p (of_i64 (int (n - 1)))) \<le> int (n - 1)"
    using le by (intro to_i64_le) simp
  then show "nat (to_i64 (d_mul p (of_i64 (int (n - 1))))) \<le> n - 1" by simp
qed

text \<open>A linear interpolation between two integers stays between them.\<close>

lemma interpolate_between:
  assumes "a \<le> b" and "\<bar>a\<bar> \<le> 2 ^ 53" and "\<bar>b\<bar> \<le> 2 ^ 53" and "b - a \<le> 2 ^ 53"
    and "0 \<le> fr" and "fr \<le> 1"
  shows "a \<le> to_i64 (d_add (of_i64 a) (d_mul (of_i64 (b - a)) fr))"
    and "to_i64 (d_add (of_i64 a) (d_mul (of_i64 (b - a)) fr)) \<le> b"
proof -
  have ea: "of_i64 a = of_int a" using assms(2) by (rule of_i64_exact)
  have ed: "of_i64 (b - a) = of_int (b - a)" using assms(1,4) by (intro of_i64_exact) simp
  have "0 \<le> d_mul (of_int (b - a)) fr" using assms by (simp add: d_mul_def dbl_nonneg)
  moreover have "d_mul (of_int (b - a)) fr \<le> of_int (b - a)"
  proof -
    have "of_int (b - a) * fr \<le> of_int (b - a) * 1" using assms by (intro mult_left_mono) auto
    then show ?thesis using dbl_mono ed unfolding d_mul_def of_i64_def by fastforce
  qed
  ultimately have "of_int a \<le> of_int a + d_mul (of_int (b - a)) fr"
    and "of_int a + d_mul (of_int (b - a)) fr \<le> of_int b" by simp_all
  from this [THEN dbl_mono]
  have "of_int a \<le> d_add (of_int a) (d_mul (of_int (b - a)) fr)"
    and "d_add (of_int a) (d_mul (of_int (b - a)) fr) \<le> of_int b"
    using of_i64_exact [OF assms(2)] of_i64_exact [OF assms(3)]
    by (simp_all add: d_add_def of_i64_def)
  then show "a \<le> to_i64 (d_add (of_i64 a) (d_mul (of_i64 (b - a)) fr))"
    and "to_i64 (d_add (of_i64 a) (d_mul (of_i64 (b - a)) fr)) \<le> b"
    unfolding ea ed by (simp_all add: to_i64_ge to_i64_le)
qed

lemma frac_bounds:
  assumes "0 \<le> idx" and "to_i64 idx \<le> 2 ^ 53"
  shows "0 \<le> d_sub idx (of_i64 (int (nat (to_i64 idx))))"
    and "d_sub idx (of_i64 (int (nat (to_i64 idx)))) \<le> 1"
proof -
  have f: "to_i64 idx = \<lfloor>idx\<rfloor>" "0 \<le> \<lfloor>idx\<rfloor>" using assms by (simp_all add: to_i64_def)
  then have ex: "of_i64 (int (nat (to_i64 idx))) = of_int \<lfloor>idx\<rfloor>"
    using assms by (simp add: of_i64_exact)
  have "0 \<le> idx - of_int \<lfloor>idx\<rfloor>" "idx - of_int \<lfloor>idx\<rfloor> \<le> 1" by linarith+
  then show "0 \<le> d_sub idx (of_i64 (int (nat (to_i64 idx))))"
    and "d_sub idx (of_i64 (int (nat (to_i64 idx)))) \<le> 1"
    unfolding ex d_sub_def using dbl_nonneg dbl_mono [of _ 1] by auto
qed

lemma percentile_between:
  fixes r :: "int RingBuffer"
  assumes "rb_buf r \<noteq> []" and "length (rb_buf r) \<le> 2 ^ 53"
    and "\<And>x. x \<in> set (rb_buf r) \<Longrightarrow> \<bar>x\<bar> \<le> 2 ^ 52"
  shows "Min (set (rb_buf r)) \<le> ring_percentile p r"
    and "ring_percentile p r \<le> Max (set (rb_buf r))"
proof -
  define s where "s = sort (rb_buf r)"
  have s: "s \<noteq> []" "set s = set (rb_buf r)" "sorted s" "length s = length (rb_buf r)"
    using assms(1) by (auto simp: s_def) (metis length_0_conv length_sort)
  have mem: "Min (set (rb_buf r)) \<le> s ! i \<and> s ! i \<le> Max (set (rb_buf r))" if "i < length s" for i
    using that s(2) by (metis List.finite_set Max_ge Min_le nth_mem)
  have "Min (set (rb_buf r)) \<le> ring_percentile p r \<and> ring_percentile p r \<le> Max (set (rb_buf r))"
  proof (cases "p \<le> 0 \<or> p \<ge> 1")
    case True
    then have "ring_percentile p r = s ! 0 \<or> ring_percentile p r = s ! (length s - 1)"
      using s assms(1) by (auto simp: ring_percentile_def s_def [symmetric] hd_conv_nth last_conv_nth)
    moreover have "0 < length s" using s(1) by simp
    ultimately show ?thesis using mem [of 0] mem [of "length s - 1"] by (auto simp: Suc_le_eq)
  next
    case False
    then have p: "0 < p" "p < 1" by auto
    define idx where "idx = d_mul p (of_i64 (int (length s - 1)))"
    define lo where "lo = nat (to_i64 idx)"
    define hi where "hi = min (lo + 1) (length s - 1)"
    have n: "0 < length s" "length s \<le> 2 ^ 53" using s assms(2) by auto
    note pi = percentile_index [OF p n, folded idx_def, folded lo_def]
    have lo: "lo < length s" and hi: "hi < length s" "lo \<le> hi"
      using pi(3) n(1) by (simp_all add: hi_def less_eq_Suc_le)
    have le: "s ! lo \<le> s ! hi" using s(3) lo hi by (simp add: sorted_nth_mono)
    have b: "\<bar>s ! i\<bar> \<le> 2 ^ 52" if "i < length s" for i using assms(3) s(2) nth_mem [OF that] by simp
    have "to_i64 idx \<le> 2 ^ 53" using pi(1,3) n to_i64_nonneg [OF pi(1)] by (simp add: lo_def)
    note fb = frac_bounds [OF pi(1) this, folded lo_def]
    have eq: "ring_percentile p r
        = to_i64 (d_add (of_i64 (s ! lo)) (d_mul (of_i64 (s ! hi - s ! lo)) (d_sub idx (of_i64 (int lo)))))"
      using assms(1) False by (simp add: ring_percentile_def s_def [symmetric] Let_def idx_def lo_def hi_def)
    have "s ! lo \<le> ring_percentile p r \<and> ring_percentile p r \<le> s ! hi"
      unfolding eq using interpolate_between [OF le _ _ _ fb] b [OF lo] b [OF hi(1)] by simp
    then show ?thesis using mem [OF lo] mem [OF hi(1)] by linarith
  qed
  then show "Min (set (rb_buf r)) \<le> ring_percentile p r"
    and "ring_percentile p r \<le> Max (set (rb_buf r))" by auto
qed

section \<open>Properties\<close>

text \<open>the ring is a sliding window. After any number of pushes into a fresh ring it holds exactly
  the most recent samples, at most its capacity of them, in order of arrival.\<close>

theorem ring_is_sliding_window:
  assumes "0 < cap"
  shows "ring_window (foldl (\<lambda>r v. ring_push v r) (ring_new cap) vs) = drop (length vs - cap) vs"
  using ring.samples_pushes(1) [OF ring_inv_new [OF assms], of vs]
  by (simp add: ring_window_def ring_new_def)

theorem ring_is_sliding_window_witness:
  "ring_window (foldl (\<lambda>r v. ring_push v r) (ring_new 3) [1, 2, 3, 4, 5 :: int]) = [3, 4, 5]"
  using ring_is_sliding_window [of 3 "[1, 2, 3, 4, 5 :: int]"] by simp

end
