(* ===== verification/Health.thy ===== *)
theory Health
  imports RingBuffer Domain
begin

text \<open>
  \<^verbatim>\<open>include/oms/Health.h\<close>, \<^verbatim>\<open>src/Health.cpp\<close>: the circuit-breaker health model. The injected
  clock is \<open>hm_clock\<close>, the value \<^verbatim>\<open>clock_()\<close> returns now; the environment moves it between
  calls. A handler for an unregistered venue fails the assertion of \<^verbatim>\<open>must_get\<close>.
\<close>

datatype HealthState = Healthy | Degraded | Down | Probing
datatype TripReason = NoTrip | Connectivity | RejectionRate | AckLatency

record HealthScore =
  sc_state :: HealthState
  sc_weight :: double
  sc_reason :: TripReason

record HealthConfig =
  heartbeat_tolerance_ns :: Timestamp
  reject_window :: nat
  reject_min_samples :: nat
  reject_high :: double
  reject_low :: double
  latency_window :: nat
  latency_high_ns :: LatencyNs
  latency_low_ns :: LatencyNs
  degrade_dwell_ns :: Timestamp
  down_dwell_ns :: Timestamp
  probe_required :: int
  probe_weight :: double
  degraded_weight :: double

definition default_health_config :: HealthConfig where
  "default_health_config = \<lparr>heartbeat_tolerance_ns = 5000000000, reject_window = 128,
     reject_min_samples = 20, reject_high = dbl (20 / 100), reject_low = dbl (10 / 100),
     latency_window = 128, latency_high_ns = 5000000, latency_low_ns = 2000000,
     degrade_dwell_ns = 1000000000, down_dwell_ns = 2000000000, probe_required = 5,
     probe_weight = dbl (25 / 100), degraded_weight = dbl (50 / 100)\<rparr>"

record VenueState =
  vs_connected :: bool
  vs_last_seen :: Timestamp
  vs_rejects :: "u8 RingBuffer"
  vs_latencies :: "int RingBuffer"
  vs_state :: HealthState
  vs_reason :: TripReason
  vs_degraded_since :: Timestamp
  vs_good_since :: Timestamp
  vs_probe_success :: int
  vs_trips :: u64
  vs_unresolved :: u64

definition new_venue_state :: "HealthConfig \<Rightarrow> VenueState" where
  "new_venue_state c = \<lparr>vs_connected = True, vs_last_seen = 0,
     vs_rejects = ring_new (reject_window c), vs_latencies = ring_new (latency_window c),
     vs_state = Healthy, vs_reason = NoTrip, vs_degraded_since = 0, vs_good_since = 0,
     vs_probe_success = 0, vs_trips = 0, vs_unresolved = 0\<rparr>"

record Conditions =
  any_high :: bool
  all_low :: bool
  cond_reason :: TripReason

record HealthModel =
  hm_cfg :: HealthConfig
  hm_log :: log_sink
  hm_clock :: Timestamp
  hm_venues :: "VenueId \<rightharpoonup> VenueState"

definition health_new :: "HealthConfig \<Rightarrow> log_sink \<Rightarrow> Timestamp \<Rightarrow> HealthModel" where
  "health_new cfg sink now = \<lparr>hm_cfg = cfg, hm_log = sink, hm_clock = now, hm_venues = Map.empty\<rparr>"

definition register_venue :: "VenueId \<Rightarrow> HealthModel \<Rightarrow> HealthModel" where
  "register_venue v h =
     (case hm_venues h v of
        None \<Rightarrow> h\<lparr>hm_venues := (hm_venues h)
                  (v \<mapsto> (new_venue_state (hm_cfg h))\<lparr>vs_last_seen := hm_clock h\<rparr>)\<rparr>
      | Some _ \<Rightarrow> h)"

definition must_get :: "VenueId \<Rightarrow> HealthModel \<Rightarrow> VenueState result" where
  "must_get v h = (case hm_venues h v of None \<Rightarrow> Inl VenueNotRegistered | Some st \<Rightarrow> Inr st)"

section \<open>Assessment and the state machine\<close>

definition assess :: "HealthConfig \<Rightarrow> VenueState \<Rightarrow> Timestamp \<Rightarrow> Conditions" where
  "assess cfg v now =
     (let conn_bad = (\<not> vs_connected v \<or> now - vs_last_seen v > heartbeat_tolerance_ns cfg);
          enough = (ring_size (vs_rejects v) \<ge> reject_min_samples cfg);
          rej = ring_fraction (\<lambda>x. x = 1) (vs_rejects v);
          rej_high = (enough \<and> rej > reject_high cfg);
          rej_low = (\<not> enough \<or> rej < reject_low cfg);
          have_lat = (\<not> ring_empty (vs_latencies v));
          p99 = ring_percentile (dbl (99 / 100)) (vs_latencies v);
          lat_high = (have_lat \<and> p99 > latency_high_ns cfg);
          lat_low = (\<not> have_lat \<or> p99 < latency_low_ns cfg)
      in \<lparr>any_high = (conn_bad \<or> rej_high \<or> lat_high),
          all_low = (\<not> conn_bad \<and> rej_low \<and> lat_low),
          cond_reason = (if conn_bad then Connectivity else if rej_high then RejectionRate
                         else if lat_high then AckLatency else NoTrip)\<rparr>)"

definition dec_unresolved :: "VenueState \<Rightarrow> VenueState" where
  "dec_unresolved v = (if vs_unresolved v > 0 then v\<lparr>vs_unresolved := vs_unresolved v - 1\<rparr> else v)"

definition eval_venue :: "HealthConfig \<Rightarrow> VenueState \<Rightarrow> Timestamp \<Rightarrow> VenueState" where
  "eval_venue cfg v now =
     (let c = assess cfg v now in
      case vs_state v of
        Healthy \<Rightarrow>
          if any_high c
          then v\<lparr>vs_state := Degraded, vs_degraded_since := now, vs_reason := cond_reason c,
                 vs_trips := vs_trips v + 1, vs_unresolved := vs_unresolved v + 1\<rparr>
          else v
      | Degraded \<Rightarrow>
          if all_low c
          then dec_unresolved (v\<lparr>vs_state := Healthy, vs_reason := NoTrip\<rparr>)
          else if any_high c \<and> now - vs_degraded_since v \<ge> degrade_dwell_ns cfg
          then v\<lparr>vs_state := Down, vs_reason := cond_reason c, vs_good_since := 0\<rparr>
          else v
      | Down \<Rightarrow>
          if all_low c
          then (if vs_good_since v = 0 then v\<lparr>vs_good_since := now\<rparr>
                else if now - vs_good_since v \<ge> down_dwell_ns cfg
                then v\<lparr>vs_state := Probing, vs_probe_success := 0\<rparr>
                else v)
          else v\<lparr>vs_good_since := 0\<rparr>
      | Probing \<Rightarrow>
          if any_high c
          then v\<lparr>vs_state := Down, vs_reason := cond_reason c, vs_good_since := 0\<rparr>
          else if vs_probe_success v \<ge> probe_required cfg
          then dec_unresolved (v\<lparr>vs_state := Healthy, vs_reason := NoTrip\<rparr>)
          else v)"

fun name_health_state :: "HealthState \<Rightarrow> string" where
  "name_health_state Healthy = ''Healthy''"
| "name_health_state Degraded = ''Degraded''"
| "name_health_state Down = ''Down''"
| "name_health_state Probing = ''Probing''"

fun name_trip_reason :: "TripReason \<Rightarrow> string" where
  "name_trip_reason NoTrip = ''None''"
| "name_trip_reason Connectivity = ''Connectivity''"
| "name_trip_reason RejectionRate = ''RejectionRate''"
| "name_trip_reason AckLatency = ''AckLatency''"

definition transition_line :: "VenueId \<Rightarrow> HealthState \<Rightarrow> VenueState \<Rightarrow> string" where
  "transition_line i prev v =
     ''health venue='' @ to_string (uint i) @ '' '' @ name_health_state prev @ ''->''
     @ name_health_state (vs_state v) @ '' reason='' @ name_trip_reason (vs_reason v)
     @ '' trips='' @ to_string (uint (vs_trips v))
     @ '' unresolved='' @ to_string (uint (vs_unresolved v))"

text \<open>\<^verbatim>\<open>evaluate(id, v, now)\<close>, where \<^verbatim>\<open>v\<close> is a reference into the map.\<close>

definition evaluate :: "VenueId \<Rightarrow> VenueState \<Rightarrow> Timestamp \<Rightarrow> HealthModel \<Rightarrow> HealthModel" where
  "evaluate i v now h =
     (let v' = eval_venue (hm_cfg h) v now;
          h' = h\<lparr>hm_venues := (hm_venues h)(i \<mapsto> v')\<rparr>
      in if vs_state v' \<noteq> vs_state v
         then h'\<lparr>hm_log := log_line (if vs_state v' = Healthy then Info else Warn)
                            (transition_line i (vs_state v) v') (hm_log h')\<rparr>
         else h')"

section \<open>Event handlers\<close>

definition health_on_order_sent :: "VenueId \<Rightarrow> Timestamp \<Rightarrow> HealthModel \<Rightarrow> HealthModel result" where
  "health_on_order_sent v ts h = ebind (must_get v h) (\<lambda>st.
     Inr (evaluate v (st\<lparr>vs_last_seen := ts\<rparr>) (hm_clock h) h))"

definition health_on_ack :: "VenueId \<Rightarrow> LatencyNs \<Rightarrow> HealthModel \<Rightarrow> HealthModel result" where
  "health_on_ack v lat h = ebind (must_get v h) (\<lambda>st.
     let now = hm_clock h;
         st1 = st\<lparr>vs_last_seen := now, vs_latencies := ring_push lat (vs_latencies st),
                  vs_rejects := ring_push 0 (vs_rejects st)\<rparr>;
         st2 = (if vs_state st1 = Probing \<and> lat \<le> latency_high_ns (hm_cfg h)
                then st1\<lparr>vs_probe_success := vs_probe_success st1 + 1\<rparr> else st1)
     in Inr (evaluate v st2 now h))"

definition health_on_reject :: "VenueId \<Rightarrow> bool \<Rightarrow> HealthModel \<Rightarrow> HealthModel result" where
  "health_on_reject v is_false_cancel_reject h = ebind (must_get v h) (\<lambda>st.
     let now = hm_clock h;
         st1 = st\<lparr>vs_last_seen := now\<rparr>;
         st2 = (if \<not> is_false_cancel_reject
                then st1\<lparr>vs_rejects := ring_push 1 (vs_rejects st1)\<rparr> else st1)
     in Inr (evaluate v st2 now h))"

definition health_on_fill :: "VenueId \<Rightarrow> HealthModel \<Rightarrow> HealthModel result" where
  "health_on_fill v h = ebind (must_get v h) (\<lambda>st.
     Inr (evaluate v (st\<lparr>vs_last_seen := hm_clock h\<rparr>) (hm_clock h) h))"

definition health_on_timeout :: "VenueId \<Rightarrow> HealthModel \<Rightarrow> HealthModel result" where
  "health_on_timeout v h = ebind (must_get v h) (\<lambda>st.
     Inr (evaluate v (st\<lparr>vs_rejects := ring_push 1 (vs_rejects st)\<rparr>) (hm_clock h) h))"

definition health_on_disconnect :: "VenueId \<Rightarrow> HealthModel \<Rightarrow> HealthModel result" where
  "health_on_disconnect v h = ebind (must_get v h) (\<lambda>st.
     Inr (evaluate v (st\<lparr>vs_connected := False\<rparr>) (hm_clock h) h))"

definition health_on_reconnect :: "VenueId \<Rightarrow> HealthModel \<Rightarrow> HealthModel result" where
  "health_on_reconnect v h = ebind (must_get v h) (\<lambda>st.
     Inr (evaluate v (st\<lparr>vs_connected := True, vs_last_seen := hm_clock h\<rparr>) (hm_clock h) h))"

text \<open>
  \<^verbatim>\<open>tick\<close> visits every venue of the unordered map; \<open>order\<close> is the map's iteration order,
  which decides nothing but the order of the log lines.
\<close>

definition health_tick :: "VenueId list \<Rightarrow> Timestamp \<Rightarrow> HealthModel \<Rightarrow> HealthModel" where
  "health_tick order now h =
     foldl (\<lambda>h i. case hm_venues h i of None \<Rightarrow> h | Some st \<Rightarrow> evaluate i st now h) h order"

definition state_weight :: "HealthConfig \<Rightarrow> HealthState \<Rightarrow> double" where
  "state_weight cfg s = (case s of Healthy \<Rightarrow> 1 | Degraded \<Rightarrow> degraded_weight cfg
     | Probing \<Rightarrow> probe_weight cfg | Down \<Rightarrow> 0)"

definition health_score :: "VenueId \<Rightarrow> HealthModel \<Rightarrow> HealthScore result" where
  "health_score v h = ebind (must_get v h) (\<lambda>st.
     Inr \<lparr>sc_state = vs_state st, sc_weight = state_weight (hm_cfg h) (vs_state st),
          sc_reason = vs_reason st\<rparr>)"

definition is_tradeable :: "VenueId \<Rightarrow> HealthModel \<Rightarrow> bool result" where
  "is_tradeable v h = ebind (must_get v h) (\<lambda>st. Inr (vs_state st \<noteq> Down))"

definition health_state :: "VenueId \<Rightarrow> HealthModel \<Rightarrow> HealthState result" where
  "health_state v h = ebind (must_get v h) (\<lambda>st. Inr (vs_state st))"

definition health_trips :: "VenueId \<Rightarrow> HealthModel \<Rightarrow> u64 result" where
  "health_trips v h = ebind (must_get v h) (\<lambda>st. Inr (vs_trips st))"

definition health_unresolved :: "VenueId \<Rightarrow> HealthModel \<Rightarrow> u64 result" where
  "health_unresolved v h = ebind (must_get v h) (\<lambda>st. Inr (vs_unresolved st))"

end
