(* ===== verification/Router.thy ===== *)
theory Router
  imports Health
begin

text \<open>
  \<^verbatim>\<open>include/oms/Router.h\<close>, \<^verbatim>\<open>src/Router.cpp\<close>: routing to the healthiest tradeable venue.
  \<^verbatim>\<open>select\<close> sees the health model only through \<^verbatim>\<open>is_tradeable\<close> and \<^verbatim>\<open>score\<close>, the two
  function arguments of \<open>select_loop\<close>; it ignores the instrument, side and quantity.
\<close>

fun select_loop ::
  "(VenueId \<Rightarrow> bool result) \<Rightarrow> (VenueId \<Rightarrow> double result) \<Rightarrow> VenueId list
     \<Rightarrow> VenueId option \<Rightarrow> double \<Rightarrow> VenueId option result" where
  "select_loop tradeable weight [] best best_weight = Inr best"
| "select_loop tradeable weight (v # vs) best best_weight =
     ebind (tradeable v) (\<lambda>t.
       if \<not> t then select_loop tradeable weight vs best best_weight
       else ebind (weight v) (\<lambda>w.
         if best = None \<or> w > best_weight
         then select_loop tradeable weight vs (Some v) w
         else select_loop tradeable weight vs best best_weight))"

definition router_select ::
  "VenueId list \<Rightarrow> HealthModel \<Rightarrow> InstrumentId \<Rightarrow> Side \<Rightarrow> Quantity \<Rightarrow> VenueId option result" where
  "router_select venues h inst sd qty =
     select_loop (\<lambda>v. is_tradeable v h)
       (\<lambda>v. ebind (health_score v h) (\<lambda>s. Inr (sc_weight s))) venues None 0"

section \<open>What a router needs of a health model, and what it then guarantees\<close>

locale venue_health =
  fixes registered :: "'h \<Rightarrow> VenueId set"
    and tradeable :: "VenueId \<Rightarrow> 'h \<Rightarrow> bool result"
    and weight :: "VenueId \<Rightarrow> 'h \<Rightarrow> double result"
    and up :: "'h \<Rightarrow> VenueId \<Rightarrow> bool"
    and wt :: "'h \<Rightarrow> VenueId \<Rightarrow> double"
  assumes tradeable_ok: "v \<in> registered h \<Longrightarrow> tradeable v h = Inr (up h v)"
    and weight_ok: "v \<in> registered h \<Longrightarrow> weight v h = Inr (wt h v)"
begin

text \<open>\<open>best_of h vs v\<close>: \<open>v\<close> is the first tradeable venue of maximal weight in \<open>vs\<close>.\<close>

definition best_of :: "'h \<Rightarrow> VenueId list \<Rightarrow> VenueId \<Rightarrow> bool" where
  "best_of h vs v \<longleftrightarrow> (\<exists>pre post. vs = pre @ v # post \<and> up h v
      \<and> (\<forall>u \<in> set pre. up h u \<longrightarrow> wt h u < wt h v)
      \<and> (\<forall>u \<in> set post. up h u \<longrightarrow> wt h u \<le> wt h v))"

definition select_ok :: "'h \<Rightarrow> VenueId list \<Rightarrow> VenueId option \<Rightarrow> bool" where
  "select_ok h vs r \<longleftrightarrow> (case r of None \<Rightarrow> \<forall>u \<in> set vs. \<not> up h u | Some b \<Rightarrow> best_of h vs b)"

lemma best_of_snoc:
  "best_of h vs b \<Longrightarrow> (up h v \<longrightarrow> wt h v \<le> wt h b) \<Longrightarrow> best_of h (vs @ [v]) b"
  by (fastforce simp: best_of_def)

lemma best_of_replace:
  assumes "best_of h vs b" and "up h v" and "wt h b < wt h v"
  shows "best_of h (vs @ [v]) v"
proof -
  from assms(1) have "\<forall>u \<in> set vs. up h u \<longrightarrow> wt h u \<le> wt h b"
    by (fastforce simp: best_of_def)
  with assms(2,3) have "vs @ [v] = vs @ v # [] \<and> up h v
      \<and> (\<forall>u \<in> set vs. up h u \<longrightarrow> wt h u < wt h v) \<and> (\<forall>u \<in> set []. up h u \<longrightarrow> wt h u \<le> wt h v)"
    by force
  then show ?thesis unfolding best_of_def by blast
qed

lemma best_of_first:
  "\<forall>u \<in> set vs. \<not> up h u \<Longrightarrow> up h v \<Longrightarrow> best_of h (vs @ [v]) v"
  unfolding best_of_def by (rule exI [of _ vs], rule exI [of _ "[]"]) auto

lemma select_loop_spec:
  assumes "set vs \<subseteq> registered h"
    and "select_ok h seen best" and "\<And>b. best = Some b \<Longrightarrow> bw = wt h b"
  shows "\<exists>r. select_loop (\<lambda>v. tradeable v h) (\<lambda>v. weight v h) vs best bw = Inr r
    \<and> select_ok h (seen @ vs) r"
  using assms
proof (induction vs arbitrary: seen best bw)
  case Nil
  then show ?case by simp
next
  case (Cons v vs)
  have t: "tradeable v h = Inr (up h v)" and w: "weight v h = Inr (wt h v)"
    using Cons.prems(1) by (simp_all add: tradeable_ok weight_ok)
  have reg: "set vs \<subseteq> registered h" using Cons.prems(1) by simp
  show ?case
  proof (cases best)
    case None
    with Cons.prems(2) have "\<forall>u \<in> set seen. \<not> up h u" by (simp add: select_ok_def)
    then have none: "\<not> up h v \<Longrightarrow> select_ok h (seen @ [v]) None"
      and some: "up h v \<Longrightarrow> select_ok h (seen @ [v]) (Some v)"
      using best_of_first [of seen h v] by (simp_all add: select_ok_def)
    show ?thesis
    proof (cases "up h v")
      case True
      with Cons.IH [OF reg some] t w None show ?thesis by simp
    next
      case False
      with Cons.IH [OF reg none] t w None show ?thesis by simp
    qed
  next
    case (Some b)
    with Cons.prems(2,3) have b: "best_of h seen b" "bw = wt h b" by (simp_all add: select_ok_def)
    show ?thesis
    proof (cases "up h v \<and> wt h b < wt h v")
      case True
      with best_of_replace [OF b(1)] have "select_ok h (seen @ [v]) (Some v)"
        by (simp add: select_ok_def)
      from Cons.IH [OF reg this, of "wt h v"] True t w Some b show ?thesis by simp
    next
      case False
      then have "select_ok h (seen @ [v]) (Some b)"
        using best_of_snoc [OF b(1)] by (force simp: select_ok_def)
      from Cons.IH [OF reg this, of bw] False t w Some b show ?thesis by (cases "up h v") simp_all
    qed
  qed
qed

lemma select_spec:
  assumes "set vs \<subseteq> registered h"
  shows "\<exists>r. select_loop (\<lambda>v. tradeable v h) (\<lambda>v. weight v h) vs None 0 = Inr r
    \<and> select_ok h vs r"
  using select_loop_spec [OF assms, where best = None and seen = "[]" and bw = 0] by (simp add: select_ok_def [of h "[]"])

end

definition hm_registered :: "HealthModel \<Rightarrow> VenueId set" where
  "hm_registered h = dom (hm_venues h)"

definition venue_up :: "HealthModel \<Rightarrow> VenueId \<Rightarrow> bool" where
  "venue_up h v = (case hm_venues h v of None \<Rightarrow> False | Some st \<Rightarrow> vs_state st \<noteq> Down)"

definition venue_weight :: "HealthModel \<Rightarrow> VenueId \<Rightarrow> double" where
  "venue_weight h v =
     (case hm_venues h v of None \<Rightarrow> 0 | Some st \<Rightarrow> state_weight (hm_cfg h) (vs_state st))"

interpretation breaker: venue_health hm_registered is_tradeable
  "\<lambda>v h. ebind (health_score v h) (\<lambda>s. Inr (sc_weight s))" venue_up venue_weight
  by unfold_locales
    (auto simp: hm_registered_def is_tradeable_def health_score_def must_get_def venue_up_def
      venue_weight_def split: option.splits)

lemma router_select_total:
  assumes "set venues \<subseteq> hm_registered h"
  obtains r where "router_select venues h inst sd qty = Inr r"
    and "breaker.select_ok h venues r"
  using breaker.select_spec [OF assms] by (auto simp: router_select_def)

lemma router_select_mem:
  assumes "router_select venues h inst sd qty = Inr (Some v)" and "set venues \<subseteq> hm_registered h"
  shows "v \<in> set venues" and "venue_up h v"
proof -
  obtain r where "router_select venues h inst sd qty = Inr r"
    and "breaker.select_ok h venues r"
    using router_select_total [OF assms(2)] by blast
  with assms(1) have "breaker.best_of h venues v" by (simp add: breaker.select_ok_def)
  then show "v \<in> set venues" and "venue_up h v" by (auto simp: breaker.best_of_def)
qed

section \<open>Properties\<close>

text \<open>C26: the router returns a tradeable venue of maximal weight, the lowest venue id among
  equals when the venues are listed in ascending order, and none exactly when every venue is
  down; it never fails when every routed venue is registered.\<close>

theorem router_picks_best:
  assumes "set venues \<subseteq> hm_registered h" and "sorted_wrt (<) venues"
  shows "(\<exists>v \<in> set venues. router_select venues h inst sd qty = Inr (Some v) \<and> venue_up h v
            \<and> (\<forall>u \<in> set venues. venue_up h u \<longrightarrow> venue_weight h u \<le> venue_weight h v)
            \<and> (\<forall>u \<in> set venues. venue_up h u \<and> venue_weight h u = venue_weight h v \<longrightarrow> v \<le> u))
       \<or> router_select venues h inst sd qty = Inr None \<and> (\<forall>u \<in> set venues. \<not> venue_up h u)"
proof -
  obtain r where r: "router_select venues h inst sd qty = Inr r"
    and spec: "breaker.select_ok h venues r"
    using router_select_total [OF assms(1)] by blast
  show ?thesis
  proof (cases r)
    case None
    with r spec show ?thesis by (simp add: breaker.select_ok_def)
  next
    case (Some v)
    with spec obtain pre post where s: "venues = pre @ v # post" "venue_up h v"
        "\<forall>u \<in> set pre. venue_up h u \<longrightarrow> venue_weight h u < venue_weight h v"
        "\<forall>u \<in> set post. venue_up h u \<longrightarrow> venue_weight h u \<le> venue_weight h v"
      by (auto simp: breaker.best_of_def breaker.select_ok_def)
    have "\<forall>u \<in> set venues. venue_up h u \<longrightarrow> venue_weight h u \<le> venue_weight h v"
      using s by (auto simp: less_imp_le)
    moreover have "\<forall>u \<in> set venues. venue_up h u \<and> venue_weight h u = venue_weight h v \<longrightarrow> v \<le> u"
      using s assms(2) by (auto simp: sorted_wrt_append less_imp_le)
    ultimately show ?thesis using r Some s(1,2) by auto
  qed
qed

theorem router_picks_best_witness:
  "\<exists>r. router_select [1, 2] ((health_new default_health_config None 0)\<lparr>hm_venues :=
       [1 \<mapsto> new_venue_state default_health_config, 2 \<mapsto> new_venue_state default_health_config]\<rparr>) 7 Buy 10 = Inr r"
  using router_picks_best [of "[1, 2]" "(health_new default_health_config None 0)\<lparr>hm_venues :=
       [1 \<mapsto> new_venue_state default_health_config, 2 \<mapsto> new_venue_state default_health_config]\<rparr>" 7 Buy 10]
  by (auto simp: hm_registered_def)

end
