(* ===== verification/Exchange.thy ===== *)
theory Exchange
  imports Domain
begin

text \<open>
  \<^verbatim>\<open>include/oms/ExchangeClient.h\<close>, \<^verbatim>\<open>include/oms/ExchangeRegistry.h\<close>,
  \<^verbatim>\<open>src/ExchangeRegistry.cpp\<close>. The abstract class \<^verbatim>\<open>ExchangeClient\<close> is a record of the
  operations its callers use, over a type \<open>'e\<close> of client states; the simulated exchange
  instantiates it. The registry is the vector of client pointers indexed by venue id,
  \<open>None\<close> for a null pointer.
\<close>

record 'e ExchangeClient =
  ec_venue_id :: "'e \<Rightarrow> VenueId"
  ec_place_order :: "Order \<Rightarrow> 'e \<Rightarrow> SendResult \<times> 'e"
  ec_cancel_order :: "OrderIdRaw \<Rightarrow> ExchangeOrderId \<Rightarrow> 'e \<Rightarrow> SendResult \<times> 'e"
  ec_get_positions :: "'e \<Rightarrow> (InstrumentId \<rightharpoonup> Quantity)"
  ec_get_order_book :: "InstrumentId \<Rightarrow> 'e \<Rightarrow> TopOfBook"
  ec_is_connected :: "'e \<Rightarrow> bool"
  ec_supports_mass_cancel :: bool
  ec_mass_cancel :: "InstrumentId \<Rightarrow> 'e \<Rightarrow> SendResult \<times> 'e"

text \<open>The capability defaults of the base class.\<close>

definition default_supports_mass_cancel :: bool where
  "default_supports_mass_cancel = False"

definition default_mass_cancel :: "InstrumentId \<Rightarrow> 'e \<Rightarrow> SendResult \<times> 'e" where
  "default_mass_cancel inst ex = (RejectedLocally, ex)"

record ExchangeConfig =
  cfg_venue_id :: VenueId
  cfg_seed :: u64

type_synonym 'e factory_table = "string \<rightharpoonup> (ExchangeConfig \<Rightarrow> 'e option)"

record 'e ExchangeRegistry =
  by_venue :: "'e option list"
  reg_count :: nat

definition registry_new :: "'e ExchangeRegistry" where
  "registry_new = \<lparr>by_venue = [], reg_count = 0\<rparr>"

definition registry_add ::
  "'e ExchangeClient \<Rightarrow> 'e option \<Rightarrow> 'e ExchangeRegistry \<Rightarrow> 'e ExchangeRegistry result" where
  "registry_add ops client r =
     (case client of
        None \<Rightarrow> Inl NullClient
      | Some c \<Rightarrow>
          let v = unat (ec_venue_id ops c);
              vec = (if length (by_venue r) \<le> v
                     then by_venue r @ replicate (v + 1 - length (by_venue r)) None
                     else by_venue r)
          in if vec ! v \<noteq> None then Inl VenueTaken
             else Inr \<lparr>by_venue = vec[v := Some c], reg_count = reg_count r + 1\<rparr>)"

definition registry_get :: "'e ExchangeRegistry \<Rightarrow> VenueId \<Rightarrow> 'e option" where
  "registry_get r v =
     (if unat v \<ge> length (by_venue r) then None else by_venue r ! unat v)"

text \<open>A call through the pointer \<^verbatim>\<open>registry_.get(v)\<close> leaves the client in a new state.\<close>

definition registry_put :: "VenueId \<Rightarrow> 'e \<Rightarrow> 'e ExchangeRegistry \<Rightarrow> 'e ExchangeRegistry" where
  "registry_put v ex r = r\<lparr>by_venue := (by_venue r)[unat v := Some ex]\<rparr>"

definition registry_venues :: "'e ExchangeRegistry \<Rightarrow> VenueId list" where
  "registry_venues r =
     map word_of_nat (filter (\<lambda>i. by_venue r ! i \<noteq> None) [0..<length (by_venue r)])"

definition register_factory ::
  "string \<Rightarrow> (ExchangeConfig \<Rightarrow> 'e option) \<Rightarrow> 'e factory_table \<Rightarrow> 'e factory_table" where
  "register_factory nm fn table = table(nm \<mapsto> fn)"

definition factory_create :: "string \<Rightarrow> ExchangeConfig \<Rightarrow> 'e factory_table \<Rightarrow> 'e option" where
  "factory_create nm cfg table = (case table nm of None \<Rightarrow> None | Some fn \<Rightarrow> fn cfg)"

section \<open>The registry as a map from venue ids\<close>

definition registry_inv :: "'e ExchangeRegistry \<Rightarrow> bool" where
  "registry_inv r \<longleftrightarrow> length (by_venue r) \<le> 256
     \<and> reg_count r = length (filter (\<lambda>x. x \<noteq> None) (by_venue r))"

lemma registry_inv_new: "registry_inv registry_new"
  by (simp add: registry_inv_def registry_new_def)

lemma registry_get_put_same:
  "registry_get r v = Some e \<Longrightarrow> registry_get (registry_put v e' r) v = Some e'"
  by (auto simp: registry_get_def registry_put_def split: if_splits)

lemma registry_get_put_other:
  "v \<noteq> u \<Longrightarrow> registry_get (registry_put v e' r) u = registry_get r u"
  by (auto simp: registry_get_def registry_put_def nth_list_update unat_inj)

lemma length_filter_update:
  "i < length xs \<Longrightarrow> xs ! i = None \<Longrightarrow>
   length (filter (\<lambda>x. x \<noteq> None) (xs[i := Some y])) = Suc (length (filter (\<lambda>x. x \<noteq> None) xs))"
proof (induction xs arbitrary: i)
  case (Cons x xs)
  then show ?case by (cases i) auto
qed simp

lemma registry_add_spec:
  assumes "registry_inv r" and "registry_add ops client r = Inr r'"
  obtains c where "client = Some c" and "registry_get r (ec_venue_id ops c) = None"
    and "registry_inv r'" and "reg_count r' = reg_count r + 1"
    and "\<And>u. registry_get r' u = (if u = ec_venue_id ops c then Some c else registry_get r u)"
proof -
  obtain c where c: "client = Some c" using assms(2) by (auto simp: registry_add_def split: option.splits)
  define v where "v = unat (ec_venue_id ops c)"
  define vec where "vec = (if length (by_venue r) \<le> v
      then by_venue r @ replicate (v + 1 - length (by_venue r)) None else by_venue r)"
  have v: "v < length vec" "v < 256"
    using unsigned_less [of "ec_venue_id ops c"] by (auto simp: vec_def v_def)
  have nthv: "u < length vec \<Longrightarrow> vec ! u = (if u < length (by_venue r) then by_venue r ! u else None)" for u
    by (auto simp: vec_def nth_append)
  from assms(2) c have free: "vec ! v = None"
    and r': "r' = \<lparr>by_venue = vec[v := Some c], reg_count = reg_count r + 1\<rparr>"
    by (auto simp: registry_add_def Let_def v_def vec_def split: if_splits)
  have same: "registry_get r (ec_venue_id ops c) = None"
    using free nthv [OF v(1)] by (auto simp: registry_get_def v_def [symmetric] split: if_splits)
  have cnt: "length (filter (\<lambda>x. x \<noteq> None) vec) = length (filter (\<lambda>x. x \<noteq> None) (by_venue r))"
    by (simp add: vec_def)
  have "length vec \<le> 256" using assms(1) v(2) by (auto simp: vec_def registry_inv_def)
  then have inv: "registry_inv r'"
    using assms(1) length_filter_update [OF v(1) free] cnt by (simp add: registry_inv_def r')
  have "registry_get r' u = (if u = ec_venue_id ops c then Some c else registry_get r u)" for u
  proof (cases "u = ec_venue_id ops c")
    case True
    then show ?thesis using v(1) by (simp add: registry_get_def r' v_def)
  next
    case False
    then have ne: "unat u \<noteq> v" by (simp add: v_def unat_inj)
    show ?thesis
      using False ne nthv [of "unat u"] by (auto simp: registry_get_def r' vec_def nth_append)
  qed
  with c same inv show thesis using that r' by simp
qed

lemma registry_venues_iff:
  assumes "registry_inv r"
  shows "v \<in> set (registry_venues r) \<longleftrightarrow> registry_get r v \<noteq> None"
proof
  assume "v \<in> set (registry_venues r)"
  then obtain i where i: "i < length (by_venue r)" "by_venue r ! i \<noteq> None" "v = word_of_nat i"
    by (auto simp: registry_venues_def)
  moreover have "unat v = i" using i assms by (simp add: unat_of_nat registry_inv_def)
  ultimately show "registry_get r v \<noteq> None" by (simp add: registry_get_def)
next
  assume "registry_get r v \<noteq> None"
  then have "unat v < length (by_venue r)" "by_venue r ! unat v \<noteq> None"
    by (auto simp: registry_get_def split: if_splits)
  then show "v \<in> set (registry_venues r)"
    by (auto simp: registry_venues_def intro!: image_eqI [of _ _ "unat v"])
qed

lemma registry_venues_sorted:
  assumes "registry_inv r"
  shows "sorted_wrt (<) (registry_venues r)"
proof -
  let ?is = "filter (\<lambda>i. by_venue r ! i \<noteq> None) [0..<length (by_venue r)]"
  have "sorted_wrt (<) ?is" by (intro sorted_wrt_filter) simp
  moreover have "(word_of_nat i :: VenueId) < word_of_nat j"
    if "i \<in> set ?is" "j \<in> set ?is" "i < j" for i j
    using that assms by (auto simp: word_less_nat_alt unat_of_nat registry_inv_def)
  ultimately show ?thesis
    unfolding registry_venues_def sorted_wrt_map by (rule sorted_wrt_mono_rel [rotated])
qed

text \<open>
  The registry contract: it is a finite map from venue ids to clients that can only be
  extended at fresh ids.
\<close>

locale venue_registry =
  fixes invar :: "'r \<Rightarrow> bool"
    and lookup :: "'r \<Rightarrow> VenueId \<Rightarrow> 'c option"
    and add :: "'c \<Rightarrow> 'r \<Rightarrow> 'r result"
    and vid :: "'c \<Rightarrow> VenueId"
    and listing :: "'r \<Rightarrow> VenueId list"
  assumes add_fresh: "invar r \<Longrightarrow> add c r = Inr r' \<Longrightarrow> lookup r (vid c) = None"
    and add_lookup: "invar r \<Longrightarrow> add c r = Inr r' \<Longrightarrow>
        invar r' \<and> lookup r' u = (if u = vid c then Some c else lookup r u)"
    and listing_dom: "invar r \<Longrightarrow> v \<in> set (listing r) \<longleftrightarrow> lookup r v \<noteq> None"
    and listing_sorted: "invar r \<Longrightarrow> sorted_wrt (<) (listing r)"
begin

fun add_all :: "'c list \<Rightarrow> 'r \<Rightarrow> 'r result" where
  "add_all [] r = Inr r"
| "add_all (c # cs) r = ebind (add c r) (add_all cs)"

lemma add_all_lookup:
  assumes "invar r" and "add_all cs r = Inr r'"
  shows "invar r'" and "distinct (map vid cs)"
    and "\<And>u. lookup r' u = (case find (\<lambda>c. vid c = u) cs of None \<Rightarrow> lookup r u | Some c \<Rightarrow> Some c)"
    and "\<And>c. c \<in> set cs \<Longrightarrow> lookup r (vid c) = None"
proof -
  have "invar r' \<and> distinct (map vid cs) \<and> (\<forall>c \<in> set cs. lookup r (vid c) = None)
      \<and> (\<forall>u. lookup r' u = (case find (\<lambda>c. vid c = u) cs of None \<Rightarrow> lookup r u | Some c \<Rightarrow> Some c))"
    using assms
  proof (induction cs arbitrary: r)
    case Nil
    then show ?case by simp
  next
    case (Cons c cs)
    then obtain r1 where r1: "add c r = Inr r1" "add_all cs r1 = Inr r'"
      by (auto elim: ebind_InrE)
    note l = add_lookup [OF Cons.prems(1) r1(1)] and fr = add_fresh [OF Cons.prems(1) r1(1)]
    have ih: "invar r'" "distinct (map vid cs)" "\<forall>c \<in> set cs. lookup r1 (vid c) = None"
      "\<forall>u. lookup r' u = (case find (\<lambda>c. vid c = u) cs of None \<Rightarrow> lookup r1 u | Some c \<Rightarrow> Some c)"
      using Cons.IH [OF _ r1(2)] l by auto
    have nin: "\<forall>d \<in> set cs. vid d \<noteq> vid c" using ih(3) l by (metis option.simps(3))
    then have "find (\<lambda>d. vid d = vid c) cs = None" by (auto simp: find_None_iff)
    moreover have "\<forall>d \<in> set cs. lookup r (vid d) = None" using ih(3) l nin by (metis)
    ultimately show ?case using ih l fr nin by (auto split: option.splits)
  qed
  then show "invar r'" and "distinct (map vid cs)"
    and "\<And>u. lookup r' u = (case find (\<lambda>c. vid c = u) cs of None \<Rightarrow> lookup r u | Some c \<Rightarrow> Some c)"
    and "\<And>c. c \<in> set cs \<Longrightarrow> lookup r (vid c) = None" by auto
qed

end

interpretation reg: venue_registry registry_inv registry_get
  "\<lambda>c. registry_add ops (Some c)" "ec_venue_id ops" registry_venues for ops
proof (unfold_locales, goal_cases)
  case (1 r c r')
  then show ?case by (auto elim: registry_add_spec)
next
  case (2 r c r' u)
  then show ?case by (auto elim: registry_add_spec)
qed (simp_all add: registry_venues_iff registry_venues_sorted)

end
