(* ===== verification/OrderManager.thy ===== *)
theory OrderManager
  imports OrderPool Router Exchange
begin

text \<open>
  \<^verbatim>\<open>include/oms/OrderManager.h\<close>, \<^verbatim>\<open>src/OrderManager.cpp\<close>: the order manager. Its record holds
  the members of the class and the objects it reaches by reference: the registry of clients, the
  router (the venue list of \<^verbatim>\<open>HealthAwareRouter\<close>) and the health model.

  Subscribers only read the manager, and nothing the manager does depends on them, so a handler
  returns the events it published instead of calling them: a list of pairs of an event and the
  state every subscriber sees while it handles that event.

  \<open>om_clock\<close> is the value \<^verbatim>\<open>clock_()\<close> returns now. \<open>om_live_iter\<close> is the iteration order of the
  unordered set \<^verbatim>\<open>live_\<close>, which the standard leaves open: the theorems hold for every choice.
\<close>

record 'e OrderManager =
  om_pool :: OrderPool
  om_registry :: "'e ExchangeRegistry"
  om_router :: "VenueId list"
  om_health :: HealthModel
  om_log :: log_sink
  om_clock :: Timestamp
  om_positions :: "InstrumentId \<rightharpoonup> Position"
  om_pending_signed :: "InstrumentId \<rightharpoonup> Quantity"
  om_venue_seq :: "VenueId \<rightharpoonup> u64"
  om_trade_ids :: "OrderIdRaw \<rightharpoonup> TradeId set"
  om_live :: "OrderIdRaw set"
  om_live_iter :: "OrderIdRaw set \<Rightarrow> OrderIdRaw list"
  om_expected_fcr :: "OrderIdRaw set"
  om_retired_fifo :: "OrderIdRaw list"
  om_retired_grace :: nat
  om_killed :: bool
  om_kill_reason :: string
  om_rebalance_incomplete :: bool
  om_false_cancel_reject_count :: u64
  om_reconcile_requested :: bool
  om_unknown_fill_count :: u64
  om_unknown_fill_hardstop_threshold :: u64
  om_reject_count :: u64
  om_ack_timeout_count :: u64
  om_unsolicited_cancel_count :: u64
  om_oos_dropped_count :: u64

type_synonym 'e published = "(OrderEvent \<times> 'e OrderManager) list"

definition om_new ::
  "'e ExchangeRegistry \<Rightarrow> VenueId list \<Rightarrow> HealthModel \<Rightarrow> log_sink \<Rightarrow> nat
     \<Rightarrow> (OrderIdRaw set \<Rightarrow> OrderIdRaw list) \<Rightarrow> Timestamp \<Rightarrow> 'e OrderManager result" where
  "om_new registry router health sink pool_capacity iter now =
     ebind (pool_new pool_capacity) (\<lambda>p. Inr \<lparr>om_pool = p, om_registry = registry,
       om_router = router, om_health = health, om_log = sink, om_clock = now,
       om_positions = Map.empty, om_pending_signed = Map.empty, om_venue_seq = Map.empty,
       om_trade_ids = Map.empty, om_live = {}, om_live_iter = iter, om_expected_fcr = {},
       om_retired_fifo = [], om_retired_grace = 4096, om_killed = False, om_kill_reason = [],
       om_rebalance_incomplete = False, om_false_cancel_reject_count = 0,
       om_reconcile_requested = False, om_unknown_fill_count = 0,
       om_unknown_fill_hardstop_threshold = 3, om_reject_count = 0, om_ack_timeout_count = 0,
       om_unsolicited_cancel_count = 0, om_oos_dropped_count = 0\<rparr>)"

section \<open>Small accessors\<close>

definition venue_of :: "OrderIdRaw \<Rightarrow> VenueId" where
  "venue_of i = id_venue (decode_order_id i)"

definition order_ref :: "'e OrderManager \<Rightarrow> OrderIdRaw \<Rightarrow> Order" where
  "order_ref s i = pool_at (om_pool s) (slot_of i)"

definition put_order :: "OrderIdRaw \<Rightarrow> Order \<Rightarrow> 'e OrderManager \<Rightarrow> 'e OrderManager" where
  "put_order i ord s = s\<lparr>om_pool := pool_put (slot_of i) ord (om_pool s)\<rparr>"

definition om_log_line :: "LogLevel \<Rightarrow> string \<Rightarrow> 'e OrderManager \<Rightarrow> 'e OrderManager" where
  "om_log_line level line s = s\<lparr>om_log := log_line level line (om_log s)\<rparr>"

definition with_health ::
  "(HealthModel \<Rightarrow> HealthModel result) \<Rightarrow> 'e OrderManager \<Rightarrow> 'e OrderManager result" where
  "with_health f s = ebind (f (om_health s)) (\<lambda>h. Inr (s\<lparr>om_health := h\<rparr>))"

definition id_str :: "OrderIdRaw \<Rightarrow> string" where
  "id_str i = to_string (uint i)"

section \<open>Validation\<close>

definition validate :: "OrderIdRaw \<Rightarrow> EventContext \<Rightarrow> 'e OrderManager \<Rightarrow> ValidationResult" where
  "validate i ev s =
     (if \<not> is_current i (om_pool s) then UnknownOrder
      else let ord = order_ref s i in
        if is_terminal (o_status ord) then TerminalState
        else if cx_kind ev = KFill then
          (if (case om_trade_ids s i of None \<Rightarrow> False | Some seen \<Rightarrow> cx_trade_id ev \<in> seen)
           then DuplicateTrade
           else if cx_qty ev \<le> 0 \<or> cx_price ev \<le> 0 then FieldMismatch
           else if cx_qty ev > remaining ord then FieldMismatch
           else ValidOk)
        else ValidOk)"

definition plain_context :: "EventKind \<Rightarrow> EventContext" where
  "plain_context k = \<lparr>cx_kind = k, cx_trade_id = 0, cx_qty = 0, cx_price = 0\<rparr>"

definition log_rejection ::
  "OrderIdRaw \<Rightarrow> EventKind \<Rightarrow> ValidationResult \<Rightarrow> Timestamp \<Rightarrow> 'e OrderManager \<Rightarrow> 'e OrderManager" where
  "log_rejection i kind vr ts s =
     (let d = decode_order_id i;
          exch = (if is_current i (om_pool s) then o_exchange_id (order_ref s i) else []);
          status = (if is_current i (om_pool s) then o_status (order_ref s i) else New)
      in om_log_line LogError
           (''event rejected: kind='' @ name_event_kind kind @ '' reason='' @ name_validation vr
            @ '' internal_id='' @ id_str i @ '' venue='' @ to_string (uint (id_venue d))
            @ '' slot='' @ to_string (uint (id_slot d))
            @ '' gen='' @ to_string (uint (id_generation d))
            @ '' exchange_id='' @ (if exch = [] then ''-'' else exch)
            @ '' status='' @ name_status status @ '' event_ts='' @ to_string ts) s)"

definition trip_kill_switch :: "string \<Rightarrow> 'e OrderManager \<Rightarrow> 'e OrderManager" where
  "trip_kill_switch reason s =
     (if \<not> om_killed s
      then om_log_line LogError (''KILL SWITCH tripped: '' @ reason)
             (s\<lparr>om_killed := True, om_kill_reason := reason\<rparr>)
      else s)"

section \<open>Retiring orders\<close>

definition retire ::
  "OrderIdRaw \<Rightarrow> InstrumentId \<Rightarrow> Quantity \<Rightarrow> Side \<Rightarrow> 'e OrderManager \<Rightarrow> 'e OrderManager result" where
  "retire i inst remaining_to_cancel sd s =
     (let s1 = (if remaining_to_cancel > 0
                then s\<lparr>om_pending_signed :=
                         map_upd 0 (\<lambda>q. q - signed_qty sd remaining_to_cancel) (om_pending_signed s) inst\<rparr>
                else s);
          s2 = s1\<lparr>om_live := om_live s1 - {i}, om_trade_ids := (om_trade_ids s1)(i := None),
                  om_retired_fifo := om_retired_fifo s1 @ [i]\<rparr>
      in if length (om_retired_fifo s2) > om_retired_grace s2 then
           (let old = hd (om_retired_fifo s2);
                s3 = s2\<lparr>om_retired_fifo := tl (om_retired_fifo s2)\<rparr>
            in ebind (if is_current old (om_pool s3) then release (slot_of old) (om_pool s3)
                      else Inr (om_pool s3))
                 (\<lambda>p. Inr (s3\<lparr>om_pool := p, om_expected_fcr := om_expected_fcr s3 - {old}\<rparr>)))
         else Inr s2)"

text \<open>\<^verbatim>\<open>ex->cancel_order(id, o.exchange_id)\<close> for the client of the id's venue.\<close>

definition call_cancel ::
  "'e ExchangeClient \<Rightarrow> OrderIdRaw \<Rightarrow> 'e \<Rightarrow> 'e OrderManager \<Rightarrow> SendResult \<times> 'e OrderManager" where
  "call_cancel ops i ex s =
     (let (r, ex') = ec_cancel_order ops i (o_exchange_id (order_ref s i)) ex
      in (r, s\<lparr>om_registry := registry_put (venue_of i) ex' (om_registry s)\<rparr>))"

definition mark_cancel_sent :: "OrderIdRaw \<Rightarrow> 'e OrderManager \<Rightarrow> 'e OrderManager" where
  "mark_cancel_sent i s =
     put_order i ((order_ref s i)\<lparr>o_pending_cancel := True, o_status := SentCancel\<rparr>) s"

definition cancel_working_one ::
  "'e ExchangeClient \<Rightarrow> 'e OrderManager \<Rightarrow> OrderIdRaw \<Rightarrow> 'e OrderManager" where
  "cancel_working_one ops s i =
     (if \<not> is_current i (om_pool s) then s
      else let ord = order_ref s i in
        if is_terminal (o_status ord) \<or> o_pending_cancel ord then s
        else case registry_get (om_registry s) (venue_of i) of
            None \<Rightarrow> s
          | Some ex \<Rightarrow>
              if ec_is_connected ops ex then
                (let (r, s1) = call_cancel ops i ex s
                 in if r = SendOk then mark_cancel_sent i s1 else s1)
              else s)"

definition cancel_working_orders :: "'e ExchangeClient \<Rightarrow> 'e OrderManager \<Rightarrow> 'e OrderManager" where
  "cancel_working_orders ops s =
     foldl (cancel_working_one ops) s (om_live_iter s (om_live s))"

section \<open>Submit and cancel\<close>

text \<open>The order written into a freshly acquired slot.\<close>

definition fill_in_order :: "OrderRequest \<Rightarrow> OrderIdRaw \<Rightarrow> Timestamp \<Rightarrow> Order \<Rightarrow> Order result" where
  "fill_in_order req i now ord =
     store_int_data (rq_worker_index req) (rq_worker_offset req)
       (ord\<lparr>o_internal_id := i, o_instrument := rq_instrument req, o_side := rq_side req,
            o_type := rq_type req, o_size := rq_size req, o_filled_size := 0,
            o_total_fill_amount := 0, o_limit_price := rq_price req, o_status := New,
            o_strategy_id := rq_strategy_id req, o_algo_tag := rq_algo_tag req,
            o_reconciliation := rq_reconciliation req,
            o_ts := (o_ts ord)\<lparr>ts_created := now\<rparr>\<rparr>)"

text \<open>
  The part of \<^verbatim>\<open>submit\<close> that reserves: slot, id, order, position entry, pending quantity, live
  index. It returns the id and the order as it is handed to the client.
\<close>

definition reserve_order ::
  "OrderRequest \<Rightarrow> VenueId \<Rightarrow> 'e OrderManager \<Rightarrow> (OrderIdRaw \<times> 'e OrderManager) result" where
  "reserve_order req venue s =
     ebind (acquire (om_pool s)) (\<lambda>(slot, p).
       let gen = generation p ! slot;
           seq = map_get 0 (om_venue_seq s) venue + 1;
           i = encode_order_id venue gen (word_of_nat slot) (ucast seq)
       in ebind (fill_in_order req i (om_clock s) (pool_at p slot)) (\<lambda>ord.
            Inr (i, s\<lparr>om_pool := pool_put slot ord p,
                      om_venue_seq := (om_venue_seq s)(venue \<mapsto> seq),
                      om_positions := (case om_positions s (rq_instrument req) of
                          None \<Rightarrow> (om_positions s)(rq_instrument req \<mapsto> empty_position)
                        | Some _ \<Rightarrow> om_positions s),
                      om_pending_signed := map_upd 0 (\<lambda>q. q + signed_qty (rq_side req) (rq_size req))
                          (om_pending_signed s) (rq_instrument req),
                      om_live := insert i (om_live s)\<rparr>)))"

definition place_reserved ::
  "'e ExchangeClient \<Rightarrow> OrderRequest \<Rightarrow> VenueId \<Rightarrow> 'e \<Rightarrow> OrderIdRaw \<Rightarrow> 'e OrderManager
     \<Rightarrow> (OrderIdRaw \<times> 'e OrderManager) result" where
  "place_reserved ops req venue ex i s =
     (let now = om_clock s;
          (r, ex') = ec_place_order ops (order_ref s i) ex;
          s1 = s\<lparr>om_registry := registry_put venue ex' (om_registry s)\<rparr>
      in ebind (with_health (health_on_order_sent venue now) s1) (\<lambda>s2.
           if r \<noteq> SendOk then
             (let s3 = (put_order i ((order_ref s2 i)\<lparr>o_status := Rejected\<rparr>) s2)
                         \<lparr>om_reject_count := om_reject_count s2 + 1\<rparr>
              in ebind (with_health (health_on_reject venue False) s3) (\<lambda>s4.
                   ebind (retire i (rq_instrument req) (rq_size req) (rq_side req)
                            (om_log_line Warn (''place_order local reject: internal_id='' @ id_str i) s4))
                     (\<lambda>s5. Inr (0, s5))))
           else Inr (i, put_order i ((order_ref s2 i)\<lparr>o_status := Sent,
                          o_ts := (o_ts (order_ref s2 i))\<lparr>ts_sent := now\<rparr>\<rparr>) s2)))"

definition submit ::
  "'e ExchangeClient \<Rightarrow> OrderRequest \<Rightarrow> 'e OrderManager \<Rightarrow> (OrderIdRaw \<times> 'e OrderManager) result" where
  "submit ops req s =
     (if om_killed s then Inr (0, om_log_line LogError ''submit rejected: kill switch active'' s)
      else ebind (router_select (om_router s) (om_health s) (rq_instrument req) (rq_side req) (rq_size req))
        (\<lambda>venue_opt. case venue_opt of
            None \<Rightarrow> Inr (0, cancel_working_orders ops
                (om_log_line LogError
                   (''ALL-DOWN: no tradeable venue for instrument=''
                    @ to_string (uint (rq_instrument req))
                    @ ''; not submitting, cancelling working orders, cycle marked incomplete'')
                   (s\<lparr>om_rebalance_incomplete := True\<rparr>)))
          | Some venue \<Rightarrow>
              (case registry_get (om_registry s) venue of
                 None \<Rightarrow> Inr (0, om_log_line LogError
                   (''submit rejected: no client for venue='' @ to_string (uint venue)) s)
               | Some ex \<Rightarrow>
                   if in_use (om_pool s) \<ge> capacity (om_pool s) then
                     Inr (0, trip_kill_switch
                       (''ORDER_POOL_EXHAUSTED in_use='' @ to_string (int (in_use (om_pool s)))
                        @ '' capacity='' @ to_string (int (capacity (om_pool s)))) s)
                   else ebind (reserve_order req venue s) (\<lambda>(i, s1).
                     place_reserved ops req venue ex i s1))))"

definition cancel :: "'e ExchangeClient \<Rightarrow> OrderIdRaw \<Rightarrow> 'e OrderManager \<Rightarrow> bool \<times> 'e OrderManager" where
  "cancel ops i s =
     (if \<not> is_current i (om_pool s)
      then (False, om_log_line Warn (''cancel of unknown/stale order: id='' @ id_str i) s)
      else if is_terminal (o_status (order_ref s i))
      then (False, om_log_line Warn (''cancel of terminal order: id='' @ id_str i) s)
      else case registry_get (om_registry s) (venue_of i) of
          None \<Rightarrow> (False, s)
        | Some ex \<Rightarrow>
            (let (r, s1) = call_cancel ops i ex s
             in if r \<noteq> SendOk
                then (False, om_log_line Warn (''cancel send failed: id='' @ id_str i) s1)
                else (True, mark_cancel_sent i s1)))"

section \<open>Inbound handlers\<close>

definition drop_event ::
  "OrderIdRaw \<Rightarrow> EventKind \<Rightarrow> ValidationResult \<Rightarrow> Timestamp \<Rightarrow> 'e OrderManager \<Rightarrow> 'e OrderManager" where
  "drop_event i kind vr ts s =
     (let s1 = log_rejection i kind vr ts s
      in s1\<lparr>om_oos_dropped_count := om_oos_dropped_count s1 + 1\<rparr>)"

definition mk_event ::
  "OrderEventKind \<Rightarrow> OrderIdRaw \<Rightarrow> Order \<Rightarrow> Quantity \<Rightarrow> Price \<Rightarrow> RejectReason \<Rightarrow> Timestamp \<Rightarrow> OrderEvent" where
  "mk_event kind i ord qty price reason ts =
     \<lparr>ev_kind = kind, ev_internal_id = i, ev_instrument = o_instrument ord, ev_side = o_side ord,
      ev_last_qty = qty, ev_last_price = price, ev_filled_size = o_filled_size ord,
      ev_size = o_size ord, ev_status = o_status ord, ev_reason = reason, ev_ts = ts\<rparr>"

definition on_confirm ::
  "OrderIdRaw \<Rightarrow> ExchangeOrderId \<Rightarrow> Timestamp \<Rightarrow> 'e OrderManager
     \<Rightarrow> ('e OrderManager \<times> 'e published) result" where
  "on_confirm i exch_id ts s =
     (let vr = validate i (plain_context KConfirm) s in
      if vr \<noteq> ValidOk then Inr (drop_event i KConfirm vr ts s, [])
      else
        let o1 = (order_ref s i)\<lparr>o_exchange_id := exch_id\<rparr>;
            o2 = (if o_status o1 = New \<or> o_status o1 = Sent then o1\<lparr>o_status := Confirmed\<rparr> else o1);
            o3 = o2\<lparr>o_ts := (o_ts o2)\<lparr>ts_confirmed := ts\<rparr>\<rparr>
        in ebind (with_health (health_on_ack (venue_of i) (ts - ts_sent (o_ts o3))) (put_order i o3 s))
             (\<lambda>s1. Inr (s1, [(mk_event EvConfirmed i o3 0 0 ReasonUnknown ts, s1)])))"

text \<open>What \<^verbatim>\<open>on_fill\<close> does when the shared guard rejected the event (mode 4 included).\<close>

definition reject_fill ::
  "OrderIdRaw \<Rightarrow> ValidationResult \<Rightarrow> Timestamp \<Rightarrow> 'e OrderManager \<Rightarrow> 'e OrderManager" where
  "reject_fill i vr ts s =
     (let s1 = drop_event i KFill vr ts s in
      if vr = UnknownOrder then
        (let s2 = s1\<lparr>om_unknown_fill_count := om_unknown_fill_count s1 + 1,
                     om_reconcile_requested := True\<rparr>
         in if om_unknown_fill_count s2 > om_unknown_fill_hardstop_threshold s2
            then trip_kill_switch (''ORDER_FILLED_NOT_IN_SYSTEM recurred id='' @ id_str i) s2
            else s2)
      else s1)"

text \<open>The order after a fill: accounting, timestamps and status.\<close>

definition filled_order :: "Quantity \<Rightarrow> Price \<Rightarrow> Timestamp \<Rightarrow> Order \<Rightarrow> Order" where
  "filled_order qty price ts ord =
     (let o1 = ord\<lparr>o_filled_size := o_filled_size ord + qty,
                   o_total_fill_amount := o_total_fill_amount ord + qty * price\<rparr>;
          o2 = (if ts_first_fill (o_ts o1) = 0
                then o1\<lparr>o_ts := (o_ts o1)\<lparr>ts_first_fill := ts\<rparr>\<rparr> else o1);
          o3 = o2\<lparr>o_ts := (o_ts o2)\<lparr>ts_last_fill := ts\<rparr>\<rparr>;
          final = (o_filled_size o3 = o_size o3);
          o4 = o3\<lparr>o_status := (if final then Filled else PartiallyFilled)\<rparr>
      in if final then o4\<lparr>o_ts := (o_ts o4)\<lparr>ts_terminal := ts\<rparr>\<rparr> else o4)"

definition book_fill ::
  "OrderIdRaw \<Rightarrow> Quantity \<Rightarrow> Price \<Rightarrow> TradeId \<Rightarrow> Timestamp \<Rightarrow> 'e OrderManager \<Rightarrow> 'e OrderManager" where
  "book_fill i qty price trade ts s =
     (let ord = order_ref s i; inst = o_instrument ord
      in (put_order i (filled_order qty price ts ord) s)
           \<lparr>om_trade_ids := map_upd {} (insert trade) (om_trade_ids s) i,
            om_positions := map_upd empty_position
               (pos_apply (signed_qty (o_side ord) qty) price ts 0) (om_positions s) inst,
            om_pending_signed := map_upd 0 (\<lambda>q. q - signed_qty (o_side ord) qty)
               (om_pending_signed s) inst\<rparr>)"

definition on_fill ::
  "OrderIdRaw \<Rightarrow> Quantity \<Rightarrow> Price \<Rightarrow> TradeId \<Rightarrow> Timestamp \<Rightarrow> 'e OrderManager
     \<Rightarrow> ('e OrderManager \<times> 'e published) result" where
  "on_fill i qty price trade ts s =
     (let vr = validate i \<lparr>cx_kind = KFill, cx_trade_id = trade, cx_qty = qty, cx_price = price\<rparr> s in
      if vr \<noteq> ValidOk then Inr (reject_fill i vr ts s, [])
      else ebind (with_health (health_on_fill (venue_of i)) (book_fill i qty price trade ts s)) (\<lambda>s1.
        let ord = order_ref s1 i;
            final = (o_filled_size ord = o_size ord);
            pub = [(mk_event (if final then EvFill else EvPartialFill) i ord qty price ReasonUnknown ts, s1)]
        in if final then
             (let s2 = (if o_pending_cancel ord
                        then s1\<lparr>om_expected_fcr := insert i (om_expected_fcr s1),
                                om_false_cancel_reject_count := om_false_cancel_reject_count s1 + 1\<rparr>
                        else s1)
              in ebind (retire i (o_instrument ord) 0 (o_side ord) s2) (\<lambda>s3. Inr (s3, pub)))
           else Inr (s1, pub)))"

definition on_reject ::
  "OrderIdRaw \<Rightarrow> RejectReason \<Rightarrow> Timestamp \<Rightarrow> 'e OrderManager
     \<Rightarrow> ('e OrderManager \<times> 'e published) result" where
  "on_reject i reason ts s =
     (let venue = venue_of i; vr = validate i (plain_context KReject) s in
      if reason = CancelRejectedReason then
        (if i \<in> om_expected_fcr s then
           ebind (with_health (health_on_reject venue True)
                    (s\<lparr>om_expected_fcr := om_expected_fcr s - {i}\<rparr>))
             (\<lambda>s1. Inr (om_log_line Info (''benign false cancel-reject id='' @ id_str i) s1, []))
         else if vr \<noteq> ValidOk then Inr (drop_event i KReject vr ts s, [])
         else
           let ord = order_ref s i;
               o1 = ord\<lparr>o_pending_cancel := False,
                        o_status := (if o_filled_size ord > 0 then PartiallyFilled else Confirmed)\<rparr>;
               s1 = (put_order i o1 s)\<lparr>om_reject_count := om_reject_count s + 1\<rparr>
           in ebind (with_health (health_on_reject venue False) s1) (\<lambda>s2. Inr (s2, [])))
      else if vr \<noteq> ValidOk then Inr (drop_event i KReject vr ts s, [])
      else
        let ord = order_ref s i;
            rem = remaining ord;
            o1 = ord\<lparr>o_status := Rejected, o_ts := (o_ts ord)\<lparr>ts_terminal := ts\<rparr>\<rparr>;
            s1 = (put_order i o1 s)\<lparr>om_reject_count := om_reject_count s + 1\<rparr>
        in ebind (with_health (health_on_reject venue False) s1) (\<lambda>s2.
             ebind (retire i (o_instrument ord) rem (o_side ord) s2) (\<lambda>s3.
               Inr (s3, [(mk_event EvRejected i o1 0 0 reason ts, s2)]))))"

definition finish_cancel ::
  "OrderIdRaw \<Rightarrow> Timestamp \<Rightarrow> EventKind \<Rightarrow> OrderEventKind \<Rightarrow> bool \<Rightarrow> 'e OrderManager
     \<Rightarrow> ('e OrderManager \<times> 'e published) result" where
  "finish_cancel i ts kind pub unsolicited s =
     (let vr = validate i (plain_context kind) s in
      if vr \<noteq> ValidOk then Inr (drop_event i kind vr ts s, [])
      else
        let ord = order_ref s i;
            rem = remaining ord;
            o1 = ord\<lparr>o_pending_cancel := False, o_status := Cancelled,
                     o_ts := (o_ts ord)\<lparr>ts_terminal := ts\<rparr>\<rparr>;
            s1 = put_order i o1 s;
            s2 = (if unsolicited
                  then om_log_line Warn (''unsolicited cancel id='' @ id_str i)
                         (s1\<lparr>om_unsolicited_cancel_count := om_unsolicited_cancel_count s1 + 1\<rparr>)
                  else s1)
        in ebind (retire i (o_instrument ord) rem (o_side ord) s2) (\<lambda>s3.
             Inr (s3, [(mk_event pub i o1 0 0 ReasonUnknown ts, s2)])))"

definition on_cancel_ack ::
  "OrderIdRaw \<Rightarrow> Timestamp \<Rightarrow> 'e OrderManager \<Rightarrow> ('e OrderManager \<times> 'e published) result" where
  "on_cancel_ack i ts s = finish_cancel i ts KCancelAck EvCancelled False s"

definition on_unsolicited_cancel ::
  "OrderIdRaw \<Rightarrow> Timestamp \<Rightarrow> 'e OrderManager \<Rightarrow> ('e OrderManager \<times> 'e published) result" where
  "on_unsolicited_cancel i ts s = finish_cancel i ts KUnsolicitedCancel EvUnsolicitedCancel True s"

section \<open>Failure-mode hooks\<close>

definition ack_timeout_one ::
  "'e ExchangeClient \<Rightarrow> Timestamp \<Rightarrow> Timestamp \<Rightarrow> 'e OrderManager \<Rightarrow> OrderIdRaw
     \<Rightarrow> 'e OrderManager result" where
  "ack_timeout_one ops now timeout s i =
     (if \<not> is_current i (om_pool s) then Inr s
      else let ord = order_ref s i in
        if o_ack_timed_out ord then Inr s
        else if o_status ord \<noteq> Sent then Inr s
        else if now - ts_sent (o_ts ord) < timeout then Inr s
        else
          let s1 = (put_order i (ord\<lparr>o_ack_timed_out := True\<rparr>) s)
                     \<lparr>om_ack_timeout_count := om_ack_timeout_count s + 1\<rparr>
          in ebind (with_health (health_on_timeout (venue_of i)) s1) (\<lambda>s2.
               let s3 = om_log_line Warn (''ACK TIMEOUT id='' @ id_str i
                          @ '' (possibly live; attempting cancel)'') s2
               in case registry_get (om_registry s3) (venue_of i) of
                    None \<Rightarrow> Inr s3
                  | Some ex \<Rightarrow>
                      if ec_is_connected ops ex \<and> \<not> o_pending_cancel (order_ref s3 i) then
                        (let (r, s4) = call_cancel ops i ex s3
                         in Inr (if r = SendOk then mark_cancel_sent i s4 else s4))
                      else Inr s3))"

fun ack_timeout_loop ::
  "'e ExchangeClient \<Rightarrow> Timestamp \<Rightarrow> Timestamp \<Rightarrow> OrderIdRaw list \<Rightarrow> 'e OrderManager
     \<Rightarrow> 'e OrderManager result" where
  "ack_timeout_loop ops now timeout [] s = Inr s"
| "ack_timeout_loop ops now timeout (i # ids) s =
     ebind (ack_timeout_one ops now timeout s i) (ack_timeout_loop ops now timeout ids)"

definition check_ack_timeouts ::
  "'e ExchangeClient \<Rightarrow> Timestamp \<Rightarrow> Timestamp \<Rightarrow> 'e OrderManager \<Rightarrow> 'e OrderManager result" where
  "check_ack_timeouts ops now timeout s =
     ack_timeout_loop ops now timeout (om_live_iter s (om_live s)) s"

definition on_venue_disconnect :: "VenueId \<Rightarrow> 'e OrderManager \<Rightarrow> 'e OrderManager result" where
  "on_venue_disconnect venue s =
     ebind (with_health (health_on_disconnect venue) s) (\<lambda>s1.
       Inr (om_log_line Warn (''venue disconnect venue='' @ to_string (uint venue)
              @ ''; in-flight orders kept (not assumed dead)'') s1))"

definition on_venue_reconnect :: "VenueId \<Rightarrow> 'e OrderManager \<Rightarrow> 'e OrderManager result" where
  "on_venue_reconnect venue s =
     ebind (with_health (health_on_reconnect venue) s) (\<lambda>s1.
       Inr (om_log_line Info (''venue reconnect venue='' @ to_string (uint venue)
              @ ''; reconcile requested'') (s1\<lparr>om_reconcile_requested := True\<rparr>)))"

section \<open>Queries and switches\<close>

definition position :: "'e OrderManager \<Rightarrow> InstrumentId \<Rightarrow> Position" where
  "position s inst = map_get empty_position (om_positions s) inst"

definition pending_quantity :: "'e OrderManager \<Rightarrow> InstrumentId \<Rightarrow> Quantity" where
  "pending_quantity s inst = map_get 0 (om_pending_signed s) inst"

definition find_order :: "'e OrderManager \<Rightarrow> OrderIdRaw \<Rightarrow> Order option" where
  "find_order s i = (if \<not> is_current i (om_pool s) then None else Some (order_ref s i))"

definition om_instruments :: "'e OrderManager \<Rightarrow> InstrumentId set" where
  "om_instruments s = dom (om_positions s)"

definition execution_delta :: "'e OrderManager \<Rightarrow> InstrumentId \<Rightarrow> Quantity \<Rightarrow> Quantity" where
  "execution_delta s inst target = target - (pos_net (position s inst) + pending_quantity s inst)"

definition live_order_count :: "'e OrderManager \<Rightarrow> nat" where
  "live_order_count s = card (om_live s)"

definition set_om_clock :: "Timestamp \<Rightarrow> 'e OrderManager \<Rightarrow> 'e OrderManager" where
  "set_om_clock now s = s\<lparr>om_clock := now, om_health := (om_health s)\<lparr>hm_clock := now\<rparr>\<rparr>"

definition set_unknown_fill_hardstop_threshold :: "u64 \<Rightarrow> 'e OrderManager \<Rightarrow> 'e OrderManager" where
  "set_unknown_fill_hardstop_threshold n s = s\<lparr>om_unknown_fill_hardstop_threshold := n\<rparr>"

definition reset_rebalance_cycle :: "'e OrderManager \<Rightarrow> 'e OrderManager" where
  "reset_rebalance_cycle s = s\<lparr>om_rebalance_incomplete := False\<rparr>"

definition clear_reconcile_request :: "'e OrderManager \<Rightarrow> 'e OrderManager" where
  "clear_reconcile_request s = s\<lparr>om_reconcile_requested := False\<rparr>"

end
