(* ===== verification/OmInvariant.thy ===== *)
theory OmInvariant
  imports OrderManager
begin

text \<open>
  The representation invariant of the order manager and its preservation by every operation.
  \<open>core_inv\<close> speaks of the pool, the live index, the dedup sets, the expected false
  cancel-rejects, the retired queue and the pending quantities; four lemmas say how the
  elementary moves of an order keep it (rewritten while live, finished, trimmed from the queue,
  opened), and every handler is a composition of those moves.
\<close>

section \<open>The invariant\<close>

text \<open>What a working order contributes to the signed pending quantity of an instrument.\<close>

definition contrib :: "Order \<Rightarrow> InstrumentId \<Rightarrow> Quantity" where
  "contrib ord k = (if o_instrument ord = k then signed_qty (o_side ord) (remaining ord) else 0)"

definition at_id :: "OrderPool \<Rightarrow> OrderIdRaw \<Rightarrow> Order" where
  "at_id p i = pool_at p (slot_of i)"

definition good_order :: "OrderIdRaw \<Rightarrow> Order \<Rightarrow> bool" where
  "good_order i ord \<longleftrightarrow> o_internal_id ord = i \<and> 0 \<le> o_filled_size ord \<and> o_filled_size ord \<le> o_size ord"

definition core_inv ::
  "OrderPool \<Rightarrow> OrderIdRaw set \<Rightarrow> (OrderIdRaw \<rightharpoonup> TradeId set) \<Rightarrow> OrderIdRaw set
     \<Rightarrow> OrderIdRaw list \<Rightarrow> (InstrumentId \<Rightarrow> Quantity) \<Rightarrow> bool" where
  "core_inv p live tids exps fifo pend \<longleftrightarrow>
     pool_inv p \<and> finite live \<and> distinct fifo \<and> live \<inter> set fifo = {} \<and>
     (\<forall>i \<in> live \<union> set fifo. is_current i p \<and> good_order i (at_id p i)) \<and>
     (\<forall>i \<in> live. \<not> is_terminal (o_status (at_id p i))) \<and>
     (\<forall>i \<in> set fifo. is_terminal (o_status (at_id p i))) \<and>
     (\<forall>t. slot_live p t \<longrightarrow> (\<exists>i \<in> live \<union> set fifo. slot_of i = t)) \<and>
     dom tids \<subseteq> live \<and> exps \<subseteq> set fifo \<and>
     (\<forall>k. pend k = (\<Sum>i \<in> live. contrib (at_id p i) k))"

definition om_inv :: "'e OrderManager \<Rightarrow> bool" where
  "om_inv s \<longleftrightarrow>
     core_inv (om_pool s) (om_live s) (om_trade_ids s) (om_expected_fcr s) (om_retired_fifo s)
       (map_get 0 (om_pending_signed s)) \<and>
     length (om_retired_fifo s) \<le> om_retired_grace s \<and> 0 < om_retired_grace s \<and>
     (\<forall>A. set (om_live_iter s A) = A) \<and>
     set (om_router s) \<subseteq> hm_registered (om_health s) \<and>
     (\<forall>i \<in> om_live s \<union> set (om_retired_fifo s). venue_of i \<in> hm_registered (om_health s))"

text \<open>
  \<^verbatim>\<open>is_current\<close> compares the slot and the generation of an id only. An event id is
  \<open>genuine\<close> when, if it names an occupied slot at its generation, it is the id of the order
  there: venues echo the ids they were given.
\<close>

definition genuine :: "'e OrderManager \<Rightarrow> OrderIdRaw \<Rightarrow> bool" where
  "genuine s i \<longleftrightarrow> (is_current i (om_pool s) \<longrightarrow> o_internal_id (order_ref s i) = i)"

section \<open>Consequences of the core invariant\<close>

lemma core_id: "core_inv p L T X F pend \<Longrightarrow> i \<in> L \<union> set F \<Longrightarrow> o_internal_id (at_id p i) = i"
  unfolding core_inv_def good_order_def by blast

lemma core_slot_inj:
  assumes "core_inv p L T X F pend" and "i \<in> L \<union> set F" and "j \<in> L \<union> set F"
    and "slot_of i = slot_of j"
  shows "i = j"
proof -
  have "at_id p i = at_id p j" using assms(4) by (simp add: at_id_def)
  moreover have "o_internal_id (at_id p i) = i" "o_internal_id (at_id p j) = j"
    using core_id [OF assms(1,2)] core_id [OF assms(1,3)] by simp_all
  ultimately show ?thesis by metis
qed

lemma core_current_known:
  assumes "core_inv p L T X F pend" and "is_current i p" and "o_internal_id (at_id p i) = i"
  shows "i \<in> L \<union> set F"
proof -
  have "slot_live p (slot_of i)" using assms(2) by (simp add: is_current_iff)
  then obtain j where j: "j \<in> L \<union> set F" "slot_of j = slot_of i"
    using assms(1) unfolding core_inv_def by blast
  then have "o_internal_id (at_id p i) = j"
    using core_id [OF assms(1) j(1)] by (simp add: at_id_def)
  with assms(3) j(1) show ?thesis by simp
qed

lemma core_pool: "core_inv p L T X F pend \<Longrightarrow> pool_inv p"
  by (simp add: core_inv_def)

lemma core_current: "core_inv p L T X F pend \<Longrightarrow> i \<in> L \<union> set F \<Longrightarrow> is_current i p"
  unfolding core_inv_def by blast

lemma core_capacity: "core_inv p L T X F pend \<Longrightarrow> i \<in> L \<union> set F \<Longrightarrow> slot_of i < capacity p"
  by (blast intro: is_current_capacity core_current)

lemma at_id_put:
  assumes "core_inv p L T X F pend" and "i \<in> L \<union> set F" and "j \<in> L \<union> set F"
  shows "at_id (pool_put (slot_of i) ord p) j = (if j = i then ord else at_id p j)"
  using core_slot_inj [OF assms] pool_at_put [OF core_pool [OF assms(1)] core_capacity [OF assms(1,2)]]
  by (auto simp: at_id_def)

section \<open>Elementary moves\<close>

lemma core_rewrite:
  assumes inv: "core_inv p L T X F pend" and i: "i \<in> L" and good: "good_order i ord"
    and open_: "\<not> is_terminal (o_status ord)" and T': "dom T' \<subseteq> L" and X': "X' \<subseteq> X"
    and pend': "\<And>k. pend' k = pend k - contrib (at_id p i) k + contrib ord k"
  shows "core_inv (pool_put (slot_of i) ord p) L T' X' F pend'"
proof -
  let ?q = "pool_put (slot_of i) ord p"
  have i': "i \<in> L \<union> set F" using i by simp
  note upd = at_id_put [OF inv i', of _ ord]
  have iF: "i \<notin> set F" using inv i unfolding core_inv_def by blast
  have sums: "\<forall>k. pend' k = (\<Sum>j \<in> L. contrib (at_id ?q j) k)"
  proof
    fix k
    have "(\<Sum>j \<in> L. contrib (at_id ?q j) k)
        = (\<Sum>j \<in> L. contrib (at_id p j) k) - contrib (at_id p i) k + contrib (at_id ?q i) k"
      using inv i upd by (intro sum_update_one) (auto simp: core_inv_def)
    then show "pend' k = (\<Sum>j \<in> L. contrib (at_id ?q j) k)" using pend' [of k] upd [of i] inv i' by (simp add: core_inv_def)
  qed
  have cur: "\<forall>j \<in> L \<union> set F. is_current j ?q \<and> good_order j (at_id ?q j)"
    using inv good upd unfolding core_inv_def by simp
  have terms: "\<forall>j \<in> L. \<not> is_terminal (o_status (at_id ?q j))"
    "\<forall>j \<in> set F. is_terminal (o_status (at_id ?q j))"
    using inv open_ upd iF unfolding core_inv_def by auto
  have occ: "\<forall>t. slot_live ?q t \<longrightarrow> (\<exists>j \<in> L \<union> set F. slot_of j = t)"
    using inv unfolding core_inv_def by simp
  have "pool_inv ?q" "finite L" "distinct F" "L \<inter> set F = {}" "X' \<subseteq> set F"
    using inv X' unfolding core_inv_def by auto
  then show ?thesis
    unfolding core_inv_def using cur terms occ sums T' by - (intro conjI; assumption)
qed

lemma core_finish:
  assumes inv: "core_inv p L T X F pend" and i: "i \<in> L" and good: "good_order i ord"
    and closed: "is_terminal (o_status ord)" and T': "dom T' \<subseteq> L - {i}" and X': "X' \<subseteq> insert i X"
    and pend': "\<And>k. pend' k = pend k - contrib (at_id p i) k"
  shows "core_inv (pool_put (slot_of i) ord p) (L - {i}) T' X' (F @ [i]) pend'"
proof -
  let ?q = "pool_put (slot_of i) ord p"
  have i': "i \<in> L \<union> set F" using i by simp
  note upd = at_id_put [OF inv i', of _ ord]
  have iF: "i \<notin> set F" using inv i unfolding core_inv_def by blast
  have same: "(L - {i}) \<union> set (F @ [i]) = L \<union> set F" using i by auto
  have sums: "\<forall>k. pend' k = (\<Sum>j \<in> L - {i}. contrib (at_id ?q j) k)"
  proof
    fix k
    have "(\<Sum>j \<in> L - {i}. contrib (at_id ?q j) k) = (\<Sum>j \<in> L - {i}. contrib (at_id p j) k)"
      using upd by (intro sum.cong) auto
    also have "\<dots> = (\<Sum>j \<in> L. contrib (at_id p j) k) - contrib (at_id p i) k"
      using inv i by (simp add: sum_diff1 core_inv_def)
    finally show "pend' k = (\<Sum>j \<in> L - {i}. contrib (at_id ?q j) k)" using pend' [of k] inv by (simp add: core_inv_def)
  qed
  have cur: "\<forall>j \<in> L \<union> set F. is_current j ?q \<and> good_order j (at_id ?q j)"
    using inv good upd unfolding core_inv_def by simp
  have terms: "\<forall>j \<in> L - {i}. \<not> is_terminal (o_status (at_id ?q j))"
    "\<forall>j \<in> set (F @ [i]). is_terminal (o_status (at_id ?q j))"
    using inv closed upd iF i unfolding core_inv_def by auto
  have occ: "\<forall>t. slot_live ?q t \<longrightarrow> (\<exists>j \<in> L \<union> set F. slot_of j = t)"
    using inv unfolding core_inv_def by simp
  have "pool_inv ?q" "finite (L - {i})" "distinct (F @ [i])" "(L - {i}) \<inter> set (F @ [i]) = {}"
    "X' \<subseteq> set (F @ [i])"
    using inv iF X' unfolding core_inv_def by auto
  then show ?thesis
    unfolding core_inv_def same using cur terms occ sums T' by - (intro conjI; assumption)
qed

lemma core_trim:
  assumes inv: "core_inv p L T X (old # F) pend"
  obtains q where "release (slot_of old) p = Inr q" and "core_inv q L T (X - {old}) F pend"
    and "\<And>j. j \<in> L \<union> set F \<Longrightarrow> at_id q j = at_id p j" and "capacity q = capacity p"
proof -
  have mem: "old \<in> L \<union> set (old # F)" by simp
  have cur: "is_current old p" using core_current [OF inv mem] .
  then have live: "slot_live p (slot_of old)" by (simp add: is_current_iff)
  obtain q where q: "release (slot_of old) p = Inr q" "pool_inv q" "capacity q = capacity p"
      "generation q = (generation p)[slot_of old := generation p ! slot_of old + 1]"
      "allocated q = (allocated p)[slot_of old := False]" "slots q = slots p"
    using release_cases [OF core_pool [OF inv] live] by metis
  have at_q: "at_id q j = at_id p j" for j by (simp add: at_id_def pool_at_def q(6))
  have oldn: "old \<notin> L" "old \<notin> set F" using inv unfolding core_inv_def by auto
  have ne: "slot_of j \<noteq> slot_of old" if "j \<in> L \<union> set F" for j
    using core_slot_inj [OF inv _ mem, of j] that oldn by auto
  have len: "length (allocated p) = capacity p" "length (generation p) = capacity p"
    using core_pool [OF inv] by (auto simp: pool_inv_def)
  have sl: "slot_live q t \<longleftrightarrow> slot_live p t \<and> t \<noteq> slot_of old" for t
    using len core_capacity [OF inv mem] by (auto simp: slot_live_def q(3,5) nth_list_update)
  have "is_current j q" if "j \<in> L \<union> set F" for j
    using core_current [OF inv, of j] that ne [OF that] by (auto simp: is_current_iff sl q(4))
  then have cur': "\<forall>j \<in> L \<union> set F. is_current j q \<and> good_order j (at_id q j)"
    using inv unfolding core_inv_def at_q by simp
  have occ: "\<forall>t. slot_live q t \<longrightarrow> (\<exists>j \<in> L \<union> set F. slot_of j = t)"
    using inv unfolding core_inv_def sl by fastforce
  have "core_inv q L T (X - {old}) F pend"
    using inv q(2) cur' occ unfolding core_inv_def at_q by auto
  with q(1,3) at_q show thesis using that by blast
qed

lemma core_open:
  assumes inv: "core_inv p L T X F pend" and acq: "acquire p = Inr (slot, p1)"
    and id: "slot_of i = slot" "id_generation (decode_order_id i) = generation p1 ! slot"
    and good: "good_order i ord" and open_: "\<not> is_terminal (o_status ord)"
    and pend': "\<And>k. pend' k = pend k + contrib ord k"
  shows "core_inv (pool_put slot ord p1) (insert i L) T X F pend'"
    and "i \<notin> L \<union> set F" and "\<not> slot_live p slot"
proof -
  note a = acquire_cases [OF core_pool [OF inv] acq]
  let ?q = "pool_put slot ord p1"
  have len: "length (allocated p) = capacity p" "length (slots p) = capacity p"
    using core_pool [OF inv] by (auto simp: pool_inv_def)
  have sl: "slot_live p1 t \<longleftrightarrow> slot_live p t \<or> t = slot" for t
    using len a(2,3) by (auto simp: slot_live_def a(4,6) nth_list_update)
  show nl: "\<not> slot_live p slot" using a(3) by (simp add: slot_live_def)
  have cur: "is_current j p" "slot_of j \<noteq> slot" if "j \<in> L \<union> set F" for j
    using core_current [OF inv that] nl by (auto simp: is_current_iff)
  show fresh: "i \<notin> L \<union> set F" using cur(2) [of i] id(1) by auto
  have old: "at_id ?q j = at_id p j" if "j \<in> L \<union> set F" for j
    using cur(2) [OF that] by (simp add: at_id_def pool_at_put_other) (simp add: pool_at_def a(7))
  have new: "at_id ?q i = ord"
    using pool_at_put [OF a(1), of slot ord slot] a(2,4) id(1) by (simp add: at_id_def)
  have "is_current j ?q" if "j \<in> L \<union> set F" for j
    using cur(1) [OF that] by (simp add: is_current_iff sl a(5))
  moreover have "is_current i ?q" using id by (simp add: is_current_iff sl)
  ultimately have cur': "\<forall>j \<in> insert i L \<union> set F. is_current j ?q \<and> good_order j (at_id ?q j)"
    using inv old new good unfolding core_inv_def by auto
  have occ: "\<forall>t. slot_live ?q t \<longrightarrow> (\<exists>j \<in> insert i L \<union> set F. slot_of j = t)"
    using inv id(1) unfolding core_inv_def slot_live_put sl by blast
  have sums: "\<forall>k. pend' k = (\<Sum>j \<in> insert i L. contrib (at_id ?q j) k)"
  proof
    fix k
    have "(\<Sum>j \<in> insert i L. contrib (at_id ?q j) k) = contrib ord k + (\<Sum>j \<in> L. contrib (at_id ?q j) k)"
      using inv fresh new by (subst sum.insert) (auto simp: core_inv_def)
    also have "(\<Sum>j \<in> L. contrib (at_id ?q j) k) = (\<Sum>j \<in> L. contrib (at_id p j) k)"
      using old by (intro sum.cong) auto
    finally show "pend' k = (\<Sum>j \<in> insert i L. contrib (at_id ?q j) k)" using pend' [of k] inv by (simp add: core_inv_def)
  qed
  have terms: "\<forall>j \<in> insert i L. \<not> is_terminal (o_status (at_id ?q j))"
    "\<forall>j \<in> set F. is_terminal (o_status (at_id ?q j))"
    using inv open_ old new unfolding core_inv_def by auto
  have "pool_inv ?q" using a(1) by simp
  moreover have "finite (insert i L)" "distinct F" "insert i L \<inter> set F = {}" "dom T \<subseteq> insert i L"
    "X \<subseteq> set F"
    using inv fresh unfolding core_inv_def by auto
  ultimately show "core_inv ?q (insert i L) T X F pend'"
    unfolding core_inv_def using cur' occ sums terms by - (intro conjI; assumption)
qed

section \<open>Health handlers\<close>

text \<open>
  Every health handler is total on a registered venue and keeps the set of registered venues,
  the configuration and the clock.
\<close>

definition health_ok :: "VenueId \<Rightarrow> (HealthModel \<Rightarrow> HealthModel result) \<Rightarrow> bool" where
  "health_ok v f \<longleftrightarrow> (\<forall>h. v \<in> hm_registered h \<longrightarrow>
     (\<exists>h'. f h = Inr h' \<and> hm_registered h' = hm_registered h \<and> hm_cfg h' = hm_cfg h
           \<and> hm_clock h' = hm_clock h))"

lemma evaluate_frame [simp]:
  "hm_registered (evaluate i v now h) = insert i (hm_registered h)"
  "hm_cfg (evaluate i v now h) = hm_cfg h" "hm_clock (evaluate i v now h) = hm_clock h"
  by (auto simp: evaluate_def hm_registered_def Let_def)

lemma health_ok_evaluate:
  "health_ok v (\<lambda>h. ebind (must_get v h) (\<lambda>st. Inr (evaluate v (g h st) (now h) h)))"
  by (auto simp: health_ok_def must_get_def hm_registered_def evaluate_def Let_def)

lemma health_handlers_ok [simp]:
  "health_ok v (health_on_order_sent v t)" "health_ok v (health_on_ack v lat)"
  "health_ok v (health_on_reject v b)" "health_ok v (health_on_fill v)"
  "health_ok v (health_on_timeout v)" "health_ok v (health_on_disconnect v)"
  "health_ok v (health_on_reconnect v)"
  unfolding health_on_order_sent_def health_on_ack_def health_on_reject_def health_on_fill_def
    health_on_timeout_def health_on_disconnect_def health_on_reconnect_def Let_def
  by (rule health_ok_evaluate)+

lemma with_healthE:
  assumes "health_ok v f" and "v \<in> hm_registered (om_health s)"
  obtains h' where "with_health f s = Inr (s\<lparr>om_health := h'\<rparr>)"
    and "hm_registered h' = hm_registered (om_health s)"
  using assms by (auto simp: health_ok_def with_health_def)

section \<open>Moves of the manager\<close>

lemma om_inv_core: "om_inv s \<Longrightarrow> core_inv (om_pool s) (om_live s) (om_trade_ids s)
    (om_expected_fcr s) (om_retired_fifo s) (map_get 0 (om_pending_signed s))"
  by (simp add: om_inv_def)

lemma om_inv_venue: "om_inv s \<Longrightarrow> i \<in> om_live s \<Longrightarrow> venue_of i \<in> hm_registered (om_health s)"
  by (simp add: om_inv_def)

lemma om_inv_iter: "om_inv s \<Longrightarrow> set (om_live_iter s (om_live s)) = om_live s"
  by (simp add: om_inv_def core_inv_def)

lemma order_ref_at: "order_ref s i = at_id (om_pool s) i"
  by (simp add: order_ref_def at_id_def)

lemma om_inv_good: "om_inv s \<Longrightarrow> i \<in> om_live s \<Longrightarrow> good_order i (order_ref s i)"
  using om_inv_core [of s] unfolding core_inv_def order_ref_at by blast

lemma om_inv_open: "om_inv s \<Longrightarrow> i \<in> om_live s \<Longrightarrow> \<not> is_terminal (o_status (order_ref s i))"
  using om_inv_core [of s] unfolding core_inv_def order_ref_at by blast

lemma om_live_genuine: "om_inv s \<Longrightarrow> i \<in> om_live s \<Longrightarrow> genuine s i"
  using om_inv_good [of s i] by (simp add: genuine_def good_order_def)

lemma om_live_current: "om_inv s \<Longrightarrow> i \<in> om_live s \<Longrightarrow> is_current i (om_pool s)"
  using core_current [OF om_inv_core] by blast

lemma live_iff:
  assumes "om_inv s" and "genuine s i"
  shows "i \<in> om_live s \<longleftrightarrow> is_current i (om_pool s) \<and> \<not> is_terminal (o_status (order_ref s i))"
proof
  assume "is_current i (om_pool s) \<and> \<not> is_terminal (o_status (order_ref s i))"
  moreover from this have "i \<in> om_live s \<union> set (om_retired_fifo s)"
    using core_current_known [OF om_inv_core [OF assms(1)]] assms(2)
    by (simp add: genuine_def order_ref_at)
  ultimately show "i \<in> om_live s"
    using om_inv_core [OF assms(1)] unfolding core_inv_def order_ref_at by blast
qed (use assms om_inv_open om_live_current in blast)

lemma validate_ok_open:
  "validate i ev s = ValidOk \<Longrightarrow> is_current i (om_pool s) \<and> \<not> is_terminal (o_status (order_ref s i))"
  by (auto simp: validate_def Let_def split: if_splits)

lemma validate_ok_live:
  "om_inv s \<Longrightarrow> genuine s i \<Longrightarrow> validate i ev s = ValidOk \<Longrightarrow> i \<in> om_live s"
  using live_iff validate_ok_open by blast

text \<open>Updates of the fields the invariant does not read.\<close>

lemma om_inv_frame [simp]:
  "om_inv (om_log_line lv line s) = om_inv s"
  "om_inv (s\<lparr>om_reject_count := n\<rparr>) = om_inv s"
  "om_inv (s\<lparr>om_ack_timeout_count := n\<rparr>) = om_inv s"
  "om_inv (s\<lparr>om_unsolicited_cancel_count := n\<rparr>) = om_inv s"
  "om_inv (s\<lparr>om_oos_dropped_count := n\<rparr>) = om_inv s"
  "om_inv (s\<lparr>om_rebalance_incomplete := b\<rparr>) = om_inv s"
  "om_inv (s\<lparr>om_reconcile_requested := b\<rparr>) = om_inv s"
  "om_inv (s\<lparr>om_registry := r\<rparr>) = om_inv s"
  "om_inv (s\<lparr>om_unknown_fill_hardstop_threshold := n\<rparr>) = om_inv s"
  "om_inv (s\<lparr>om_unknown_fill_count := n\<rparr>) = om_inv s"
  "om_inv (trip_kill_switch why s) = om_inv s"
  by (simp_all add: om_inv_def om_log_line_def trip_kill_switch_def)

lemma om_inv_health [simp]:
  "hm_registered h' = hm_registered (om_health s) \<Longrightarrow> om_inv (s\<lparr>om_health := h'\<rparr>) = om_inv s"
  by (simp add: om_inv_def)

lemma om_inv_rewrite:
  assumes inv: "om_inv s" and i: "i \<in> om_live s" and good: "good_order i ord"
    and open_: "\<not> is_terminal (o_status ord)"
    and same: "\<And>k. contrib ord k = contrib (order_ref s i) k"
  shows "om_inv (put_order i ord s)"
proof -
  have "dom (om_trade_ids s) \<subseteq> om_live s"
    using om_inv_core [OF inv] by (simp add: core_inv_def)
  then have "core_inv (pool_put (slot_of i) ord (om_pool s)) (om_live s) (om_trade_ids s)
      (om_expected_fcr s) (om_retired_fifo s) (map_get 0 (om_pending_signed s))"
    using same by (intro core_rewrite [OF om_inv_core [OF inv] i good open_])
      (auto simp: order_ref_at)
  with inv show ?thesis by (simp add: om_inv_def put_order_def)
qed

text \<open>The shape of every state \<^verbatim>\<open>retire\<close> leaves.\<close>

abbreviation after_retire ::
  "OrderIdRaw \<Rightarrow> OrderPool \<Rightarrow> (InstrumentId \<rightharpoonup> Quantity) \<Rightarrow> OrderIdRaw set \<Rightarrow> OrderIdRaw list
     \<Rightarrow> 'e OrderManager \<Rightarrow> 'e OrderManager" where
  "after_retire i p pend X F s \<equiv> s\<lparr>om_pool := p, om_pending_signed := pend,
     om_trade_ids := (om_trade_ids s)(i := None), om_live := om_live s - {i},
     om_expected_fcr := X, om_retired_fifo := F\<rparr>"

text \<open>Retiring keeps the queue within the grace window and releases the order that falls out.\<close>

lemma retire_ok:
  assumes core: "core_inv (om_pool s) (om_live s - {i}) ((om_trade_ids s)(i := None))
      (om_expected_fcr s) (om_retired_fifo s @ [i])
      (\<lambda>k. map_get 0 (om_pending_signed s) k - (if k = inst \<and> 0 < rem then signed_qty sd rem else 0))"
    and i: "i \<in> om_live s"
    and len: "length (om_retired_fifo s) \<le> om_retired_grace s" and pos: "0 < om_retired_grace s"
    and iter: "\<forall>A. set (om_live_iter s A) = A"
    and reg: "set (om_router s) \<subseteq> hm_registered (om_health s)"
      "\<forall>j \<in> om_live s \<union> set (om_retired_fifo s). venue_of j \<in> hm_registered (om_health s)"
  obtains p X F pend where "retire i inst rem sd s = Inr (after_retire i p pend X F s)"
    and "om_inv (after_retire i p pend X F s)"
    and "\<And>k. map_get 0 pend k
        = map_get 0 (om_pending_signed s) k - (if k = inst \<and> 0 < rem then signed_qty sd rem else 0)"
    and "set F \<subseteq> set (om_retired_fifo s @ [i])"
    and "\<And>j. j \<in> (om_live s - {i}) \<union> set F \<Longrightarrow> at_id p j = at_id (om_pool s) j"
    and "i \<in> set F"
    and "X \<subseteq> om_expected_fcr s" and "om_expected_fcr s \<inter> set F \<subseteq> X"
proof -
  define pend where "pend = (if 0 < rem then map_upd 0 (\<lambda>q. q - signed_qty sd rem) (om_pending_signed s) inst
      else om_pending_signed s)"
  define res where "res = (\<lambda>p X F. after_retire i p pend X F s)"
  have pk: "map_get 0 pend k = map_get 0 (om_pending_signed s) k
      - (if k = inst \<and> 0 < rem then signed_qty sd rem else 0)" for k
    by (simp add: pend_def)
  have core': "core_inv (om_pool s) (om_live s - {i}) ((om_trade_ids s)(i := None))
      (om_expected_fcr s) (om_retired_fifo s @ [i]) (map_get 0 pend)"
    using core unfolding pk [abs_def] .
  have vens: "\<forall>j \<in> (om_live s - {i}) \<union> set F. venue_of j \<in> hm_registered (om_health s)"
    if "set F \<subseteq> set (om_retired_fifo s @ [i])" for F using that reg(2) i by auto
  show thesis
  proof (cases "length (om_retired_fifo s) < om_retired_grace s")
    case True
    then have "retire i inst rem sd s = Inr (res (om_pool s) (om_expected_fcr s) (om_retired_fifo s @ [i]))"
      by (cases s) (simp add: retire_def Let_def res_def pend_def)
    moreover have "om_inv (res (om_pool s) (om_expected_fcr s) (om_retired_fifo s @ [i]))"
      using core' iter reg(1) vens [of "om_retired_fifo s @ [i]"] True pos by (simp add: om_inv_def res_def)
    ultimately show thesis
      using that [OF _ _ pk, where p = "om_pool s" and X = "om_expected_fcr s"
          and F = "om_retired_fifo s @ [i]"]
      unfolding res_def by simp
  next
    case False
    obtain old F where F: "om_retired_fifo s @ [i] = old # F" by (cases "om_retired_fifo s") auto
    have sub: "set F \<subseteq> set (om_retired_fifo s @ [i])" unfolding F by auto
    from core_trim [OF core' [unfolded F]] obtain q where
      q: "release (slot_of old) (om_pool s) = Inr q"
        "core_inv q (om_live s - {i}) ((om_trade_ids s)(i := None)) (om_expected_fcr s - {old}) F (map_get 0 pend)"
        "\<And>j. j \<in> (om_live s - {i}) \<union> set F \<Longrightarrow> at_id q j = at_id (om_pool s) j" by metis
    have "is_current old (om_pool s)" using core_current [OF core', of old] unfolding F by simp
    then have ret: "retire i inst rem sd s = Inr (res q (om_expected_fcr s - {old}) F)"
      using False q(1) F by (cases s) (simp add: retire_def Let_def res_def pend_def)
    have "length F = length (om_retired_fifo s)" using arg_cong [OF F, of length] by simp
    moreover have "F \<noteq> [] \<Longrightarrow> i \<in> set F" using arg_cong [OF F, of last] by (auto split: if_splits)
    ultimately have mem: "i \<in> set F" using False pos by (cases "F = []") auto
    have "distinct (old # F)" using core' unfolding F by (simp add: core_inv_def)
    then have X: "om_expected_fcr s - {old} \<subseteq> om_expected_fcr s"
      "om_expected_fcr s \<inter> set F \<subseteq> om_expected_fcr s - {old}" by auto
    have "length F = length (om_retired_fifo s)" using arg_cong [OF F, of length] by simp
    then have "om_inv (res q (om_expected_fcr s - {old}) F)"
      using q(2) iter len pos reg(1) vens [OF sub] by (simp add: om_inv_def res_def)
    with ret show thesis using that [OF _ _ pk sub q(3) mem X] unfolding res_def by blast
  qed
qed

text \<open>An order of the live set becomes terminal and is retired.\<close>

lemma finish_ok:
  assumes inv: "om_inv s" and i: "i \<in> om_live s" and good: "good_order i ord"
    and closed: "is_terminal (o_status ord)"
    and t: "om_pool t = pool_put (slot_of i) ord (om_pool s)" "om_live t = om_live s"
      "om_retired_fifo t = om_retired_fifo s" "om_retired_grace t = om_retired_grace s"
      "om_live_iter t = om_live_iter s" "om_router t = om_router s"
      "hm_registered (om_health t) = hm_registered (om_health s)"
    and X: "om_expected_fcr t \<subseteq> insert i (om_expected_fcr s)"
    and T: "dom (om_trade_ids t) \<subseteq> om_live s"
    and pend: "\<And>k. map_get 0 (om_pending_signed t) k
        - (if k = inst \<and> 0 < rem then signed_qty sd rem else 0)
        = map_get 0 (om_pending_signed s) k - contrib (order_ref s i) k"
  obtains p X F pend where "retire i inst rem sd t = Inr (after_retire i p pend X F t)"
    and "om_inv (after_retire i p pend X F t)"
    and "\<And>k. map_get 0 pend k = map_get 0 (om_pending_signed s) k - contrib (order_ref s i) k"
    and "set F \<subseteq> insert i (set (om_retired_fifo s))"
    and "\<And>j. j \<in> om_live s - {i} \<Longrightarrow> at_id p j = at_id (om_pool s) j"
    and "at_id p i = ord" and "i \<in> set F"
    and "X \<subseteq> om_expected_fcr t" and "om_expected_fcr t \<inter> set F \<subseteq> X"
proof -
  let ?q = "pool_put (slot_of i) ord (om_pool s)"
  note core = om_inv_core [OF inv]
  have core': "core_inv ?q (om_live s - {i}) ((om_trade_ids t)(i := None)) (om_expected_fcr t)
      (om_retired_fifo s @ [i]) (\<lambda>k. map_get 0 (om_pending_signed t) k
        - (if k = inst \<and> 0 < rem then signed_qty sd rem else 0))"
    using T X pend by (intro core_finish [OF core i good closed]) (auto simp: order_ref_at)
  have upd: "at_id ?q j = (if j = i then ord else at_id (om_pool s) j)" if "j \<in> om_live s" for j
    using at_id_put [OF core, of i j ord] i that by simp
  have side: "length (om_retired_fifo t) \<le> om_retired_grace t"
    "\<forall>A. set (om_live_iter t A) = A" "set (om_router t) \<subseteq> hm_registered (om_health t)"
    "\<forall>j \<in> om_live t \<union> set (om_retired_fifo t). venue_of j \<in> hm_registered (om_health t)" "i \<in> om_live t"
    "0 < om_retired_grace t"
    using inv i by (simp_all add: om_inv_def t)
  obtain p X F pd where r: "retire i inst rem sd t = Inr (after_retire i p pd X F t)"
      "om_inv (after_retire i p pd X F t)"
      "\<And>k. map_get 0 pd k = map_get 0 (om_pending_signed t) k
          - (if k = inst \<and> 0 < rem then signed_qty sd rem else 0)"
      "set F \<subseteq> set (om_retired_fifo t @ [i])"
      "\<And>j. j \<in> (om_live t - {i}) \<union> set F \<Longrightarrow> at_id p j = at_id (om_pool t) j"
      "i \<in> set F"
      "X \<subseteq> om_expected_fcr t" "om_expected_fcr t \<inter> set F \<subseteq> X"
  proof (rule retire_ok [OF core' [folded t(1-3)] side(5,1,6,2,3,4)], goal_cases)
    case (1 p X F pd)
    from 1(2-) show ?case by (rule 1(1))
  qed
  note r' = r(3,4,5,6) [unfolded t]
  show thesis
  proof (rule that [OF r(1,2)])
    show "X \<subseteq> om_expected_fcr t" "om_expected_fcr t \<inter> set F \<subseteq> X" by (rule r(7,8))+
    show "map_get 0 pd k = map_get 0 (om_pending_signed s) k - contrib (order_ref s i) k" for k
      unfolding r'(1) by (rule pend)
    show "set F \<subseteq> insert i (set (om_retired_fifo s))" using r'(2) by simp
    show "at_id p j = at_id (om_pool s) j" if "j \<in> om_live s - {i}" for j
      using r'(3) [of j] upd [of j] that by simp
    show "i \<in> set F" by (rule r'(4))
    then show "at_id p i = ord" using r'(3) [of i] upd [OF i] by simp
  qed
qed

end
