(* ===== verification/OmPreserve.thy ===== *)
theory OmPreserve
  imports OmInvariant
begin

text \<open>
  Every operation of the order manager succeeds on a state of the invariant (no assertion of the
  pool or of the health model fails) and keeps the invariant. For the inbound handlers the
  lemmas say more: the new state in terms of the old one, branch by branch, which the
  functional properties of the next theory read off.
\<close>

section \<open>Cancelling\<close>

lemma good_order_upd [simp]:
  "good_order i (ord\<lparr>o_status := st\<rparr>) = good_order i ord"
  "good_order i (ord\<lparr>o_pending_cancel := b\<rparr>) = good_order i ord"
  "good_order i (ord\<lparr>o_ack_timed_out := b\<rparr>) = good_order i ord"
  "good_order i (ord\<lparr>o_exchange_id := x\<rparr>) = good_order i ord"
  "good_order i (ord\<lparr>o_ts := t\<rparr>) = good_order i ord"
  by (simp_all add: good_order_def)

lemma contrib_upd [simp]:
  "contrib (ord\<lparr>o_status := st\<rparr>) = contrib ord"
  "contrib (ord\<lparr>o_pending_cancel := b\<rparr>) = contrib ord"
  "contrib (ord\<lparr>o_ack_timed_out := b\<rparr>) = contrib ord"
  "contrib (ord\<lparr>o_exchange_id := x\<rparr>) = contrib ord"
  "contrib (ord\<lparr>o_ts := t\<rparr>) = contrib ord"
  by (rule ext, simp add: contrib_def remaining_def)+

lemma put_order_fields [simp]:
  "om_live (put_order i ord s) = om_live s" "om_live_iter (put_order i ord s) = om_live_iter s"
  "om_health (put_order i ord s) = om_health s" "om_registry (put_order i ord s) = om_registry s"
  "om_router (put_order i ord s) = om_router s" "om_log (put_order i ord s) = om_log s"
  "om_clock (put_order i ord s) = om_clock s" "om_positions (put_order i ord s) = om_positions s"
  "om_pending_signed (put_order i ord s) = om_pending_signed s"
  "om_trade_ids (put_order i ord s) = om_trade_ids s"
  "om_expected_fcr (put_order i ord s) = om_expected_fcr s"
  "om_retired_fifo (put_order i ord s) = om_retired_fifo s"
  "om_retired_grace (put_order i ord s) = om_retired_grace s"
  "om_killed (put_order i ord s) = om_killed s"
  "om_pool (put_order i ord s) = pool_put (slot_of i) ord (om_pool s)"
  by (simp_all add: put_order_def)

lemma om_log_line_fields [simp]:
  "om_live (om_log_line lv l s) = om_live s" "om_live_iter (om_log_line lv l s) = om_live_iter s"
  "om_health (om_log_line lv l s) = om_health s" "om_registry (om_log_line lv l s) = om_registry s"
  "om_router (om_log_line lv l s) = om_router s"
  "om_clock (om_log_line lv l s) = om_clock s" "om_positions (om_log_line lv l s) = om_positions s"
  "om_pending_signed (om_log_line lv l s) = om_pending_signed s"
  "om_trade_ids (om_log_line lv l s) = om_trade_ids s"
  "om_expected_fcr (om_log_line lv l s) = om_expected_fcr s"
  "om_retired_fifo (om_log_line lv l s) = om_retired_fifo s"
  "om_retired_grace (om_log_line lv l s) = om_retired_grace s"
  "om_killed (om_log_line lv l s) = om_killed s" "om_pool (om_log_line lv l s) = om_pool s"
  "om_oos_dropped_count (om_log_line lv l s) = om_oos_dropped_count s"
  "om_reject_count (om_log_line lv l s) = om_reject_count s"
  "om_unknown_fill_count (om_log_line lv l s) = om_unknown_fill_count s"
  "om_unknown_fill_hardstop_threshold (om_log_line lv l s) = om_unknown_fill_hardstop_threshold s"
  "order_ref (om_log_line lv l s) i = order_ref s i"
  by (simp_all add: om_log_line_def order_ref_def)

lemma order_ref_pool: "om_pool t = om_pool s \<Longrightarrow> order_ref t i = order_ref s i"
  by (simp add: order_ref_def)

lemma order_ref_put:
  assumes "om_inv s" and "i \<in> om_live s"
  shows "order_ref (put_order i ord s) i = ord"
  using at_id_put [OF om_inv_core [OF assms(1)], of i i ord] assms(2) by (simp add: order_ref_at)

lemma order_ref_put_other:
  assumes "om_inv s" and "i \<in> om_live s" and "j \<in> om_live s" and "j \<noteq> i"
  shows "order_ref (put_order i ord s) j = order_ref s j"
  using at_id_put [OF om_inv_core [OF assms(1)], of i j ord] assms(2-4) by (simp add: order_ref_at)

lemma mark_cancel_inv: "om_inv s \<Longrightarrow> i \<in> om_live s \<Longrightarrow> om_inv (mark_cancel_sent i s)"
  unfolding mark_cancel_sent_def
  by (rule om_inv_rewrite) (simp_all add: om_inv_good)

lemma mark_cancel_live [simp]: "om_live (mark_cancel_sent i s) = om_live s"
  by (simp add: mark_cancel_sent_def)

lemma call_cancelE:
  obtains r ex' where "call_cancel ops i ex s
      = (r, s\<lparr>om_registry := registry_put (venue_of i) ex' (om_registry s)\<rparr>)"
    and "ec_cancel_order ops i (o_exchange_id (order_ref s i)) ex = (r, ex')"
  by (cases "ec_cancel_order ops i (o_exchange_id (order_ref s i)) ex") (simp add: call_cancel_def)

lemma cancel_working_one_inv:
  assumes "om_inv s" and "i \<in> om_live s"
  shows "om_inv (cancel_working_one ops s i) \<and> om_live (cancel_working_one ops s i) = om_live s"
proof (cases "registry_get (om_registry s) (venue_of i)")
  case (Some ex)
  obtain r ex' where c: "call_cancel ops i ex s
      = (r, s\<lparr>om_registry := registry_put (venue_of i) ex' (om_registry s)\<rparr>)" by (rule call_cancelE)
  show ?thesis
    using assms Some c by (simp add: cancel_working_one_def Let_def mark_cancel_inv)
qed (use assms in \<open>simp add: cancel_working_one_def Let_def\<close>)

lemma cancel_working_orders_inv:
  assumes "om_inv s"
  shows "om_inv (cancel_working_orders ops s) \<and> om_live (cancel_working_orders ops s) = om_live s"
  unfolding cancel_working_orders_def
  by (rule foldl_preserves) (use assms cancel_working_one_inv om_inv_iter in force)+

lemma cancel_inv:
  assumes "om_inv s" and "genuine s i"
  shows "om_inv (snd (cancel ops i s)) \<and> om_live (snd (cancel ops i s)) = om_live s"
proof (cases "is_current i (om_pool s) \<and> \<not> is_terminal (o_status (order_ref s i))")
  case True
  with assms have i: "i \<in> om_live s" by (simp add: live_iff)
  show ?thesis
  proof (cases "registry_get (om_registry s) (venue_of i)")
    case (Some ex)
    obtain r ex' where c: "call_cancel ops i ex s
        = (r, s\<lparr>om_registry := registry_put (venue_of i) ex' (om_registry s)\<rparr>)" by (rule call_cancelE)
    show ?thesis using True Some c assms(1) i by (simp add: cancel_def mark_cancel_inv)
  qed (use True assms in \<open>simp add: cancel_def\<close>)
qed (use assms in \<open>auto simp: cancel_def\<close>)

section \<open>Submitting\<close>

lemma fill_in_orderE:
  assumes "0 \<le> rq_worker_offset req" and "rq_worker_offset req < 4"
  obtains ord' where "fill_in_order req i now ord = Inr ord'" and "o_internal_id ord' = i"
    and "o_size ord' = rq_size req" and "o_filled_size ord' = 0" and "o_status ord' = New"
    and "o_instrument ord' = rq_instrument req" and "o_side ord' = rq_side req"
    and "o_pending_cancel ord' = o_pending_cancel ord" and "o_exchange_id ord' = o_exchange_id ord"
    and "o_limit_price ord' = rq_price req" and "o_type ord' = rq_type req"
  using assms by (simp add: fill_in_order_def store_int_data_def kScratchSlots_def nat_less_iff)

definition valid_request :: "OrderRequest \<Rightarrow> bool" where
  "valid_request req \<longleftrightarrow> 0 \<le> rq_size req \<and> 0 \<le> rq_worker_offset req \<and> rq_worker_offset req < 4"

text \<open>What reserving an order does: a new id, fresh among all known ids, whose order is \<open>New\<close>.\<close>

lemma reserve_order_ok:
  assumes inv: "om_inv s" and room: "\<not> pool_full (om_pool s)" and req: "valid_request req"
    and ven: "venue \<in> hm_registered (om_health s)"
  obtains i s' ord where "reserve_order req venue s = Inr (i, s')" and "om_inv s'"
    and "i \<notin> om_live s \<union> set (om_retired_fifo s)" and "\<not> is_current i (om_pool s)"
    and "om_live s' = insert i (om_live s)" and "order_ref s' i = ord"
    and "o_size ord = rq_size req" and "o_filled_size ord = 0" and "o_status ord = New"
    and "o_instrument ord = rq_instrument req" and "o_side ord = rq_side req"
    and "o_internal_id ord = i" and "venue_of i = venue"
    and "\<And>k. pending_quantity s' k = pending_quantity s k
            + (if k = rq_instrument req then signed_qty (rq_side req) (rq_size req) else 0)"
    and "\<And>k. position s' k = position s k" and "om_registry s' = om_registry s"
    and "om_health s' = om_health s" and "om_clock s' = om_clock s" and "om_router s' = om_router s"
    and "om_killed s' = om_killed s" and "om_live_iter s' = om_live_iter s"
    and "om_trade_ids s' = om_trade_ids s" and "om_expected_fcr s' = om_expected_fcr s"
    and "\<And>j. j \<in> om_live s \<union> set (om_retired_fifo s) \<Longrightarrow> order_ref s' j = order_ref s j"
    and "om_retired_fifo s' = om_retired_fifo s" and "om_retired_grace s' = om_retired_grace s"
    and "o_limit_price ord = rq_price req"
proof -
  note core = om_inv_core [OF inv]
  obtain slot p where acq: "acquire (om_pool s) = Inr (slot, p)"
    using acquire_ok [OF core_pool [OF core] room] by blast
  note a = acquire_cases [OF core_pool [OF core] acq]
  define seq where "seq = map_get 0 (om_venue_seq s) venue + 1"
  define i where "i = encode_order_id venue (generation p ! slot) (word_of_nat slot) (ucast seq)"
  obtain ord where ord: "fill_in_order req i (om_clock s) (pool_at p slot) = Inr ord"
      "o_internal_id ord = i" "o_size ord = rq_size req" "o_filled_size ord = 0" "o_status ord = New"
      "o_instrument ord = rq_instrument req" "o_side ord = rq_side req" "o_limit_price ord = rq_price req"
    using fill_in_orderE req unfolding valid_request_def by metis
  define s' where "s' = s\<lparr>om_pool := pool_put slot ord p,
      om_venue_seq := (om_venue_seq s)(venue \<mapsto> seq),
      om_positions := (case om_positions s (rq_instrument req) of
          None \<Rightarrow> (om_positions s)(rq_instrument req \<mapsto> empty_position) | Some _ \<Rightarrow> om_positions s),
      om_pending_signed := map_upd 0 (\<lambda>q. q + signed_qty (rq_side req) (rq_size req))
          (om_pending_signed s) (rq_instrument req),
      om_live := insert i (om_live s)\<rparr>"
  have res: "reserve_order req venue s = Inr (i, s')"
    using acq ord(1) by (simp add: reserve_order_def Let_def i_def seq_def s'_def)
  have "slot < 2 ^ 24" using a(2) core_pool [OF core] by (simp add: pool_inv_def)
  then have slot: "slot_of i = slot" by (simp add: i_def slot_of_encode)
  have idg: "id_generation (decode_order_id i) = generation p ! slot" by (simp add: i_def)
  have ven_i: "venue_of i = venue" by (simp add: venue_of_def i_def)
  have good: "good_order i ord" using req ord by (simp add: good_order_def valid_request_def)
  have pend: "map_get 0 (om_pending_signed s') k = map_get 0 (om_pending_signed s) k + contrib ord k" for k
    using ord by (simp add: s'_def contrib_def remaining_def)
  have open_: "\<not> is_terminal (o_status ord)" using ord(5) by simp
  note moved = core_open [OF core acq slot idg good open_ pend]
  have f: "om_pool s' = pool_put slot ord p" "om_live s' = insert i (om_live s)"
      "om_trade_ids s' = om_trade_ids s" "om_expected_fcr s' = om_expected_fcr s"
      "om_retired_fifo s' = om_retired_fifo s" "om_retired_grace s' = om_retired_grace s"
      "om_live_iter s' = om_live_iter s" "om_router s' = om_router s" "om_health s' = om_health s"
    by (simp_all add: s'_def)
  have "om_inv s'"
    using inv moved(1) ven unfolding om_inv_def f by (simp add: ven_i)
  moreover have at: "pool_at (pool_put slot ord p) t = (if t = slot then ord else pool_at (om_pool s) t)" for t
    using pool_at_put [OF a(1)] a(2,4) by (simp add: pool_at_def a(7) )
  moreover have "slot_of j \<noteq> slot" if "j \<in> om_live s \<union> set (om_retired_fifo s)" for j
    using core_current [OF core that] moved(3) by (auto simp: is_current_iff)
  moreover have "\<not> is_current i (om_pool s)" using moved(3) slot by (simp add: is_current_iff)
  ultimately show thesis
    using that [OF res, of ord] moved(2) ord ven_i slot pend
    by (simp add: s'_def order_ref_def position_def pending_quantity_def map_get_def contrib_def
        remaining_def split: option.splits)
qed

lemma place_reserved_ok:
  assumes inv: "om_inv s" and i: "i \<in> om_live s" and req: "valid_request req"
    and ord: "o_size (order_ref s i) = rq_size req" "o_filled_size (order_ref s i) = 0"
      "o_instrument (order_ref s i) = rq_instrument req" "o_side (order_ref s i) = rq_side req"
    and ven: "venue_of i = venue" and call: "ec_place_order ops (order_ref s i) ex = (r, ex')"
  obtains (sent) s' where "r = SendOk" and "place_reserved ops req venue ex i s = Inr (i, s')"
      and "om_inv s'" and "om_live s' = om_live s"
      and "order_ref s' i = (order_ref s i)\<lparr>o_status := Sent,
             o_ts := (o_ts (order_ref s i))\<lparr>ts_sent := om_clock s\<rparr>\<rparr>"
      and "\<And>j. j \<in> om_live s \<Longrightarrow> j \<noteq> i \<Longrightarrow> order_ref s' j = order_ref s j"
      and "om_registry s' = registry_put venue ex' (om_registry s)"
      and "om_pending_signed s' = om_pending_signed s" and "om_positions s' = om_positions s"
      and "om_killed s' = om_killed s" and "om_trade_ids s' = om_trade_ids s"
      and "om_retired_fifo s' = om_retired_fifo s"
  | (refused) s' where "r \<noteq> SendOk" and "place_reserved ops req venue ex i s = Inr (0, s')"
      and "om_inv s'" and "om_live s' = om_live s - {i}"
      and "om_registry s' = registry_put venue ex' (om_registry s)"
      and "\<And>k. pending_quantity s' k = pending_quantity s k - contrib (order_ref s i) k"
      and "om_positions s' = om_positions s" and "om_killed s' = om_killed s"
      and "\<And>j. j \<in> om_live s \<Longrightarrow> j \<noteq> i \<Longrightarrow> order_ref s' j = order_ref s j"
proof -
  define s1 where "s1 = s\<lparr>om_registry := registry_put venue ex' (om_registry s)\<rparr>"
  have vreg: "venue \<in> hm_registered (om_health s)" using om_inv_venue [OF inv i] ven by simp
  have hs1: "om_health s1 = om_health s" by (simp add: s1_def)
  obtain h where h: "with_health (health_on_order_sent venue (om_clock s)) s1 = Inr (s1\<lparr>om_health := h\<rparr>)"
      "hm_registered h = hm_registered (om_health s)"
    using with_healthE [OF health_handlers_ok(1), of venue s1] vreg unfolding hs1 by blast
  define s2 where "s2 = s1\<lparr>om_health := h\<rparr>"
  have s2: "om_inv s2" "om_live s2 = om_live s" "order_ref s2 i = order_ref s i"
    using inv h(2) by (simp_all add: s2_def s1_def order_ref_def)
  show thesis
  proof (cases "r = SendOk")
    case True
    define s3 where "s3 = put_order i ((order_ref s2 i)\<lparr>o_status := Sent,
        o_ts := (o_ts (order_ref s2 i))\<lparr>ts_sent := om_clock s\<rparr>\<rparr>) s2"
    have "place_reserved ops req venue ex i s = Inr (i, s3)"
      using True call h(1) by (simp add: place_reserved_def Let_def s1_def s2_def s3_def)
    moreover have "om_inv s3"
      unfolding s3_def using s2 i om_inv_good [OF s2(1), of i] by (intro om_inv_rewrite) simp_all
    moreover have "order_ref s3 i = (order_ref s i)\<lparr>o_status := Sent,
        o_ts := (o_ts (order_ref s i))\<lparr>ts_sent := om_clock s\<rparr>\<rparr>"
      using s2 i by (simp add: s3_def order_ref_put)
    moreover have "order_ref s3 j = order_ref s j" if "j \<in> om_live s" "j \<noteq> i" for j
      using s2 i that order_ref_put_other [OF s2(1), of i j] by (simp add: s3_def s2_def s1_def order_ref_def)
    ultimately show thesis using sent True by (simp add: s3_def s2_def s1_def)
  next
    case False
    let ?o = "(order_ref s2 i)\<lparr>o_status := Rejected\<rparr>"
    define s3 where "s3 = (put_order i ?o s2)\<lparr>om_reject_count := om_reject_count s2 + 1\<rparr>"
    have "venue \<in> hm_registered (om_health s3)" using vreg h(2) by (simp add: s3_def s2_def)
    then obtain h' where h': "with_health (health_on_reject venue False) s3 = Inr (s3\<lparr>om_health := h'\<rparr>)"
        "hm_registered h' = hm_registered (om_health s3)"
      using with_healthE [OF health_handlers_ok(3)] by blast
    define s4 where "s4 = om_log_line Warn (''place_order local reject: internal_id='' @ id_str i)
        (s3\<lparr>om_health := h'\<rparr>)"
    have good: "good_order i ?o" using om_inv_good [OF s2(1), of i] i s2(2) by simp
    obtain p X F pend where r: "retire i (rq_instrument req) (rq_size req) (rq_side req) s4
          = Inr (after_retire i p pend X F s4)"
        "om_inv (after_retire i p pend X F s4)"
        "\<And>k. map_get 0 pend k = map_get 0 (om_pending_signed s2) k - contrib (order_ref s2 i) k"
        "\<And>j. j \<in> om_live s2 - {i} \<Longrightarrow> at_id p j = at_id (om_pool s2) j"
    proof (rule finish_ok [OF s2(1) _ good, where t = s4 and inst = "rq_instrument req"
          and rem = "rq_size req" and sd = "rq_side req"])
      show "dom (om_trade_ids s4) \<subseteq> om_live s2"
        using om_inv_core [OF s2(1)] by (simp add: s4_def s3_def core_inv_def)
      show "map_get 0 (om_pending_signed s4) k - (if k = rq_instrument req \<and> 0 < rq_size req
          then signed_qty (rq_side req) (rq_size req) else 0)
        = map_get 0 (om_pending_signed s2) k - contrib (order_ref s2 i) k" for k
        using req ord by (auto simp: s4_def s3_def s2(3) contrib_def remaining_def valid_request_def)
    qed (use i s2(2) h'(2) in \<open>auto simp: s4_def s3_def\<close>)
    have "place_reserved ops req venue ex i s = Inr (0, after_retire i p pend X F s4)"
      using False call h(1) h'(1) r(1)
      by (simp add: place_reserved_def Let_def s1_def [symmetric] s2_def [symmetric] del: append.simps)
        (simp add: s3_def [symmetric] s4_def [symmetric] del: append.simps)
    moreover have "order_ref (after_retire i p pend X F s4) j = order_ref s j"
      if "j \<in> om_live s" "j \<noteq> i" for j
      using r(4) [of j] that s2(2) by (simp add: order_ref_at) (simp add: s2_def s1_def)
    ultimately show thesis
      using r(2,3) refused False by (simp add: s4_def s3_def s2_def s1_def pending_quantity_def order_ref_def)
  qed
qed

lemma pending_other: "om_pending_signed t = om_pending_signed s \<Longrightarrow> pending_quantity t = pending_quantity s"
  by (rule ext) (simp add: pending_quantity_def)

text \<open>The six ways \<^verbatim>\<open>submit\<close> can end.\<close>

lemma submit_cases:
  assumes inv: "om_inv s" and req: "valid_request req"
  obtains (killed) "om_killed s" and "submit ops req s
        = Inr (0, om_log_line LogError ''submit rejected: kill switch active'' s)"
  | (all_down) line where "\<not> om_killed s" and "\<forall>v \<in> set (om_router s). \<not> venue_up (om_health s) v"
      and "submit ops req s = Inr (0, cancel_working_orders ops
             (om_log_line LogError line (s\<lparr>om_rebalance_incomplete := True\<rparr>)))"
  | (no_client) venue where "\<not> om_killed s" and "venue \<in> set (om_router s)"
      and "venue_up (om_health s) venue" and "registry_get (om_registry s) venue = None"
      and "submit ops req s = Inr (0, om_log_line LogError
             (''submit rejected: no client for venue='' @ to_string (uint venue)) s)"
  | (exhausted) why venue where "\<not> om_killed s" and "pool_full (om_pool s)"
      and "venue \<in> set (om_router s)" and "venue_up (om_health s) venue"
      and "submit ops req s = Inr (0, trip_kill_switch why s)"
  | (placed) venue ex i s1 r ex' s' where "\<not> om_killed s" and "venue \<in> set (om_router s)"
      and "venue_up (om_health s) venue" and "registry_get (om_registry s) venue = Some ex"
      and "reserve_order req venue s = Inr (i, s1)"
      and "ec_place_order ops (order_ref s1 i) ex = (r, ex')"
      and "place_reserved ops req venue ex i s1 = submit ops req s"
      and "\<not> pool_full (om_pool s)" and "venue \<in> hm_registered (om_health s)"
proof -
  have routed: "set (om_router s) \<subseteq> hm_registered (om_health s)" using inv by (simp add: om_inv_def)
  obtain v where v: "router_select (om_router s) (om_health s) (rq_instrument req) (rq_side req) (rq_size req) = Inr v"
      "breaker.select_ok (om_health s) (om_router s) v"
    using router_select_total [OF routed] by blast
  show thesis
  proof (cases "om_killed s")
    case True
    then show thesis using killed by (simp add: submit_def)
  next
    case nk: False
    show thesis
    proof (cases v)
      case None
      have "submit ops req s = Inr (0, cancel_working_orders ops
          (om_log_line LogError
            (''ALL-DOWN: no tradeable venue for instrument='' @ to_string (uint (rq_instrument req))
             @ ''; not submitting, cancelling working orders, cycle marked incomplete'')
            (s\<lparr>om_rebalance_incomplete := True\<rparr>)))"
        using nk v None by (simp add: submit_def del: append.simps)
      then show thesis
        using all_down [OF nk] v None by (simp add: breaker.select_ok_def)
    next
      case (Some venue)
      note up = router_select_mem [OF v(1) [unfolded Some] routed]
      show thesis
      proof (cases "registry_get (om_registry s) venue")
        case None
        then show thesis using no_client [OF nk up None] nk v Some by (simp add: submit_def del: append.simps)
      next
        case ex: (Some ex)
        show thesis
        proof (cases "pool_full (om_pool s)")
          case True
          then show thesis using exhausted [OF nk True up] nk v Some ex
            by (simp add: submit_def pool_full_def del: append.simps)
        next
          case room: False
          have venr: "venue \<in> hm_registered (om_health s)" using up(1) routed by blast
          obtain i s1 where res: "reserve_order req venue s = Inr (i, s1)"
            using reserve_order_ok [OF inv room req venr] by blast
          obtain r ex' where "ec_place_order ops (order_ref s1 i) ex = (r, ex')" by fastforce
          moreover have "place_reserved ops req venue ex i s1 = submit ops req s"
            using nk v Some ex room res by (simp add: submit_def pool_full_def del: append.simps)
          ultimately show thesis using placed nk up ex res room venr by blast
        qed
      qed
    qed
  qed
qed

lemma cancel_working_killed [simp]: "om_killed (cancel_working_orders ops t) = om_killed t"
  unfolding cancel_working_orders_def
  by (rule foldl_preserves [where P = "\<lambda>u. om_killed u = om_killed t"])
    (auto simp: cancel_working_one_def Let_def call_cancel_def mark_cancel_sent_def
       split: option.splits prod.splits)

text \<open>A placed order: accepted by the client and working, or refused and retired again.\<close>

lemma submit_ok:
  assumes inv: "om_inv s" and req: "valid_request req"
  obtains j s' where "submit ops req s = Inr (j, s')" and "om_inv s'"
proof (rule submit_cases [OF inv req, of ops])
  fix venue ex i s1 r ex'
  assume a: "reserve_order req venue s = Inr (i, s1)" "ec_place_order ops (order_ref s1 i) ex = (r, ex')"
    "place_reserved ops req venue ex i s1 = submit ops req s"
    "\<not> pool_full (om_pool s)" "venue \<in> hm_registered (om_health s)"
  obtain i' s1' ord where res: "reserve_order req venue s = Inr (i', s1')" "om_inv s1'"
      "om_live s1' = insert i' (om_live s)" "order_ref s1' i' = ord" "o_size ord = rq_size req"
      "o_filled_size ord = 0" "o_instrument ord = rq_instrument req" "o_side ord = rq_side req"
      "venue_of i' = venue"
    using reserve_order_ok [OF inv a(4) req a(5)] by metis
  with a(1) have "i' = i" "s1' = s1" by simp_all
  with res have "om_inv s1" "i \<in> om_live s1" "o_size (order_ref s1 i) = rq_size req"
    "o_filled_size (order_ref s1 i) = 0" "o_instrument (order_ref s1 i) = rq_instrument req"
    "o_side (order_ref s1 i) = rq_side req" "venue_of i = venue" by auto
  note pl = place_reserved_ok [OF this(1,2) req this(3-7) a(2)]
  have "\<exists>j s'. submit ops req s = Inr (j, s') \<and> om_inv s'"
    unfolding a(3) [symmetric] by (rule pl) blast+
  then show thesis using that by blast
next
  fix line
  assume sub: "submit ops req s = Inr (0, cancel_working_orders ops
      (om_log_line LogError line (s\<lparr>om_rebalance_incomplete := True\<rparr>)))"
  have "om_inv (om_log_line LogError line (s\<lparr>om_rebalance_incomplete := True\<rparr>))" using inv by simp
  with sub show thesis using that cancel_working_orders_inv by blast
qed (use inv that in auto)

section \<open>Dropped events\<close>

lemma log_rejection_line: "\<exists>line. log_rejection i k vr ts s = om_log_line LogError line s"
  unfolding log_rejection_def Let_def by blast

lemma drop_event_form:
  obtains line where "drop_event i k vr ts s
    = (om_log_line LogError line s)\<lparr>om_oos_dropped_count := om_oos_dropped_count s + 1\<rparr>"
proof -
  obtain line where "log_rejection i k vr ts s = om_log_line LogError line s"
    using log_rejection_line by blast
  then show thesis using that by (simp add: drop_event_def om_log_line_def)
qed

lemma drop_event_frame [simp]:
  "om_inv (drop_event i k vr ts s) = om_inv s"
  "om_live (drop_event i k vr ts s) = om_live s"
  "om_pool (drop_event i k vr ts s) = om_pool s"
  "om_positions (drop_event i k vr ts s) = om_positions s"
  "om_pending_signed (drop_event i k vr ts s) = om_pending_signed s"
  "om_trade_ids (drop_event i k vr ts s) = om_trade_ids s"
  "om_health (drop_event i k vr ts s) = om_health s"
  "om_killed (drop_event i k vr ts s) = om_killed s"
  "om_expected_fcr (drop_event i k vr ts s) = om_expected_fcr s"
  "om_registry (drop_event i k vr ts s) = om_registry s"
  "om_reject_count (drop_event i k vr ts s) = om_reject_count s"
  "om_retired_fifo (drop_event i k vr ts s) = om_retired_fifo s"
  "om_oos_dropped_count (drop_event i k vr ts s) = om_oos_dropped_count s + 1"
  "om_unknown_fill_count (drop_event i k vr ts s) = om_unknown_fill_count s"
  "om_unknown_fill_hardstop_threshold (drop_event i k vr ts s) = om_unknown_fill_hardstop_threshold s"
  by (rule drop_event_form [of i k vr ts s], simp add: om_log_line_def om_inv_def)+

lemma drop_event_order_ref [simp]: "order_ref (drop_event i k vr ts s) j = order_ref s j"
  by (simp add: order_ref_def)

lemma trip_fields [simp]:
  "om_live (trip_kill_switch why s) = om_live s" "om_pool (trip_kill_switch why s) = om_pool s"
  "om_positions (trip_kill_switch why s) = om_positions s"
  "om_pending_signed (trip_kill_switch why s) = om_pending_signed s"
  "om_trade_ids (trip_kill_switch why s) = om_trade_ids s"
  "om_health (trip_kill_switch why s) = om_health s" "om_killed (trip_kill_switch why s)"
  "om_retired_fifo (trip_kill_switch why s) = om_retired_fifo s"
  "om_registry (trip_kill_switch why s) = om_registry s"
  "om_oos_dropped_count (trip_kill_switch why s) = om_oos_dropped_count s"
  "om_unknown_fill_count (trip_kill_switch why s) = om_unknown_fill_count s"
  "om_unknown_fill_hardstop_threshold (trip_kill_switch why s) = om_unknown_fill_hardstop_threshold s"
  by (simp_all add: trip_kill_switch_def)

lemma reject_fill_frame [simp]:
  "om_inv (reject_fill i vr ts s) = om_inv s"
  "om_live (reject_fill i vr ts s) = om_live s"
  "om_pool (reject_fill i vr ts s) = om_pool s"
  "om_positions (reject_fill i vr ts s) = om_positions s"
  "om_pending_signed (reject_fill i vr ts s) = om_pending_signed s"
  "om_trade_ids (reject_fill i vr ts s) = om_trade_ids s"
  by (simp_all add: reject_fill_def Let_def del: append.simps)

section \<open>Fills\<close>

lemma filled_order_fields:
  "o_filled_size (filled_order q pr ts ord) = o_filled_size ord + q"
  "o_size (filled_order q pr ts ord) = o_size ord"
  "o_instrument (filled_order q pr ts ord) = o_instrument ord"
  "o_side (filled_order q pr ts ord) = o_side ord"
  "o_internal_id (filled_order q pr ts ord) = o_internal_id ord"
  "o_pending_cancel (filled_order q pr ts ord) = o_pending_cancel ord"
  "o_total_fill_amount (filled_order q pr ts ord) = o_total_fill_amount ord + q * pr"
  "o_status (filled_order q pr ts ord)
     = (if o_filled_size ord + q = o_size ord then Filled else PartiallyFilled)"
  by (simp_all add: filled_order_def Let_def)

lemma validate_fill_ok:
  assumes "validate i \<lparr>cx_kind = KFill, cx_trade_id = trade, cx_qty = qty, cx_price = price\<rparr> s = ValidOk"
  shows "0 < qty" and "0 < price" and "qty \<le> remaining (order_ref s i)"
    and "trade \<notin> map_get {} (om_trade_ids s) i"
  using assms by (auto simp: validate_def Let_def map_get_def split: if_splits option.splits)

lemma book_fill_fields [simp]:
  "om_pool (book_fill i q pr tr ts s) = pool_put (slot_of i) (filled_order q pr ts (order_ref s i)) (om_pool s)"
  "om_live (book_fill i q pr tr ts s) = om_live s"
  "om_live_iter (book_fill i q pr tr ts s) = om_live_iter s"
  "om_health (book_fill i q pr tr ts s) = om_health s"
  "om_router (book_fill i q pr tr ts s) = om_router s"
  "om_expected_fcr (book_fill i q pr tr ts s) = om_expected_fcr s"
  "om_retired_fifo (book_fill i q pr tr ts s) = om_retired_fifo s"
  "om_retired_grace (book_fill i q pr tr ts s) = om_retired_grace s"
  "om_killed (book_fill i q pr tr ts s) = om_killed s"
  "om_trade_ids (book_fill i q pr tr ts s) = map_upd {} (insert tr) (om_trade_ids s) i"
  "om_positions (book_fill i q pr tr ts s) = map_upd empty_position
     (pos_apply (signed_qty (o_side (order_ref s i)) q) pr ts 0) (om_positions s)
     (o_instrument (order_ref s i))"
  "om_pending_signed (book_fill i q pr tr ts s) = map_upd 0
     (\<lambda>r. r - signed_qty (o_side (order_ref s i)) q) (om_pending_signed s)
     (o_instrument (order_ref s i))"
  by (simp_all add: book_fill_def Let_def)

text \<open>
  An accepted fill: what subscribers see (\<open>s1\<close>) and what is left afterwards (\<open>s2\<close>), for a fill
  that leaves the order working and for the one that completes it.
\<close>

lemma on_fill_cases:
  fixes s :: "'e OrderManager" and i :: OrderIdRaw and qty price ts :: int and trade :: TradeId
  assumes inv: "om_inv s" and gen: "genuine s i"
  defines "ord \<equiv> order_ref s i" and "ord' \<equiv> filled_order qty price ts (order_ref s i)"
  obtains (dropped) vr where "vr \<noteq> ValidOk"
      and "validate i \<lparr>cx_kind = KFill, cx_trade_id = trade, cx_qty = qty, cx_price = price\<rparr> s = vr"
      and "on_fill i qty price trade ts s = Inr (reject_fill i vr ts s, [])"
  | (partial) s1 where "i \<in> om_live s" and "0 < qty" and "0 < price" and "qty < remaining ord"
      and "trade \<notin> map_get {} (om_trade_ids s) i"
      and "on_fill i qty price trade ts s
            = Inr (s1, [(mk_event EvPartialFill i ord' qty price ReasonUnknown ts, s1)])"
      and "om_inv s1" and "order_ref s1 i = ord'" and "om_live s1 = om_live s"
      and "om_positions s1 = om_positions (book_fill i qty price trade ts s)"
      and "om_pending_signed s1 = om_pending_signed (book_fill i qty price trade ts s)"
      and "om_trade_ids s1 = om_trade_ids (book_fill i qty price trade ts s)"
      and "\<And>j. j \<in> om_live s \<Longrightarrow> j \<noteq> i \<Longrightarrow> order_ref s1 j = order_ref s j"
      and "om_killed s1 = om_killed s"
  | (completed) s1 s2 where "i \<in> om_live s" and "0 < qty" and "0 < price" and "qty = remaining ord"
      and "trade \<notin> map_get {} (om_trade_ids s) i"
      and "on_fill i qty price trade ts s
            = Inr (s2, [(mk_event EvFill i ord' qty price ReasonUnknown ts, s1)])"
      and "om_inv s2" and "order_ref s1 i = ord'" and "om_live s2 = om_live s - {i}"
      and "om_positions s1 = om_positions (book_fill i qty price trade ts s)"
      and "om_pending_signed s1 = om_pending_signed (book_fill i qty price trade ts s)"
      and "om_positions s2 = om_positions s1"
      and "\<And>k. pending_quantity s2 k = pending_quantity s1 k"
      and "\<And>j. j \<in> om_live s \<Longrightarrow> j \<noteq> i \<Longrightarrow> order_ref s2 j = order_ref s j"
      and "om_killed s2 = om_killed s" and "om_trade_ids s2 i = None"
      and "i \<in> set (om_retired_fifo s2) \<and> order_ref s2 i = ord'"
      and "i \<in> om_expected_fcr s2 \<longleftrightarrow> o_pending_cancel ord"
proof (cases "validate i \<lparr>cx_kind = KFill, cx_trade_id = trade, cx_qty = qty, cx_price = price\<rparr> s = ValidOk")
  case False
  then show thesis using dropped by (simp add: on_fill_def Let_def)
next
  case ok: True
  note v = validate_fill_ok [OF ok, folded ord_def]
  have i: "i \<in> om_live s" by (rule validate_ok_live [OF inv gen ok])
  have good: "good_order i ord'" and orig: "good_order i ord"
    using om_inv_good [OF inv i] v by (auto simp: good_order_def ord'_def ord_def filled_order_fields remaining_def)
  let ?b = "book_fill i qty price trade ts s"
  have "venue_of i \<in> hm_registered (om_health ?b)" using om_inv_venue [OF inv i] by simp
  then obtain h where h: "with_health (health_on_fill (venue_of i)) ?b = Inr (?b\<lparr>om_health := h\<rparr>)"
      "hm_registered h = hm_registered (om_health s)"
    using with_healthE [OF health_handlers_ok(4), of "venue_of i" ?b] by auto
  define s1 where "s1 = ?b\<lparr>om_health := h\<rparr>"
  have pool1: "om_pool s1 = pool_put (slot_of i) ord' (om_pool s)" by (simp add: s1_def ord'_def)
  have at: "order_ref s1 j = (if j = i then ord' else order_ref s j)" if "j \<in> om_live s" for j
    using at_id_put [OF om_inv_core [OF inv], of i j ord'] i that by (simp add: order_ref_at pool1)
  have refi: "order_ref s1 i = ord'" using at i by simp
  have tids: "dom (om_trade_ids s1) \<subseteq> om_live s"
    using om_inv_core [OF inv] i by (auto simp: s1_def core_inv_def)
  have pend1: "map_get 0 (om_pending_signed s1) k
      = map_get 0 (om_pending_signed s) k - contrib ord k + contrib ord' k" for k
    by (simp add: s1_def contrib_def ord_def ord'_def filled_order_fields remaining_def signed_qty_diff signed_qty_add)
  have final: "o_filled_size ord' = o_size ord' \<longleftrightarrow> qty = remaining ord"
    by (auto simp: ord'_def ord_def filled_order_fields remaining_def)
  show thesis
  proof (cases "qty = remaining ord")
    case False
    with final v(3) have nf: "o_filled_size ord' \<noteq> o_size ord'" "qty < remaining ord" by auto
    then have open_: "\<not> is_terminal (o_status ord')"
      by (auto simp: ord'_def filled_order_fields)
    have "core_inv (om_pool s1) (om_live s) (om_trade_ids s1) (om_expected_fcr s)
        (om_retired_fifo s) (map_get 0 (om_pending_signed s1))"
      unfolding pool1 using pend1
      by (intro core_rewrite [OF om_inv_core [OF inv] i good open_ tids]) (auto simp: ord_def order_ref_at)
    then have "om_inv s1" using inv h(2) by (simp add: om_inv_def s1_def)
    moreover have "on_fill i qty price trade ts s
        = Inr (s1, [(mk_event EvPartialFill i ord' qty price ReasonUnknown ts, s1)])"
      using ok h(1) nf refi by (simp add: on_fill_def Let_def s1_def)
    ultimately show thesis using partial [OF i v(1,2) nf(2) v(4)] refi at by (simp add: s1_def)
  next
    case True
    then have fin: "o_filled_size ord' = o_size ord'" using final by simp
    then have closed: "is_terminal (o_status ord')" by (auto simp: ord'_def filled_order_fields)
    define s2 where "s2 = (if o_pending_cancel ord'
        then s1\<lparr>om_expected_fcr := insert i (om_expected_fcr s1),
               om_false_cancel_reject_count := om_false_cancel_reject_count s1 + 1\<rparr> else s1)"
    obtain p X F pend where r: "retire i (o_instrument ord') 0 (o_side ord') s2
          = Inr (after_retire i p pend X F s2)"
        "om_inv (after_retire i p pend X F s2)"
        "\<And>k. map_get 0 pend k = map_get 0 (om_pending_signed s) k - contrib (order_ref s i) k"
        "\<And>j. j \<in> om_live s - {i} \<Longrightarrow> at_id p j = at_id (om_pool s) j"
        "at_id p i = ord'" "i \<in> set F"
        "X \<subseteq> om_expected_fcr s2" "om_expected_fcr s2 \<inter> set F \<subseteq> X"
    proof (rule finish_ok [OF inv i good closed, where t = s2 and inst = "o_instrument ord'" and rem = 0
          and sd = "o_side ord'"])
      show "om_pool s2 = pool_put (slot_of i) ord' (om_pool s)" using pool1 by (simp add: s2_def)
      show "dom (om_trade_ids s2) \<subseteq> om_live s" using tids by (simp add: s2_def)
      have "contrib ord' k = 0" for k using fin by (simp add: contrib_def remaining_def)
      then show "map_get 0 (om_pending_signed s2) k
          - (if k = o_instrument ord' \<and> (0::int) < 0 then signed_qty (o_side ord') 0 else 0)
          = map_get 0 (om_pending_signed s) k - contrib (order_ref s i) k" for k
        using pend1 [of k] by (simp add: s2_def ord_def)
    qed (use h(2) in \<open>auto simp: s2_def s1_def\<close>)
    have res: "on_fill i qty price trade ts s = Inr (after_retire i p pend X F s2,
        [(mk_event EvFill i ord' qty price ReasonUnknown ts, s1)])"
      using ok h(1) fin refi r(1) by (simp add: on_fill_def Let_def s1_def [symmetric] s2_def [symmetric])
    have "contrib ord' k = 0" for k using fin by (simp add: contrib_def remaining_def)
    then have "map_get 0 pend k = map_get 0 (om_pending_signed s1) k" for k
      using r(3) [of k] pend1 [of k] by (simp add: ord_def)
    moreover have fresh: "i \<notin> om_expected_fcr s" using om_inv_core [OF inv] i by (auto simp: core_inv_def)
    have "i \<in> X \<longleftrightarrow> o_pending_cancel ord"
    proof -
      have "i \<in> om_expected_fcr s2 \<longleftrightarrow> o_pending_cancel ord"
        using fresh by (simp add: s2_def s1_def ord'_def ord_def filled_order_fields)
      with r(6-8) show ?thesis by blast
    qed
    moreover define t where "t = after_retire i p pend X F s2"
    have "om_live t = om_live s - {i}" "om_positions t = om_positions s1" "om_killed t = om_killed s"
      "om_trade_ids t i = None" "om_retired_fifo t = F" "om_expected_fcr t = X" "om_pool t = p"
      "om_pending_signed t = pend"
      by (simp_all add: t_def s2_def s1_def)
    ultimately show thesis
      using completed [OF i v(1,2) True v(4) res [folded t_def] r(2) [folded t_def] refi] r(4-6)
      by (simp add: s1_def pending_quantity_def order_ref_at)
  qed
qed

section \<open>Rejects and cancels\<close>

text \<open>The order becomes terminal with no further fill, and its remainder leaves the pending sum.\<close>

lemma close_ok:
  assumes inv: "om_inv s" and i: "i \<in> om_live s" and good: "good_order i ord"
    and closed: "is_terminal (o_status ord)"
    and t: "om_pool t = pool_put (slot_of i) ord (om_pool s)" "om_live t = om_live s"
      "om_retired_fifo t = om_retired_fifo s" "om_retired_grace t = om_retired_grace s"
      "om_live_iter t = om_live_iter s" "om_router t = om_router s"
      "hm_registered (om_health t) = hm_registered (om_health s)"
      "om_expected_fcr t = om_expected_fcr s" "om_trade_ids t = om_trade_ids s"
      "om_pending_signed t = om_pending_signed s"
  obtains s' where "retire i (o_instrument (order_ref s i)) (remaining (order_ref s i))
        (o_side (order_ref s i)) t = Inr s'"
    and "om_inv s'" and "om_live s' = om_live s - {i}" and "om_positions s' = om_positions t"
    and "om_health s' = om_health t" and "om_killed s' = om_killed t"
    and "\<And>k. pending_quantity s' k = pending_quantity s k - contrib (order_ref s i) k"
    and "\<And>j. j \<in> om_live s \<Longrightarrow> j \<noteq> i \<Longrightarrow> order_ref s' j = order_ref s j"
    and "om_trade_ids s' i = None" and "om_registry s' = om_registry t"
proof -
  let ?o = "order_ref s i"
  have rem: "0 \<le> remaining ?o" using om_inv_good [OF inv i] by (simp add: good_order_def remaining_def)
  obtain p X F pend where r: "retire i (o_instrument ?o) (remaining ?o) (o_side ?o) t
        = Inr (after_retire i p pend X F t)"
      "om_inv (after_retire i p pend X F t)"
      "\<And>k. map_get 0 pend k = map_get 0 (om_pending_signed s) k - contrib (order_ref s i) k"
      "\<And>j. j \<in> om_live s - {i} \<Longrightarrow> at_id p j = at_id (om_pool s) j"
  proof (rule finish_ok [OF inv i good closed t(1-7), where inst = "o_instrument ?o"
        and rem = "remaining ?o" and sd = "o_side ?o"])
    show "dom (om_trade_ids t) \<subseteq> om_live s"
      using om_inv_core [OF inv] by (simp add: t core_inv_def)
    show "map_get 0 (om_pending_signed t) k - (if k = o_instrument ?o \<and> 0 < remaining ?o
        then signed_qty (o_side ?o) (remaining ?o) else 0)
      = map_get 0 (om_pending_signed s) k - contrib ?o k" for k
      using rem by (auto simp: t contrib_def)
  qed (use t in auto)
  show thesis
    using that [OF r(1,2)] r(3,4) by (simp add: t pending_quantity_def order_ref_at)
qed

lemma on_confirm_cases:
  fixes s :: "'e OrderManager"
  assumes inv: "om_inv s" and gen: "genuine s i"
  obtains (dropped) vr where "vr \<noteq> ValidOk" and "validate i (plain_context KConfirm) s = vr"
      and "on_confirm i x ts s = Inr (drop_event i KConfirm vr ts s, [])"
  | (confirmed) s1 ord' where "i \<in> om_live s" and "om_inv s1"
      and "on_confirm i x ts s = Inr (s1, [(mk_event EvConfirmed i ord' 0 0 ReasonUnknown ts, s1)])"
      and "order_ref s1 i = ord'" and "o_exchange_id ord' = x"
      and "o_status ord' = (if o_status (order_ref s i) = New \<or> o_status (order_ref s i) = Sent
             then Confirmed else o_status (order_ref s i))"
      and "o_filled_size ord' = o_filled_size (order_ref s i)" and "o_size ord' = o_size (order_ref s i)"
      and "o_instrument ord' = o_instrument (order_ref s i) \<and> o_side ord' = o_side (order_ref s i)"
      and "om_live s1 = om_live s" and "om_positions s1 = om_positions s"
      and "om_pending_signed s1 = om_pending_signed s" and "om_killed s1 = om_killed s"
      and "\<And>j. j \<in> om_live s \<Longrightarrow> j \<noteq> i \<Longrightarrow> order_ref s1 j = order_ref s j"
      and "om_trade_ids s1 = om_trade_ids s"
proof (cases "validate i (plain_context KConfirm) s = ValidOk")
  case False
  then show thesis using dropped by (simp add: on_confirm_def Let_def)
next
  case ok: True
  have i: "i \<in> om_live s" by (rule validate_ok_live [OF inv gen ok])
  define o1 where "o1 = (order_ref s i)\<lparr>o_exchange_id := x\<rparr>"
  define o2 where "o2 = (if o_status o1 = New \<or> o_status o1 = Sent then o1\<lparr>o_status := Confirmed\<rparr> else o1)"
  define o3 where "o3 = o2\<lparr>o_ts := (o_ts o2)\<lparr>ts_confirmed := ts\<rparr>\<rparr>"
  define s0 where "s0 = put_order i o3 s"
  have o3: "contrib o3 = contrib (order_ref s i)" "good_order i o3" "\<not> is_terminal (o_status o3)"
    "o_status o3 = (if o_status (order_ref s i) = New \<or> o_status (order_ref s i) = Sent
       then Confirmed else o_status (order_ref s i))" "o_exchange_id o3 = x"
    "o_filled_size o3 = o_filled_size (order_ref s i)" "o_size o3 = o_size (order_ref s i)"
    "o_instrument o3 = o_instrument (order_ref s i)" "o_side o3 = o_side (order_ref s i)"
    using om_inv_open [OF inv i] om_inv_good [OF inv i]
    by (simp_all add: o3_def o2_def o1_def)
  have inv0: "om_inv s0" unfolding s0_def using o3 by (intro om_inv_rewrite [OF inv i]) simp_all
  have "venue_of i \<in> hm_registered (om_health s0)" using om_inv_venue [OF inv i] by (simp add: s0_def)
  then obtain h where h: "with_health (health_on_ack (venue_of i) (ts - ts_sent (o_ts o3))) s0
        = Inr (s0\<lparr>om_health := h\<rparr>)" "hm_registered h = hm_registered (om_health s0)"
    using with_healthE [OF health_handlers_ok(2), of "venue_of i" s0] by auto
  have "on_confirm i x ts s = Inr (s0\<lparr>om_health := h\<rparr>,
      [(mk_event EvConfirmed i o3 0 0 ReasonUnknown ts, s0\<lparr>om_health := h\<rparr>)])"
    using ok h(1) unfolding on_confirm_def Let_def o1_def [symmetric] o2_def [symmetric]
      o3_def [symmetric] s0_def [symmetric] by simp
  moreover have "order_ref (s0\<lparr>om_health := h\<rparr>) j = order_ref s0 j" for j by (simp add: order_ref_def)
  ultimately show thesis
    using confirmed [OF i, of "s0\<lparr>om_health := h\<rparr>" o3] inv0 h(2) o3 order_ref_put [OF inv i, of o3]
      order_ref_put_other [OF inv i, of _ o3]
    by (simp add: s0_def)
qed

lemma finish_cancel_cases:
  fixes s :: "'e OrderManager"
  assumes inv: "om_inv s" and gen: "genuine s i"
  obtains (dropped) vr where "vr \<noteq> ValidOk" and "validate i (plain_context kind) s = vr"
      and "finish_cancel i ts kind pub uns s = Inr (drop_event i kind vr ts s, [])"
  | (cancelled) ord' s1 s2 where "i \<in> om_live s" and "om_inv s2"
      and "finish_cancel i ts kind pub uns s = Inr (s2, [(mk_event pub i ord' 0 0 ReasonUnknown ts, s1)])"
      and "o_status ord' = Cancelled" and "o_filled_size ord' = o_filled_size (order_ref s i)"
      and "om_live s2 = om_live s - {i}" and "om_positions s2 = om_positions s"
      and "\<And>k. pending_quantity s2 k = pending_quantity s k - contrib (order_ref s i) k"
      and "\<And>j. j \<in> om_live s \<Longrightarrow> j \<noteq> i \<Longrightarrow> order_ref s2 j = order_ref s j"
      and "om_killed s2 = om_killed s" and "om_trade_ids s2 i = None"
      and "order_ref s1 i = ord'" and "om_health s2 = om_health s"
proof (cases "validate i (plain_context kind) s = ValidOk")
  case False
  then show thesis using dropped by (simp add: finish_cancel_def Let_def)
next
  case ok: True
  have i: "i \<in> om_live s" by (rule validate_ok_live [OF inv gen ok])
  define o1 where "o1 = (order_ref s i)\<lparr>o_pending_cancel := False, o_status := Cancelled,
      o_ts := (o_ts (order_ref s i))\<lparr>ts_terminal := ts\<rparr>\<rparr>"
  define s1 where "s1 = put_order i o1 s"
  define s2 where "s2 = (if uns then om_log_line Warn (''unsolicited cancel id='' @ id_str i)
      (s1\<lparr>om_unsolicited_cancel_count := om_unsolicited_cancel_count s1 + 1\<rparr>) else s1)"
  have o1: "good_order i o1" "is_terminal (o_status o1)"
    using om_inv_good [OF inv i] by (simp_all add: o1_def)
  have t: "om_pool s2 = pool_put (slot_of i) o1 (om_pool s)" "om_live s2 = om_live s"
      "om_retired_fifo s2 = om_retired_fifo s" "om_retired_grace s2 = om_retired_grace s"
      "om_live_iter s2 = om_live_iter s" "om_router s2 = om_router s" "om_health s2 = om_health s"
      "om_expected_fcr s2 = om_expected_fcr s" "om_trade_ids s2 = om_trade_ids s"
      "om_pending_signed s2 = om_pending_signed s" "om_positions s2 = om_positions s"
      "om_killed s2 = om_killed s"
    by (simp_all add: s2_def s1_def del: append.simps)
  obtain s' where r: "retire i (o_instrument (order_ref s i)) (remaining (order_ref s i))
        (o_side (order_ref s i)) s2 = Inr s'"
      "om_inv s'" "om_live s' = om_live s - {i}" "om_positions s' = om_positions s2"
      "om_health s' = om_health s2" "om_killed s' = om_killed s2"
      "\<And>k. pending_quantity s' k = pending_quantity s k - contrib (order_ref s i) k"
      "\<And>j. j \<in> om_live s \<Longrightarrow> j \<noteq> i \<Longrightarrow> order_ref s' j = order_ref s j"
      "om_trade_ids s' i = None" "om_registry s' = om_registry s2"
  proof (rule close_ok [OF inv i o1 t(1-6) arg_cong [OF t(7), of hm_registered] t(8-10)], goal_cases)
    case (1 s')
    from 1(2-) show ?case by (rule 1(1))
  qed
  have "order_ref s2 i = order_ref s1 i" by (simp add: order_ref_def t s1_def)
  then have ref: "order_ref s2 i = o1" using order_ref_put [OF inv i, of o1] by (simp add: s1_def)
  have "finish_cancel i ts kind pub uns s = Inr (s', [(mk_event pub i o1 0 0 ReasonUnknown ts, s2)])"
    using ok r(1) unfolding finish_cancel_def Let_def o1_def [symmetric] s1_def [symmetric] s2_def [symmetric]
    by simp
  with cancelled [of s' o1 s2] i r ref t show thesis by (simp add: o1_def)
qed

lemma on_reject_cases:
  fixes s :: "'e OrderManager"
  assumes inv: "om_inv s" and gen: "genuine s i"
  obtains (benign) h where "reason = CancelRejectedReason" and "i \<in> om_expected_fcr s"
      and "health_on_reject (venue_of i) True (om_health s) = Inr h"
      and "on_reject i reason ts s = Inr (om_log_line Info (''benign false cancel-reject id='' @ id_str i)
             (s\<lparr>om_expected_fcr := om_expected_fcr s - {i}, om_health := h\<rparr>), [])"
      and "om_inv (s\<lparr>om_expected_fcr := om_expected_fcr s - {i}, om_health := h\<rparr>)"
  | (dropped) vr where "vr \<noteq> ValidOk" and "validate i (plain_context KReject) s = vr"
      and "reason = CancelRejectedReason \<Longrightarrow> i \<notin> om_expected_fcr s"
      and "on_reject i reason ts s = Inr (drop_event i KReject vr ts s, [])"
  | (cancel_refused) s1 where "reason = CancelRejectedReason" and "i \<notin> om_expected_fcr s"
      and "i \<in> om_live s" and "om_inv s1" and "on_reject i reason ts s = Inr (s1, [])"
      and "order_ref s1 i = (order_ref s i)\<lparr>o_pending_cancel := False,
             o_status := (if o_filled_size (order_ref s i) > 0 then PartiallyFilled else Confirmed)\<rparr>"
      and "om_live s1 = om_live s" and "om_positions s1 = om_positions s"
      and "om_pending_signed s1 = om_pending_signed s" and "om_killed s1 = om_killed s"
      and "\<And>j. j \<in> om_live s \<Longrightarrow> j \<noteq> i \<Longrightarrow> order_ref s1 j = order_ref s j"
  | (rejected) ord' s1 s2 where "reason \<noteq> CancelRejectedReason" and "i \<in> om_live s" and "om_inv s2"
      and "on_reject i reason ts s = Inr (s2, [(mk_event EvRejected i ord' 0 0 reason ts, s1)])"
      and "o_status ord' = Rejected" and "om_live s2 = om_live s - {i}"
      and "om_positions s2 = om_positions s"
      and "\<And>k. pending_quantity s2 k = pending_quantity s k - contrib (order_ref s i) k"
      and "\<And>j. j \<in> om_live s \<Longrightarrow> j \<noteq> i \<Longrightarrow> order_ref s2 j = order_ref s j"
      and "om_killed s2 = om_killed s" and "om_trade_ids s2 i = None" and "order_ref s1 i = ord'"
proof (cases "reason = CancelRejectedReason \<and> i \<in> om_expected_fcr s")
  case True
  have "i \<in> set (om_retired_fifo s)" using om_inv_core [OF inv] True by (auto simp: core_inv_def)
  then have vr: "venue_of i \<in> hm_registered (om_health s)" using inv by (simp add: om_inv_def)
  then obtain h where h: "health_on_reject (venue_of i) True (om_health s) = Inr h"
      "hm_registered h = hm_registered (om_health s)"
    using health_handlers_ok(3) unfolding health_ok_def by metis
  have "om_inv (s\<lparr>om_expected_fcr := om_expected_fcr s - {i}, om_health := h\<rparr>)"
    using inv h(2) unfolding om_inv_def core_inv_def by auto
  moreover have "on_reject i reason ts s = Inr (om_log_line Info (''benign false cancel-reject id='' @ id_str i)
             (s\<lparr>om_expected_fcr := om_expected_fcr s - {i}, om_health := h\<rparr>), [])"
    using True h(1) by (simp add: on_reject_def Let_def with_health_def del: append.simps)
  ultimately show thesis using benign True h(1) by blast
next
  case nb: False
  show thesis
  proof (cases "validate i (plain_context KReject) s = ValidOk")
    case False
    then show thesis using dropped nb by (auto simp: on_reject_def Let_def)
  next
    case ok: True
    have i: "i \<in> om_live s" by (rule validate_ok_live [OF inv gen ok])
    define o1 where "o1 = (if reason = CancelRejectedReason
        then (order_ref s i)\<lparr>o_pending_cancel := False,
               o_status := (if o_filled_size (order_ref s i) > 0 then PartiallyFilled else Confirmed)\<rparr>
        else (order_ref s i)\<lparr>o_status := Rejected, o_ts := (o_ts (order_ref s i))\<lparr>ts_terminal := ts\<rparr>\<rparr>)"
    define s1 where "s1 = (put_order i o1 s)\<lparr>om_reject_count := om_reject_count s + 1\<rparr>"
    have good: "good_order i o1" using om_inv_good [OF inv i] by (simp add: o1_def)
    have "venue_of i \<in> hm_registered (om_health s1)" using om_inv_venue [OF inv i] by (simp add: s1_def)
    then obtain h where h: "with_health (health_on_reject (venue_of i) False) s1 = Inr (s1\<lparr>om_health := h\<rparr>)"
        "hm_registered h = hm_registered (om_health s1)"
      using with_healthE [OF health_handlers_ok(3), of "venue_of i" s1] by auto
    define s2 where "s2 = s1\<lparr>om_health := h\<rparr>"
    have t: "om_pool s2 = pool_put (slot_of i) o1 (om_pool s)" "om_live s2 = om_live s"
      "om_retired_fifo s2 = om_retired_fifo s" "om_retired_grace s2 = om_retired_grace s"
      "om_live_iter s2 = om_live_iter s" "om_router s2 = om_router s"
      "hm_registered (om_health s2) = hm_registered (om_health s)"
      "om_expected_fcr s2 = om_expected_fcr s" "om_trade_ids s2 = om_trade_ids s"
      "om_pending_signed s2 = om_pending_signed s" "om_positions s2 = om_positions s"
      "om_killed s2 = om_killed s"
      using h(2) by (simp_all add: s2_def s1_def)
    have ref: "order_ref s2 j = order_ref (put_order i o1 s) j" for j by (simp add: order_ref_def t)
    show thesis
    proof (cases "reason = CancelRejectedReason")
      case True
      have "om_inv (put_order i o1 s)"
        using good True by (intro om_inv_rewrite [OF inv i]) (simp_all add: o1_def)
      then have "om_inv s2" using h(2) by (simp add: s2_def s1_def)
      moreover have "on_reject i reason ts s = Inr (s2, [])"
        using True nb ok h(1) by (simp add: on_reject_def Let_def o1_def s1_def s2_def)
      moreover have "order_ref s2 i = o1" unfolding ref by (rule order_ref_put [OF inv i])
      moreover have "order_ref s2 j = order_ref s j" if "j \<in> om_live s" "j \<noteq> i" for j
        unfolding ref using that by (rule order_ref_put_other [OF inv i])
      ultimately show thesis using cancel_refused [of s2] True nb i t by (simp add: o1_def)
    next
      case False
      then have closed: "is_terminal (o_status o1)" by (simp add: o1_def)
      obtain s' where r: "retire i (o_instrument (order_ref s i)) (remaining (order_ref s i))
            (o_side (order_ref s i)) s2 = Inr s'"
          "om_inv s'" "om_live s' = om_live s - {i}" "om_positions s' = om_positions s2"
          "om_health s' = om_health s2" "om_killed s' = om_killed s2"
          "\<And>k. pending_quantity s' k = pending_quantity s k - contrib (order_ref s i) k"
          "\<And>j. j \<in> om_live s \<Longrightarrow> j \<noteq> i \<Longrightarrow> order_ref s' j = order_ref s j"
          "om_trade_ids s' i = None" "om_registry s' = om_registry s2"
      proof (rule close_ok [OF inv i good closed t(1-10)], goal_cases)
        case (1 s')
        from 1(2-) show ?case by (rule 1(1))
      qed
      have "on_reject i reason ts s = Inr (s', [(mk_event EvRejected i o1 0 0 reason ts, s2)])"
        using False ok h(1) r(1) by (simp add: on_reject_def Let_def o1_def s1_def s2_def)
      moreover have "order_ref s2 i = o1" unfolding ref by (rule order_ref_put [OF inv i])
      ultimately show thesis using rejected [of s' o1 s2] False i r t by (simp add: o1_def)
    qed
  qed
qed

end
