(* ===== verification/OmSteps.thy ===== *)
theory OmSteps
  imports OmPreserve
begin

text \<open>
  The order manager as a state machine: ack timeouts and venue events keep the invariant, the
  step relation \<open>om_step\<close> has one rule per operation (and rules for the environment: the clock,
  the venues, the health tick), and every reachable state satisfies the invariant.
\<close>

section \<open>Ack timeouts and venue events\<close>

text \<open>Nothing is left to do for an order: it was flagged, has been answered, or is not overdue.\<close>

definition timeout_settled :: "Timestamp \<Rightarrow> Timestamp \<Rightarrow> Order \<Rightarrow> bool" where
  "timeout_settled now timeout ord \<longleftrightarrow>
     o_ack_timed_out ord \<or> o_status ord \<noteq> Sent \<or> now - ts_sent (o_ts ord) < timeout"

lemma mark_cancel_ref:
  assumes "om_inv s" and "i \<in> om_live s" and "j \<in> om_live s"
  shows "order_ref (mark_cancel_sent i s) j = (if j = i
    then (order_ref s i)\<lparr>o_pending_cancel := True, o_status := SentCancel\<rparr> else order_ref s j)"
  using order_ref_put [OF assms(1,2)] order_ref_put_other [OF assms]
  by (simp add: mark_cancel_sent_def)

lemma ack_timeout_one_ok:
  assumes inv: "om_inv s" and i: "i \<in> om_live s"
  obtains s' where "ack_timeout_one ops now timeout s i = Inr s'" and "om_inv s'"
    and "om_live s' = om_live s" and "om_positions s' = om_positions s"
    and "om_pending_signed s' = om_pending_signed s" and "om_killed s' = om_killed s"
    and "om_trade_ids s' = om_trade_ids s" and "om_live_iter s' = om_live_iter s"
    and "timeout_settled now timeout (order_ref s' i)"
    and "\<And>j. j \<in> om_live s \<Longrightarrow> j \<noteq> i \<Longrightarrow> order_ref s' j = order_ref s j"
    and "\<And>j. j \<in> om_live s \<Longrightarrow> o_instrument (order_ref s' j) = o_instrument (order_ref s j)
           \<and> o_side (order_ref s' j) = o_side (order_ref s j) \<and> o_size (order_ref s' j) = o_size (order_ref s j)
           \<and> o_filled_size (order_ref s' j) = o_filled_size (order_ref s j)"
proof (cases "timeout_settled now timeout (order_ref s i)")
  case True
  then have "ack_timeout_one ops now timeout s i = Inr s"
    using om_live_current [OF inv i] by (auto simp: ack_timeout_one_def Let_def timeout_settled_def)
  with that inv True show thesis by blast
next
  case False
  let ?o = "(order_ref s i)\<lparr>o_ack_timed_out := True\<rparr>"
  define s1 where "s1 = (put_order i ?o s)\<lparr>om_ack_timeout_count := om_ack_timeout_count s + 1\<rparr>"
  have inv1: "om_inv s1"
  proof -
    have "om_inv (put_order i ?o s)"
      using om_inv_good [OF inv i] om_inv_open [OF inv i] by (intro om_inv_rewrite [OF inv i]) simp_all
    then show ?thesis by (simp add: s1_def)
  qed
  have "venue_of i \<in> hm_registered (om_health s1)" using om_inv_venue [OF inv i] by (simp add: s1_def)
  then obtain h where h: "with_health (health_on_timeout (venue_of i)) s1 = Inr (s1\<lparr>om_health := h\<rparr>)"
      "hm_registered h = hm_registered (om_health s1)"
    using with_healthE [OF health_handlers_ok(5), of "venue_of i" s1] by auto
  define s3 where "s3 = om_log_line Warn (''ACK TIMEOUT id='' @ id_str i
      @ '' (possibly live; attempting cancel)'') (s1\<lparr>om_health := h\<rparr>)"
  have s3: "om_inv s3" "om_live s3 = om_live s" "om_positions s3 = om_positions s"
      "om_pending_signed s3 = om_pending_signed s" "om_killed s3 = om_killed s"
      "om_trade_ids s3 = om_trade_ids s" "om_live_iter s3 = om_live_iter s"
    using inv1 h(2) by (simp_all add: s3_def s1_def del: append.simps)
  have ref3: "order_ref s3 j = (if j = i then ?o else order_ref s j)" if "j \<in> om_live s" for j
  proof -
    have "order_ref s3 j = order_ref (put_order i ?o s) j"
      by (simp add: s3_def s1_def order_ref_def om_log_line_def del: append.simps)
    then show ?thesis
      using order_ref_put [OF inv i, of ?o] order_ref_put_other [OF inv i that, of ?o] by simp
  qed
  have step: "ack_timeout_one ops now timeout s i =
      (case registry_get (om_registry s3) (venue_of i) of
         None \<Rightarrow> Inr s3
       | Some ex \<Rightarrow>
           if ec_is_connected ops ex \<and> \<not> o_pending_cancel (order_ref s3 i) then
             (let (r, s4) = call_cancel ops i ex s3
              in Inr (if r = SendOk then mark_cancel_sent i s4 else s4))
           else Inr s3)"
    using False [unfolded timeout_settled_def] om_live_current [OF inv i] h(1)
    by (simp add: ack_timeout_one_def Let_def s1_def [symmetric] s3_def [symmetric]
        del: append.simps om_log_line_fields cong: option.case_cong if_cong)
  show thesis
  proof (cases "registry_get (om_registry s3) (venue_of i)")
    case None
    with step that s3 ref3 i show thesis by (simp add: timeout_settled_def)
  next
    case (Some ex)
    obtain r ex' where c: "call_cancel ops i ex s3
        = (r, s3\<lparr>om_registry := registry_put (venue_of i) ex' (om_registry s3)\<rparr>)" by (rule call_cancelE)
    define s4 where "s4 = s3\<lparr>om_registry := registry_put (venue_of i) ex' (om_registry s3)\<rparr>"
    have s4: "om_inv s4" "om_live s4 = om_live s" "om_positions s4 = om_positions s"
        "om_pending_signed s4 = om_pending_signed s" "om_killed s4 = om_killed s"
        "om_trade_ids s4 = om_trade_ids s" "om_live_iter s4 = om_live_iter s"
      using s3 by (simp_all add: s4_def)
    have ref4: "order_ref s4 j = order_ref s3 j" for j by (simp add: s4_def order_ref_def)
    define s5 where "s5 = (if ec_is_connected ops ex \<and> \<not> o_pending_cancel (order_ref s3 i)
        then (if r = SendOk then mark_cancel_sent i s4 else s4) else s3)"
    have "ack_timeout_one ops now timeout s i = Inr s5"
      using step Some c by (simp add: s5_def s4_def)
    moreover have "om_inv s5" using s3 s4 i by (simp add: s5_def mark_cancel_inv)
    moreover have "order_ref s5 j = (if j = i then order_ref s5 i else order_ref s j)"
      "timeout_settled now timeout (order_ref s5 i)"
      "o_instrument (order_ref s5 i) = o_instrument (order_ref s i) \<and>
       o_side (order_ref s5 i) = o_side (order_ref s i) \<and> o_size (order_ref s5 i) = o_size (order_ref s i) \<and>
       o_filled_size (order_ref s5 i) = o_filled_size (order_ref s i)" if "j \<in> om_live s" for j
      using ref3 ref4 i that s4(1,2) mark_cancel_ref [of s4 i] by (auto simp: s5_def timeout_settled_def)
    moreover have "om_live s5 = om_live s" "om_positions s5 = om_positions s"
      "om_pending_signed s5 = om_pending_signed s" "om_killed s5 = om_killed s"
      "om_trade_ids s5 = om_trade_ids s" "om_live_iter s5 = om_live_iter s"
      using s3 s4 by (simp_all add: s5_def mark_cancel_sent_def)
    ultimately show thesis using that [of s5] i by metis
  qed
qed

lemma ack_timeout_loop_ok:
  assumes "om_inv s" and "set ids \<subseteq> om_live s"
  obtains s' where "ack_timeout_loop ops now timeout ids s = Inr s'" and "om_inv s'"
    and "om_live s' = om_live s" and "om_positions s' = om_positions s"
    and "om_pending_signed s' = om_pending_signed s" and "om_killed s' = om_killed s"
    and "om_trade_ids s' = om_trade_ids s" and "om_live_iter s' = om_live_iter s"
    and "\<And>j. j \<in> set ids \<Longrightarrow> timeout_settled now timeout (order_ref s' j)"
    and "\<And>j. j \<in> om_live s \<Longrightarrow> timeout_settled now timeout (order_ref s j)
           \<Longrightarrow> timeout_settled now timeout (order_ref s' j)"
    and "\<And>j. j \<in> om_live s \<Longrightarrow> o_instrument (order_ref s' j) = o_instrument (order_ref s j)
           \<and> o_side (order_ref s' j) = o_side (order_ref s j) \<and> o_size (order_ref s' j) = o_size (order_ref s j)
           \<and> o_filled_size (order_ref s' j) = o_filled_size (order_ref s j)"
  using assms
proof (induction ids arbitrary: s thesis)
  case Nil
  then show ?case by simp
next
  case (Cons i ids)
  have i: "i \<in> om_live s" using Cons.prems(3) by simp
  show ?case
  proof (rule ack_timeout_one_ok [OF Cons.prems(2) i, of ops now timeout])
    fix s1
    assume a: "ack_timeout_one ops now timeout s i = Inr s1" "om_inv s1" "om_live s1 = om_live s"
      "om_positions s1 = om_positions s" "om_pending_signed s1 = om_pending_signed s"
      "om_killed s1 = om_killed s" "om_trade_ids s1 = om_trade_ids s" "om_live_iter s1 = om_live_iter s"
      "timeout_settled now timeout (order_ref s1 i)"
      "\<And>j. j \<in> om_live s \<Longrightarrow> j \<noteq> i \<Longrightarrow> order_ref s1 j = order_ref s j"
      "\<And>j. j \<in> om_live s \<Longrightarrow> o_instrument (order_ref s1 j) = o_instrument (order_ref s j)
           \<and> o_side (order_ref s1 j) = o_side (order_ref s j) \<and> o_size (order_ref s1 j) = o_size (order_ref s j)
           \<and> o_filled_size (order_ref s1 j) = o_filled_size (order_ref s j)"
    show ?case
    proof (rule Cons.IH [OF _ a(2)])
      show "set ids \<subseteq> om_live s1" using a(3) Cons.prems(3) by simp
      fix s' assume b: "ack_timeout_loop ops now timeout ids s1 = Inr s'" "om_inv s'"
        "om_live s' = om_live s1" "om_positions s' = om_positions s1"
        "om_pending_signed s' = om_pending_signed s1" "om_killed s' = om_killed s1"
        "om_trade_ids s' = om_trade_ids s1" "om_live_iter s' = om_live_iter s1"
        "\<And>j. j \<in> set ids \<Longrightarrow> timeout_settled now timeout (order_ref s' j)"
        "\<And>j. j \<in> om_live s1 \<Longrightarrow> timeout_settled now timeout (order_ref s1 j)
           \<Longrightarrow> timeout_settled now timeout (order_ref s' j)"
        "\<And>j. j \<in> om_live s1 \<Longrightarrow> o_instrument (order_ref s' j) = o_instrument (order_ref s1 j)
           \<and> o_side (order_ref s' j) = o_side (order_ref s1 j) \<and> o_size (order_ref s' j) = o_size (order_ref s1 j)
           \<and> o_filled_size (order_ref s' j) = o_filled_size (order_ref s1 j)"
      have keep: "timeout_settled now timeout (order_ref s' j)"
        if "j \<in> om_live s" "timeout_settled now timeout (order_ref s j)" for j
        using b(10) [of j] a(3,9,10) that by (cases "j = i") auto
      have "timeout_settled now timeout (order_ref s' i)" using b(10) [of i] a(3,9) i by simp
      with b(9) have "timeout_settled now timeout (order_ref s' j)" if "j \<in> set (i # ids)" for j
        using that by auto
      then show ?case
        using Cons.prems(1) [of s'] a b keep by simp
    qed
  qed
qed

lemma check_ack_timeouts_ok:
  assumes "om_inv s"
  obtains s' where "check_ack_timeouts ops now timeout s = Inr s'" and "om_inv s'"
    and "om_live s' = om_live s" and "om_positions s' = om_positions s"
    and "om_pending_signed s' = om_pending_signed s" and "om_killed s' = om_killed s"
    and "om_trade_ids s' = om_trade_ids s"
    and "\<And>j. j \<in> om_live s \<Longrightarrow> timeout_settled now timeout (order_ref s' j)"
    and "\<And>j. j \<in> om_live s \<Longrightarrow> o_instrument (order_ref s' j) = o_instrument (order_ref s j)
           \<and> o_side (order_ref s' j) = o_side (order_ref s j) \<and> o_size (order_ref s' j) = o_size (order_ref s j)
           \<and> o_filled_size (order_ref s' j) = o_filled_size (order_ref s j)"
proof (rule ack_timeout_loop_ok [OF assms, of "om_live_iter s (om_live s)" ops now timeout])
qed (use om_inv_iter [OF assms] that in \<open>auto simp: check_ack_timeouts_def\<close>)

text \<open>A pass over settled orders does nothing.\<close>

lemma ack_timeout_loop_settled:
  "om_inv s \<Longrightarrow> set ids \<subseteq> om_live s \<Longrightarrow> \<forall>j \<in> set ids. timeout_settled now timeout (order_ref s j)
   \<Longrightarrow> ack_timeout_loop ops now timeout ids s = Inr s"
proof (induction ids)
  case (Cons i ids)
  then have "ack_timeout_one ops now timeout s i = Inr s"
    using om_live_current [of s i] by (auto simp: ack_timeout_one_def Let_def timeout_settled_def)
  with Cons show ?case by simp
qed simp

lemma venue_events_ok:
  assumes "om_inv s" and "v \<in> hm_registered (om_health s)"
  obtains d r where "on_venue_disconnect v s = Inr d" and "om_inv d"
    and "on_venue_reconnect v s = Inr r" and "om_inv r" and "om_killed d = om_killed s"
    and "om_killed r = om_killed s"
proof -
  obtain h1 where h1: "with_health (health_on_disconnect v) s = Inr (s\<lparr>om_health := h1\<rparr>)"
      "hm_registered h1 = hm_registered (om_health s)"
    using with_healthE [OF health_handlers_ok(6) assms(2)] by blast
  obtain h2 where h2: "with_health (health_on_reconnect v) s = Inr (s\<lparr>om_health := h2\<rparr>)"
      "hm_registered h2 = hm_registered (om_health s)"
    using with_healthE [OF health_handlers_ok(7) assms(2)] by blast
  from h1 h2 assms(1) show thesis
    using that by (simp add: on_venue_disconnect_def on_venue_reconnect_def del: append.simps)
qed

lemma health_tick_registered [simp]:
  "hm_registered (health_tick order now h) = hm_registered h"
  unfolding health_tick_def
  by (rule foldl_preserves) (auto simp: hm_registered_def evaluate_def Let_def split: option.splits)

section \<open>Steps\<close>

inductive om_step :: "'e ExchangeClient \<Rightarrow> 'e OrderManager \<Rightarrow> 'e OrderManager \<Rightarrow> bool" for ops where
  st_submit: "valid_request req \<Longrightarrow> submit ops req s = Inr (j, s') \<Longrightarrow> om_step ops s s'"
| st_cancel: "genuine s i \<Longrightarrow> cancel ops i s = (b, s') \<Longrightarrow> om_step ops s s'"
| st_confirm: "genuine s i \<Longrightarrow> on_confirm i x ts s = Inr (s', evs) \<Longrightarrow> om_step ops s s'"
| st_fill: "genuine s i \<Longrightarrow> on_fill i qty price trade ts s = Inr (s', evs) \<Longrightarrow> om_step ops s s'"
| st_reject: "genuine s i \<Longrightarrow> on_reject i reason ts s = Inr (s', evs) \<Longrightarrow> om_step ops s s'"
| st_cancel_ack: "genuine s i \<Longrightarrow> on_cancel_ack i ts s = Inr (s', evs) \<Longrightarrow> om_step ops s s'"
| st_unsolicited: "genuine s i \<Longrightarrow> on_unsolicited_cancel i ts s = Inr (s', evs) \<Longrightarrow> om_step ops s s'"
| st_timeouts: "check_ack_timeouts ops now timeout s = Inr s' \<Longrightarrow> om_step ops s s'"
| st_disconnect: "v \<in> hm_registered (om_health s) \<Longrightarrow> on_venue_disconnect v s = Inr s' \<Longrightarrow> om_step ops s s'"
| st_reconnect: "v \<in> hm_registered (om_health s) \<Longrightarrow> on_venue_reconnect v s = Inr s' \<Longrightarrow> om_step ops s s'"
| st_kill: "om_step ops s (trip_kill_switch why s)"
| st_reset_cycle: "om_step ops s (reset_rebalance_cycle s)"
| st_clear_reconcile: "om_step ops s (clear_reconcile_request s)"
| st_threshold: "om_step ops s (set_unknown_fill_hardstop_threshold n s)"
| st_clock: "om_step ops s (set_om_clock now s)"
| st_tick: "om_step ops s (s\<lparr>om_health := health_tick order now (om_health s)\<rparr>)"
| st_venues: "om_step ops s (s\<lparr>om_registry := r\<rparr>)"

inductive_cases om_stepE: "om_step ops s s'"

lemma om_step_inv:
  assumes "om_step ops s s'" and "om_inv s"
  shows "om_inv s'"
  using assms(1)
proof cases
  case (st_submit req j)
  then show ?thesis using submit_ok [OF assms(2), of req ops] by (metis Inr_inject prod.inject)
next
  case (st_cancel i b)
  then show ?thesis using cancel_inv [OF assms(2)] by (metis snd_conv)
next
  case (st_confirm i x ts evs)
  then show ?thesis using assms(2) by (cases rule: on_confirm_cases [OF assms(2) st_confirm(1), where x = x and ts = ts]) auto
next
  case (st_fill i qty price trade ts evs)
  then show ?thesis using assms(2)
    by (cases rule: on_fill_cases [OF assms(2) st_fill(1), where qty = qty and price = price and ts = ts and trade = trade]) auto
next
  case (st_reject i reason ts evs)
  then show ?thesis using assms(2)
    by (cases rule: on_reject_cases [OF assms(2) st_reject(1), where reason = reason and ts = ts]) (auto simp del: append.simps)
next
  case (st_cancel_ack i ts evs)
  then show ?thesis using assms(2) unfolding on_cancel_ack_def
    by (cases rule: finish_cancel_cases [OF assms(2) st_cancel_ack(1), where kind = KCancelAck and ts = ts
          and pub = EvCancelled and uns = False]) auto
next
  case (st_unsolicited i ts evs)
  then show ?thesis using assms(2) unfolding on_unsolicited_cancel_def
    by (cases rule: finish_cancel_cases [OF assms(2) st_unsolicited(1), where kind = KUnsolicitedCancel
          and ts = ts and pub = EvUnsolicitedCancel and uns = True]) auto
next
  case (st_timeouts now timeout)
  then show ?thesis using check_ack_timeouts_ok [OF assms(2), of ops now timeout] by (metis Inr_inject)
next
  case (st_disconnect v)
  then show ?thesis using venue_events_ok [OF assms(2)] by (metis Inr_inject)
next
  case (st_reconnect v)
  then show ?thesis using venue_events_ok [OF assms(2)] by (metis Inr_inject)
next
  case (st_kill why)
  then show ?thesis using assms(2) by simp
qed (use assms(2) in \<open>simp_all add: reset_rebalance_cycle_def clear_reconcile_request_def
       set_unknown_fill_hardstop_threshold_def set_om_clock_def om_inv_def hm_registered_def [of "h\<lparr>hm_clock := c\<rparr>" for h c]
       flip: hm_registered_def\<close>)

lemma om_reach_inv: "(om_step ops)\<^sup>*\<^sup>* s0 s \<Longrightarrow> om_inv s0 \<Longrightarrow> om_inv s"
  by (induction rule: rtranclp_induct) (auto intro: om_step_inv)

lemma om_new_inv:
  assumes "om_new registry router health sink cap iter now = Inr s"
    and "set router \<subseteq> hm_registered health" and "\<forall>A. set (iter A) = A"
  shows "om_inv s"
proof -
  obtain p where p: "pool_new cap = Inr p" and s: "om_new registry router health sink cap iter now = Inr s"
    using assms(1) by (auto simp: om_new_def elim: ebind_InrE)
  have "\<not> slot_live p t" for t
    using p by (auto simp: pool_new_def slot_live_def split: if_splits)
  with pool_inv_new [OF p] s assms(2,3) p show ?thesis
    by (auto simp: om_new_def om_inv_def core_inv_def map_get_def)
qed

end
