(* ===== verification/OmExample.thy ===== *)
theory OmExample
  imports OmSteps
begin

text \<open>
  A concrete manager for the witnesses: one venue whose client counts its calls and accepts (or
  refuses) everything, a pool of two slots, one buy order of 10 and the states it goes through.
\<close>

definition ex_client :: "SendResult \<Rightarrow> nat ExchangeClient" where
  "ex_client r = \<lparr>ec_venue_id = (\<lambda>_. 0), ec_place_order = (\<lambda>_ n. (r, n + 1)),
     ec_cancel_order = (\<lambda>_ _ n. (r, n + 1)), ec_get_positions = (\<lambda>_. Map.empty),
     ec_get_order_book = (\<lambda>_ _. empty_book), ec_is_connected = (\<lambda>_. True),
     ec_supports_mass_cancel = False, ec_mass_cancel = default_mass_cancel\<rparr>"

definition ex_health :: HealthModel where
  "ex_health = register_venue 0 (health_new
     (default_health_config\<lparr>reject_window := 4, latency_window := 4,
        reject_high := 1 / 2, reject_low := 1 / 4, probe_weight := 1 / 4, degraded_weight := 1 / 2\<rparr>) None 100)"

definition ex_pool :: OrderPool where
  "ex_pool = \<lparr>capacity = 2, in_use = 0, slots = [default_order, default_order],
     generation = [0, 0], allocated = [False, False], free_list = [1, 0]\<rparr>"

text \<open>What the constructor builds for this venue, written out.\<close>

definition ex_om :: "nat OrderManager" where
  "ex_om = \<lparr>om_pool = ex_pool, om_registry = \<lparr>by_venue = [Some 0], reg_count = 1\<rparr>,
     om_router = [0], om_health = ex_health, om_log = Some [], om_clock = 100,
     om_positions = Map.empty, om_pending_signed = Map.empty, om_venue_seq = Map.empty,
     om_trade_ids = Map.empty, om_live = {}, om_live_iter = sorted_list_of_set,
     om_expected_fcr = {}, om_retired_fifo = [], om_retired_grace = 4096, om_killed = False,
     om_kill_reason = [], om_rebalance_incomplete = False, om_false_cancel_reject_count = 0,
     om_reconcile_requested = False, om_unknown_fill_count = 0,
     om_unknown_fill_hardstop_threshold = 3, om_reject_count = 0, om_ack_timeout_count = 0,
     om_unsolicited_cancel_count = 0, om_oos_dropped_count = 0\<rparr>"

definition ex_request :: OrderRequest where
  "ex_request = default_request\<lparr>rq_instrument := 7, rq_size := 10, rq_price := 50\<rparr>"

definition ex_placed :: "nat OrderManager" where
  "ex_placed = snd (projr (submit (ex_client SendOk) ex_request ex_om))"

definition ex_id :: OrderIdRaw where
  "ex_id = encode_order_id 0 0 0 1"

definition ex_partial :: "nat OrderManager" where
  "ex_partial = fst (projr (on_fill ex_id 4 50 900 120 ex_placed))"

definition ex_filled :: "nat OrderManager" where
  "ex_filled = fst (projr (on_fill ex_id 6 51 901 130 ex_partial))"

lemma replicate_two: "replicate 2 x = [x, x]"
  by (simp add: numeral_2_eq_2)

lemma ex_om_new: "om_new \<lparr>by_venue = [Some 0], reg_count = 1\<rparr> [0] ex_health (Some []) 2
    sorted_list_of_set 100 = Inr ex_om"
proof -
  have "map (\<lambda>i. 2 - 1 - i) [0..<2] = [1, 0 :: nat]"
    by (simp add: upt_rec numeral_2_eq_2)
  moreover have "(2 :: nat) \<le> unat kMaxSlots" by (simp add: kMaxSlots_eq)
  ultimately have "pool_new 2 = Inr ex_pool" by (simp add: pool_new_def ex_pool_def replicate_two)
  then show ?thesis by (simp add: om_new_def ex_om_def)
qed

lemma ex_om_inv: "om_inv ex_om"
  by (rule om_new_inv [OF ex_om_new])
    (auto simp: ex_health_def register_venue_def health_new_def hm_registered_def)

lemma ex_request_valid: "valid_request ex_request"
  by (simp add: valid_request_def ex_request_def default_request_def)

lemma ex_om_facts:
  "\<not> om_killed ex_om" "om_router ex_om = [0]" "venue_up (om_health ex_om) 0"
  "registry_get (om_registry ex_om) 0 = Some 0" "\<not> pool_full (om_pool ex_om)"
  by code_simp+

text \<open>The order the client is handed, and the two outcomes of placing it.\<close>

definition ex_order :: Order where
  "ex_order = default_order\<lparr>o_internal_id := ex_id, o_size := 10, o_limit_price := 50,
     o_instrument := 7, o_ts := zero_ts\<lparr>ts_created := 100\<rparr>\<rparr>"

lemma ex_reserved:
  obtains s where "reserve_order ex_request 0 ex_om = Inr (ex_id, s)" and "order_ref s ex_id = ex_order"
proof -
  have "(case reserve_order ex_request 0 ex_om of Inl e \<Rightarrow> False
      | Inr (i, s) \<Rightarrow> i = ex_id \<and> order_ref s i = ex_order)"
    by code_simp
  then show thesis using that by (auto split: sum.splits)
qed

lemma ex_place:
  obtains s1 where "om_inv s1" and "om_live s1 = {ex_id}" and "order_ref s1 ex_id = ex_order"
    and "om_trade_ids s1 ex_id = None" and "om_retired_fifo s1 = []" and "\<not> om_killed s1"
    and "om_clock s1 = 100" and "venue_of ex_id = 0"
    and "submit (ex_client r) ex_request ex_om = place_reserved (ex_client r) ex_request 0 0 ex_id s1"
proof (rule submit_cases [OF ex_om_inv ex_request_valid, of "ex_client r"])
  fix venue ex i s1 r' ex'
  assume a: "venue \<in> set (om_router ex_om)" "registry_get (om_registry ex_om) venue = Some ex"
    "reserve_order ex_request venue ex_om = Inr (i, s1)"
    "place_reserved (ex_client r) ex_request venue ex i s1 = submit (ex_client r) ex_request ex_om"
    "\<not> pool_full (om_pool ex_om)" "venue \<in> hm_registered (om_health ex_om)"
  have v: "venue = 0" "ex = 0" using a(1,2) ex_om_facts by auto
  obtain s where s: "reserve_order ex_request 0 ex_om = Inr (ex_id, s)" "order_ref s ex_id = ex_order"
    by (rule ex_reserved)
  have eq: "i = ex_id" "s1 = s" using a(3) s(1) v by auto
  show thesis
  proof (rule reserve_order_ok [OF ex_om_inv a(5) ex_request_valid a(6)], goal_cases)
    case (1 i' s' ord)
    then have eq': "i' = ex_id" "s' = s" using s(1) v by auto
    show ?thesis
      by (rule that [of s]) (use 1 eq eq' s(2) a(4) v in \<open>auto simp: ex_om_def\<close>)
  qed
qed (use ex_om_facts in auto)

lemma ex_order_fields:
  "o_size ex_order = 10" "o_filled_size ex_order = 0" "o_instrument ex_order = 7" "o_side ex_order = Buy"
  "o_status ex_order = New"
  by (simp_all add: ex_order_def default_order_def)

lemma ex_request_fields:
  "rq_size ex_request = 10" "rq_instrument ex_request = 7" "rq_side ex_request = Buy"
  by (simp_all add: ex_request_def default_request_def)

lemma ex_submit_placed:
  obtains s where "submit (ex_client SendOk) ex_request ex_om = Inr (ex_id, s)" and "om_live s = {ex_id}"
    and "order_ref s ex_id = ex_order\<lparr>o_status := Sent, o_ts := (o_ts ex_order)\<lparr>ts_sent := 100\<rparr>\<rparr>"
    and "om_trade_ids s ex_id = None" and "\<not> om_killed s" and "om_retired_fifo s = []"
proof (rule ex_place [of SendOk])
  fix s1 assume a: "om_inv s1" "om_live s1 = {ex_id}" "order_ref s1 ex_id = ex_order"
    "om_trade_ids s1 ex_id = None" "om_retired_fifo s1 = []" "\<not> om_killed s1" "om_clock s1 = 100"
    "venue_of ex_id = 0"
    "submit (ex_client SendOk) ex_request ex_om = place_reserved (ex_client SendOk) ex_request 0 0 ex_id s1"
  have call: "ec_place_order (ex_client SendOk) (order_ref s1 ex_id) 0 = (SendOk, 1)"
    by (simp add: ex_client_def)
  show thesis
    by (rule place_reserved_ok [OF a(1) _ ex_request_valid _ _ _ _ a(8) call])
      (use a that in \<open>simp_all add: ex_order_fields ex_request_fields\<close>)
qed

lemma ex_submit_refused:
  obtains s where "submit (ex_client RejectedLocally) ex_request ex_om = Inr (0, s)" and "om_live s = {}"
proof (rule ex_place [of RejectedLocally])
  fix s1 assume a: "om_inv s1" "om_live s1 = {ex_id}" "order_ref s1 ex_id = ex_order"
    "venue_of ex_id = 0" "submit (ex_client RejectedLocally) ex_request ex_om
       = place_reserved (ex_client RejectedLocally) ex_request 0 0 ex_id s1"
  have call: "ec_place_order (ex_client RejectedLocally) (order_ref s1 ex_id) 0 = (RejectedLocally, 1)"
    by (simp add: ex_client_def)
  note live = a(2) [THEN equalityD2, THEN subsetD, OF singletonI]
  note pre = a(1) live ex_request_valid
  have "o_size (order_ref s1 ex_id) = rq_size ex_request" "o_filled_size (order_ref s1 ex_id) = 0"
    "o_instrument (order_ref s1 ex_id) = rq_instrument ex_request"
    "o_side (order_ref s1 ex_id) = rq_side ex_request"
    by (simp_all add: a(3) ex_order_fields ex_request_fields)
  from place_reserved_ok [OF pre this a(4) call] show thesis
  proof cases
    case (2 s')
    then show thesis using a(2) by (intro that [of s']) (simp_all add: a(5))
  qed simp
qed

lemma ex_submit: "submit (ex_client SendOk) ex_request ex_om = Inr (ex_id, ex_placed)"
  by (rule ex_submit_placed) (simp add: ex_placed_def)

lemma ex_placed_inv: "om_inv ex_placed"
  using submit_ok [OF ex_om_inv ex_request_valid] ex_submit by (metis Inr_inject prod.inject)

lemma ex_placed_facts:
  "om_live ex_placed = {ex_id}"
  "order_ref ex_placed ex_id = ex_order\<lparr>o_status := Sent, o_ts := (o_ts ex_order)\<lparr>ts_sent := 100\<rparr>\<rparr>"
  "om_trade_ids ex_placed ex_id = None" "\<not> om_killed ex_placed" "om_retired_fifo ex_placed = []"
  by (rule ex_submit_placed; use ex_submit in simp)+

lemma ex_placed_current: "is_current ex_id (om_pool ex_placed)"
  by (rule om_live_current [OF ex_placed_inv]) (simp add: ex_placed_facts)

lemma ex_placed_live: "om_live ex_placed = {ex_id}"
  by (simp add: ex_placed_facts)

lemma ex_placed_genuine: "genuine ex_placed ex_id"
  by (rule om_live_genuine [OF ex_placed_inv]) (simp add: ex_placed_live)

text \<open>A first fill of 4 leaves the order working; a second one of 6 completes it.\<close>

lemma ex_fill_partial:
  obtains ev where "on_fill ex_id 4 50 900 120 ex_placed = Inr (ex_partial, [ev])"
    and "om_inv ex_partial" and "om_live ex_partial = {ex_id}"
    and "order_ref ex_partial ex_id = filled_order 4 50 120 (order_ref ex_placed ex_id)"
    and "om_trade_ids ex_partial ex_id = Some {900}"
proof (cases rule: on_fill_cases [OF ex_placed_inv ex_placed_genuine,
      where qty = 4 and price = 50 and ts = 120 and trade = 900])
  case (1 vr)
  have "validate ex_id \<lparr>cx_kind = KFill, cx_trade_id = 900, cx_qty = 4, cx_price = 50\<rparr> ex_placed = ValidOk"
    by (simp add: ex_placed_facts ex_placed_current validate_def remaining_def ex_order_fields)
  with 1(1,2) show ?thesis by simp
next
  case (2 s1)
  have "ex_partial = s1" by (simp only: ex_partial_def 2(6) sum.sel fst_conv)
  with 2(6-8,9,12) that show ?thesis
    by (simp add: ex_placed_live map_upd_def map_get_def ex_placed_facts)
next
  case (3 s1 s2)
  then show ?thesis by (simp add: ex_placed_facts remaining_def ex_order_fields)
qed

lemma ex_partial_inv: "om_inv ex_partial"
  using ex_fill_partial by blast

lemma ex_partial_genuine: "genuine ex_partial ex_id"
  using ex_fill_partial om_live_genuine [OF ex_partial_inv] by blast

lemma ex_partial_order: "order_ref ex_partial ex_id = filled_order 4 50 120 (order_ref ex_placed ex_id)"
  using ex_fill_partial by blast

lemma ex_fill_completed:
  obtains ev where "on_fill ex_id 6 51 901 130 ex_partial = Inr (ex_filled, [ev])"
    and "om_inv ex_filled" and "om_live ex_filled = {}" and "genuine ex_filled ex_id"
    and "o_status (order_ref ex_filled ex_id) = Filled" and "is_current ex_id (om_pool ex_filled)"
proof -
  obtain ev where p: "on_fill ex_id 4 50 900 120 ex_placed = Inr (ex_partial, [ev])"
      "om_live ex_partial = {ex_id}" "om_trade_ids ex_partial ex_id = Some {900}"
    by (rule ex_fill_partial)
  have cur: "is_current ex_id (om_pool ex_partial)"
    using om_live_current [OF ex_partial_inv] p(2) by simp
  have op: "\<not> is_terminal (o_status (order_ref ex_partial ex_id))"
    using om_inv_open [OF ex_partial_inv] p(2) by simp
  have rem: "remaining (order_ref ex_partial ex_id) = 6"
    by (simp add: ex_partial_order remaining_def filled_order_fields ex_placed_facts ex_order_fields)
  show thesis
  proof (cases rule: on_fill_cases [OF ex_partial_inv ex_partial_genuine,
        where qty = 6 and price = 51 and ts = 130 and trade = 901])
    case (1 vr)
    have "validate ex_id \<lparr>cx_kind = KFill, cx_trade_id = 901, cx_qty = 6, cx_price = 51\<rparr> ex_partial = ValidOk"
      using p(3) cur op rem by (simp add: validate_def Let_def)
    with 1(1,2) show ?thesis by simp
  next
    case (2 s1)
    then show ?thesis using rem by simp
  next
    case (3 s1 s2)
    have "ex_filled = s2" by (simp only: ex_filled_def 3(6) sum.sel fst_conv)
    moreover have "genuine s2 ex_id" "is_current ex_id (om_pool s2)"
      using core_id [OF om_inv_core [OF 3(7)], of ex_id] core_current [OF om_inv_core [OF 3(7)], of ex_id] 3(17)
      by (simp_all add: genuine_def order_ref_at)
    moreover have "o_status (order_ref s2 ex_id) = Filled"
      using 3(17) rem by (simp add: filled_order_fields remaining_def)
    ultimately show ?thesis using that 3(6,7,9) p(2) by simp
  qed
qed

end
