(* ===== verification/OmProps.thy ===== *)
theory OmProps
  imports OmExample
begin

text \<open>
  The properties of the order manager: what holds in every reachable state, what each operation
  does to exposure, positions and the log, the exactly-once booking of fills, the kill switch and
  the failure modes.
\<close>

section \<open>Reachable states\<close>

text \<open>C1: every state the manager can reach, by any interleaving of submits, cancels, venue events,
  timeouts and clock or venue changes, satisfies the invariant: the pool, the live index, the
  dedup sets, the expected false cancel-rejects and the retired queue agree with one another.\<close>

theorem reachable_om_inv:
  assumes "om_new registry router health sink cap iter now = Inr s0"
    and "set router \<subseteq> hm_registered health" and "\<forall>A. set (iter A) = A"
    and "(om_step ops)\<^sup>*\<^sup>* s0 s"
  shows "om_inv s"
  using om_reach_inv [OF assms(4) om_new_inv [OF assms(1-3)]] .

lemma ex_router: "set [0] \<subseteq> hm_registered ex_health"
  by (simp add: ex_health_def register_venue_def health_new_def hm_registered_def)

lemma ex_iter: "\<forall>A. set ((sorted_list_of_set :: OrderIdRaw set \<Rightarrow> OrderIdRaw list) A) = A"
  by simp

lemma ex_run: "(om_step (ex_client SendOk))\<^sup>*\<^sup>* ex_om ex_filled"
proof -
  obtain e1 where e1: "on_fill ex_id 4 50 900 120 ex_placed = Inr (ex_partial, [e1])" by (rule ex_fill_partial)
  obtain e2 where e2: "on_fill ex_id 6 51 901 130 ex_partial = Inr (ex_filled, [e2])" by (rule ex_fill_completed)
  have "om_step (ex_client SendOk) ex_om ex_placed" by (rule st_submit [OF ex_request_valid ex_submit])
  moreover have "om_step (ex_client SendOk) ex_placed ex_partial" by (rule st_fill [OF ex_placed_genuine e1])
  moreover have "om_step (ex_client SendOk) ex_partial ex_filled" by (rule st_fill [OF ex_partial_genuine e2])
  ultimately show ?thesis by (meson r_into_rtranclp rtranclp_trans)
qed

lemma ex_run_placed: "(om_step (ex_client SendOk))\<^sup>*\<^sup>* ex_om ex_placed"
  using st_submit [OF ex_request_valid ex_submit] by blast

theorem reachable_om_inv_witness: "om_inv ex_filled"
  by (rule reachable_om_inv [OF ex_om_new ex_router ex_iter ex_run])

lemma pending_sum: "om_inv s \<Longrightarrow> pending_quantity s k = (\<Sum>i \<in> om_live s. contrib (order_ref s i) k)"
  using om_inv_core [of s] by (simp add: core_inv_def pending_quantity_def order_ref_at)

text \<open>C6: in every reachable state the pending quantity of an instrument is the signed sum of what
  the live orders on it have left, and every live order is found, is not terminal and is never
  filled beyond its size.\<close>

theorem pending_is_open_interest:
  assumes "om_new registry router health sink cap iter now = Inr s0"
    and "set router \<subseteq> hm_registered health" and "\<forall>A. set (iter A) = A"
    and "(om_step ops)\<^sup>*\<^sup>* s0 s"
  shows "pending_quantity s k = (\<Sum>i \<in> {i \<in> om_live s. o_instrument (order_ref s i) = k}.
            signed_qty (o_side (order_ref s i)) (remaining (order_ref s i)))
       \<and> (\<forall>i \<in> om_live s. find_order s i = Some (order_ref s i)
            \<and> \<not> is_terminal (o_status (order_ref s i))
            \<and> 0 \<le> o_filled_size (order_ref s i) \<and> o_filled_size (order_ref s i) \<le> o_size (order_ref s i))"
proof -
  have inv: "om_inv s" by (rule om_reach_inv [OF assms(4) om_new_inv [OF assms(1-3)]])
  have fin: "finite (om_live s)" by simp
  have "pending_quantity s k = (\<Sum>i \<in> om_live s. contrib (order_ref s i) k)" by (rule pending_sum [OF inv])
  also have "\<dots> = (\<Sum>i \<in> {i \<in> om_live s. o_instrument (order_ref s i) = k}.
      signed_qty (o_side (order_ref s i)) (remaining (order_ref s i)))"
    unfolding contrib_def by (rule sum.inter_filter [OF fin, symmetric])
  finally show ?thesis
    using om_inv_good [OF inv] om_inv_open [OF inv] om_live_current [OF inv]
    by (auto simp: find_order_def good_order_def)
qed

theorem pending_is_open_interest_witness:
  "pending_quantity ex_placed 7 = 10"
  using pending_is_open_interest [OF ex_om_new ex_router ex_iter ex_run_placed, of 7]
  by (simp add: ex_placed_facts ex_order_fields remaining_def Collect_conv_if)

text \<open>Whatever a venue reports, the handlers return.\<close>

lemma handlers_return:
  assumes "om_inv s" and "genuine s i"
  shows "\<exists>r. on_confirm i x ts s = Inr r" and "\<exists>r. on_fill i qty price trade ts s = Inr r"
    and "\<exists>r. on_reject i reason ts s = Inr r" and "\<exists>r. on_cancel_ack i ts s = Inr r"
    and "\<exists>r. on_unsolicited_cancel i ts s = Inr r"
proof -
  show "\<exists>r. on_confirm i x ts s = Inr r"
    by (cases rule: on_confirm_cases [OF assms, where x = x and ts = ts]) blast+
  show "\<exists>r. on_fill i qty price trade ts s = Inr r"
    by (cases rule: on_fill_cases [OF assms, where qty = qty and price = price and ts = ts and trade = trade]) blast+
  show "\<exists>r. on_reject i reason ts s = Inr r"
    by (cases rule: on_reject_cases [OF assms, where reason = reason and ts = ts]) blast+
  show "\<exists>r. on_cancel_ack i ts s = Inr r" unfolding on_cancel_ack_def
    by (cases rule: finish_cancel_cases [OF assms, where kind = KCancelAck and ts = ts
          and pub = EvCancelled and uns = False]) blast+
  show "\<exists>r. on_unsolicited_cancel i ts s = Inr r" unfolding on_unsolicited_cancel_def
    by (cases rule: finish_cancel_cases [OF assms, where kind = KUnsolicitedCancel and ts = ts
          and pub = EvUnsolicitedCancel and uns = True]) blast+
qed

text \<open>C15: no operation aborts in a state of the invariant: no acquire from an empty pool, no
  release of a free slot, no unregistered venue, whatever the venue answers.\<close>

theorem operations_never_abort:
  assumes "om_inv s" and "genuine s i" and "valid_request req" and "v \<in> hm_registered (om_health s)"
  shows "(\<exists>r. submit ops req s = Inr r) \<and> (\<exists>r. on_confirm i x ts s = Inr r)
    \<and> (\<exists>r. on_fill i qty price trade ts s = Inr r) \<and> (\<exists>r. on_reject i reason ts s = Inr r)
    \<and> (\<exists>r. on_cancel_ack i ts s = Inr r) \<and> (\<exists>r. on_unsolicited_cancel i ts s = Inr r)
    \<and> (\<exists>r. check_ack_timeouts ops now timeout s = Inr r)
    \<and> (\<exists>r. on_venue_disconnect v s = Inr r) \<and> (\<exists>r. on_venue_reconnect v s = Inr r)"
proof (intro conjI handlers_return [OF assms(1,2)])
  show "\<exists>r. submit ops req s = Inr r" using submit_ok [OF assms(1,3)] by blast
  show "\<exists>r. check_ack_timeouts ops now timeout s = Inr r"
    by (rule check_ack_timeouts_ok [OF assms(1), of ops now timeout]) (rule exI)
  show "\<exists>r. on_venue_disconnect v s = Inr r" "\<exists>r. on_venue_reconnect v s = Inr r"
    using venue_events_ok [OF assms(1,4)] by blast+
qed

theorem operations_never_abort_witness:
  "\<exists>r. on_fill ex_id 4 50 900 120 ex_placed = Inr r"
proof -
  have "0 \<in> hm_registered (om_health ex_placed)"
    using om_inv_venue [OF ex_placed_inv, of ex_id] by (simp add: ex_placed_live venue_of_def ex_id_def)
  then show ?thesis
    using operations_never_abort [OF ex_placed_inv ex_placed_genuine ex_request_valid] by blast
qed

section \<open>Fills and exposure\<close>

text \<open>C8: a fill moves exposure from pending to booked and never changes the total: for every
  instrument and target the execution delta is the same before and after \<^verbatim>\<open>on_fill\<close>, whether the
  fill was accepted or dropped.\<close>

theorem fill_conserves_exposure:
  assumes "om_inv s" and "genuine s i" and "on_fill i qty price trade ts s = Inr (s', evs)"
  shows "execution_delta s' k target = execution_delta s k target"
proof -
  have "pos_net (position s' k) + pending_quantity s' k = pos_net (position s k) + pending_quantity s k"
  proof (cases rule: on_fill_cases [OF assms(1,2), where qty = qty and price = price and ts = ts
        and trade = trade])
    case (1 vr)
    with assms(3) show ?thesis by (auto simp: position_def pending_quantity_def)
  next
    case (2 s1)
    with assms(3) show ?thesis by (simp add: position_def pending_quantity_def)
  next
    case (3 s1 s2)
    have "pending_quantity s1 k = map_get 0 (om_pending_signed (book_fill i qty price trade ts s)) k"
      using 3(11) by (simp add: pending_quantity_def)
    with 3 assms(3) show ?thesis by (simp add: position_def pending_quantity_def)
  qed
  then show ?thesis by (simp add: execution_delta_def)
qed

theorem fill_conserves_exposure_witness:
  "execution_delta ex_partial 7 10 = execution_delta ex_placed 7 10"
proof -
  obtain e1 where e1: "on_fill ex_id 4 50 900 120 ex_placed = Inr (ex_partial, [e1])" by (rule ex_fill_partial)
  show ?thesis by (rule fill_conserves_exposure [OF ex_placed_inv ex_placed_genuine e1])
qed

text \<open>C14: an accepted fill is booked completely before it is published: subscribers already see the
  new position, and the event carries the order's new cumulative fill and status, \<open>Filled\<close> exactly
  when the order is complete.\<close>

theorem fill_booked_before_publish:
  assumes "om_inv s" and "genuine s i" and "on_fill i qty price trade ts s = Inr (s', evs)"
    and "evs \<noteq> []"
  shows "\<exists>ev seen. evs = [(ev, seen)] \<and> ev_last_qty ev = qty \<and> ev_last_price ev = price
    \<and> ev_filled_size ev = o_filled_size (order_ref s i) + qty \<and> ev_filled_size ev \<le> ev_size ev
    \<and> (ev_kind ev = EvFill \<longleftrightarrow> ev_filled_size ev = ev_size ev)
    \<and> (ev_status ev = Filled \<longleftrightarrow> ev_filled_size ev = ev_size ev)
    \<and> position seen (ev_instrument ev)
        = pos_apply (signed_qty (o_side (order_ref s i)) qty) price ts 0
            (position s (o_instrument (order_ref s i)))
    \<and> om_positions s' = om_positions seen"
proof (cases rule: on_fill_cases [OF assms(1,2), where qty = qty and price = price and ts = ts
        and trade = trade])
  case (1 vr)
  with assms(3,4) show ?thesis by simp
next
  case (2 s1)
  with assms(3) show ?thesis
    by (auto simp: mk_event_def filled_order_fields position_def remaining_def)
next
  case (3 s1 s2)
  with assms(3) show ?thesis
    by (auto simp: mk_event_def filled_order_fields position_def remaining_def)
qed

theorem fill_booked_before_publish_witness:
  "\<exists>ev seen. on_fill ex_id 4 50 900 120 ex_placed = Inr (ex_partial, [(ev, seen)])
     \<and> ev_filled_size ev = 4 \<and> pos_net (position seen (ev_instrument ev)) = pos_net (position ex_placed 7) + 4"
proof -
  obtain e1 where e1: "on_fill ex_id 4 50 900 120 ex_placed = Inr (ex_partial, [e1])" by (rule ex_fill_partial)
  show ?thesis
    using fill_booked_before_publish [OF ex_placed_inv ex_placed_genuine e1] e1
    by (auto simp: ex_placed_facts ex_order_fields)
qed

end
