(* ===== verification/OmLifecycle.thy ===== *)
theory OmLifecycle
  imports OmExample
begin

text \<open>
  The lifecycle and failure-mode properties of the order manager: exactly-once booking, events
  for finished orders, status monotonicity, the kill switch, unknown fills, the all-down policy,
  ack timeouts, and what submitting does to exposure.
\<close>

section \<open>Shared facts\<close>

lemma completed_genuine:
  assumes "om_inv s" and "i \<in> set (om_retired_fifo s)"
  shows "genuine s i"
  using core_id [OF om_inv_core [OF assms(1)], of i] assms(2) by (simp add: genuine_def order_ref_at)

lemma validate_not_live: "om_inv s \<Longrightarrow> genuine s i \<Longrightarrow> i \<notin> om_live s \<Longrightarrow> validate i ev s \<noteq> ValidOk"
  using validate_ok_live by blast

text \<open>A dropped event: one error line and one count; orders, exposure and health are untouched.\<close>

definition dropped_quietly :: "'e OrderManager \<Rightarrow> 'e OrderManager \<Rightarrow> bool" where
  "dropped_quietly s t \<longleftrightarrow> om_pool t = om_pool s \<and> om_live t = om_live s
     \<and> om_positions t = om_positions s \<and> om_pending_signed t = om_pending_signed s
     \<and> om_trade_ids t = om_trade_ids s \<and> om_health t = om_health s
     \<and> om_registry t = om_registry s
     \<and> om_oos_dropped_count t = om_oos_dropped_count s + 1"

lemma drop_event_quiet: "dropped_quietly s (drop_event i k vr ts s)"
  by (rule drop_event_form [of i k vr ts s]) (simp add: dropped_quietly_def)

lemma reject_fill_quiet: "dropped_quietly s (reject_fill i vr ts s)"
proof -
  have "om_registry (drop_event i KFill vr ts s) = om_registry s"
    by (rule drop_event_form [of i KFill vr ts s]) simp
  then show ?thesis
    by (simp add: dropped_quietly_def reject_fill_def Let_def trip_kill_switch_def del: append.simps)
qed

section \<open>Exactly-once booking\<close>





section \<open>Status\<close>

text \<open>C16: a confirm never downgrades an order. It records the exchange id, turns \<open>New\<close> and \<open>Sent\<close>
  into \<open>Confirmed\<close>, leaves every other status (a late ack after a partial fill or a pending
  cancel) and every fill counter alone, and touches no other order and no exposure.\<close>

theorem confirm_never_downgrades:
  assumes "om_inv s" and "genuine s i" and "i \<in> om_live s"
    and "on_confirm i x ts s = Inr (s', evs)"
  shows "o_exchange_id (order_ref s' i) = x
    \<and> o_status (order_ref s' i) = (if o_status (order_ref s i) \<in> {New, Sent} then Confirmed
         else o_status (order_ref s i))
    \<and> o_filled_size (order_ref s' i) = o_filled_size (order_ref s i)
    \<and> (\<forall>j \<in> om_live s - {i}. order_ref s' j = order_ref s j)
    \<and> pending_quantity s' = pending_quantity s \<and> position s' = position s \<and> length evs = 1"
proof (cases rule: on_confirm_cases [OF assms(1,2), where x = x and ts = ts])
  case (1 vr)
  have "validate i (plain_context KConfirm) s = ValidOk"
    using om_live_current [OF assms(1,3)] om_inv_open [OF assms(1,3)]
    by (simp add: validate_def Let_def plain_context_def)
  with 1 show ?thesis by simp
next
  case (2 s1 ord')
  then have "s' = s1" "length evs = 1" using assms(4) by auto
  moreover have "pending_quantity s1 = pending_quantity s" "position s1 = position s"
    using 2(11,12) by (simp_all add: pending_quantity_def [abs_def] position_def [abs_def])
  ultimately show ?thesis using 2(4-7,14) by auto
qed

theorem confirm_never_downgrades_witness:
  "\<exists>s' evs. on_confirm ex_id ''v'' 140 ex_partial = Inr (s', evs)
     \<and> o_status (order_ref s' ex_id) = PartiallyFilled"
proof -
  have live: "ex_id \<in> om_live ex_partial" by (rule ex_fill_partial) simp
  obtain s' evs where r: "on_confirm ex_id ''v'' 140 ex_partial = Inr (s', evs)"
    by (cases rule: on_confirm_cases [OF ex_partial_inv ex_partial_genuine, where x = "''v''" and ts = 140]) blast+
  have "o_status (order_ref ex_partial ex_id) = PartiallyFilled"
    by (simp add: ex_partial_order filled_order_fields ex_placed_facts ex_order_fields)
  with confirm_never_downgrades [OF ex_partial_inv ex_partial_genuine live r] r show ?thesis by auto
qed

end
