(* ===== verification/OmLedger.thy ===== *)
theory OmLedger
  imports OmExample
begin

text \<open>
  The abstract specification of the order manager: a ledger of open orders, net positions and
  pending quantities with three moves (open an order, fill one, close one). Every step of the
  manager is one of these moves or leaves the ledger alone.
\<close>

section \<open>The ledger\<close>

type_synonym entry = "InstrumentId \<times> Side \<times> Quantity \<times> Quantity"

record ledger =
  lg_open :: "OrderIdRaw \<rightharpoonup> entry"
  lg_net :: "InstrumentId \<Rightarrow> Quantity"
  lg_pending :: "InstrumentId \<Rightarrow> Quantity"

definition bump :: "InstrumentId \<Rightarrow> Quantity \<Rightarrow> (InstrumentId \<Rightarrow> Quantity) \<Rightarrow> InstrumentId \<Rightarrow> Quantity" where
  "bump k q f = (\<lambda>j. f j + (if j = k then q else 0))"

definition ledger_open :: "OrderIdRaw \<Rightarrow> InstrumentId \<Rightarrow> Side \<Rightarrow> Quantity \<Rightarrow> ledger \<Rightarrow> ledger" where
  "ledger_open i inst sd sz l = l\<lparr>lg_open := (lg_open l)(i \<mapsto> (inst, sd, sz, 0)),
     lg_pending := bump inst (signed_qty sd sz) (lg_pending l)\<rparr>"

definition ledger_fill :: "OrderIdRaw \<Rightarrow> Quantity \<Rightarrow> ledger \<Rightarrow> ledger" where
  "ledger_fill i qty l =
     (case lg_open l i of
        None \<Rightarrow> l
      | Some (inst, sd, sz, filled) \<Rightarrow>
          l\<lparr>lg_open := (if filled + qty = sz then (lg_open l)(i := None)
                        else (lg_open l)(i \<mapsto> (inst, sd, sz, filled + qty))),
            lg_net := bump inst (signed_qty sd qty) (lg_net l),
            lg_pending := bump inst (- signed_qty sd qty) (lg_pending l)\<rparr>)"

definition ledger_close :: "OrderIdRaw \<Rightarrow> ledger \<Rightarrow> ledger" where
  "ledger_close i l =
     (case lg_open l i of
        None \<Rightarrow> l
      | Some (inst, sd, sz, filled) \<Rightarrow>
          l\<lparr>lg_open := (lg_open l)(i := None),
            lg_pending := bump inst (- signed_qty sd (sz - filled)) (lg_pending l)\<rparr>)"

inductive ledger_step :: "ledger \<Rightarrow> ledger \<Rightarrow> bool" where
  lg_stay: "ledger_step l l"
| lg_opened: "lg_open l i = None \<Longrightarrow> 0 \<le> sz \<Longrightarrow> ledger_step l (ledger_open i inst sd sz l)"
| lg_filled: "lg_open l i = Some (inst, sd, sz, filled) \<Longrightarrow> 0 < qty \<Longrightarrow> qty \<le> sz - filled
     \<Longrightarrow> ledger_step l (ledger_fill i qty l)"
| lg_closed: "lg_open l i \<noteq> None \<Longrightarrow> ledger_step l (ledger_close i l)"

section \<open>The abstraction\<close>

definition econ :: "Order \<Rightarrow> entry" where
  "econ ord = (o_instrument ord, o_side ord, o_size ord, o_filled_size ord)"

definition ledger_of :: "'e OrderManager \<Rightarrow> ledger" where
  "ledger_of s = \<lparr>lg_open = (\<lambda>i. if i \<in> om_live s then Some (econ (order_ref s i)) else None),
     lg_net = (\<lambda>k. pos_net (position s k)), lg_pending = pending_quantity s\<rparr>"

lemma ledger_of_same:
  assumes "om_live t = om_live s" and "\<And>i. i \<in> om_live s \<Longrightarrow> econ (order_ref t i) = econ (order_ref s i)"
    and "om_positions t = om_positions s" and "om_pending_signed t = om_pending_signed s"
  shows "ledger_of t = ledger_of s"
  using assms by (simp add: ledger_of_def position_def pending_quantity_def [abs_def] cong: if_cong)

lemma ledger_of_closed:
  assumes "i \<in> om_live s" and "om_live t = om_live s - {i}" and "om_positions t = om_positions s"
    and "\<And>k. pending_quantity t k = pending_quantity s k - contrib (order_ref s i) k"
    and "\<And>j. j \<in> om_live s \<Longrightarrow> j \<noteq> i \<Longrightarrow> order_ref t j = order_ref s j"
  shows "ledger_step (ledger_of s) (ledger_of t)"
proof -
  have "position t = position s" using assms(3) by (simp add: position_def [abs_def])
  moreover have "pending_quantity t
      = bump (o_instrument (order_ref s i)) (- signed_qty (o_side (order_ref s i))
          (o_size (order_ref s i) - o_filled_size (order_ref s i))) (pending_quantity s)"
    using assms(4) by (auto simp: bump_def contrib_def remaining_def)
  moreover have "(\<lambda>j. if j \<in> om_live t then Some (econ (order_ref t j)) else None)
      = (\<lambda>j. if j \<in> om_live s then Some (econ (order_ref s j)) else None)(i := None)"
    using assms(2,5) by auto
  ultimately have "ledger_of t = ledger_close i (ledger_of s)"
    using assms(1) by (simp add: ledger_close_def ledger_of_def econ_def)
  then show ?thesis using lg_closed [of "ledger_of s" i] assms(1) by (simp add: ledger_of_def)
qed

section \<open>Economic fields survive everything but fills\<close>

definition same_econ :: "'e OrderManager \<Rightarrow> 'e OrderManager \<Rightarrow> bool" where
  "same_econ s t \<longleftrightarrow> om_inv t \<and> om_live t = om_live s \<and> om_live_iter t = om_live_iter s
     \<and> om_positions t = om_positions s
     \<and> om_pending_signed t = om_pending_signed s
     \<and> (\<forall>i \<in> om_live s. econ (order_ref t i) = econ (order_ref s i))"

lemma same_econ_ledger: "same_econ s t \<Longrightarrow> ledger_of t = ledger_of s"
  by (rule ledger_of_same) (auto simp: same_econ_def)

lemma same_econ_refl: "om_inv s \<Longrightarrow> same_econ s s"
  by (simp add: same_econ_def)

lemma same_econ_trans: "same_econ s t \<Longrightarrow> same_econ t u \<Longrightarrow> same_econ s u"
  by (auto simp: same_econ_def)

lemma same_econ_call:
  "om_inv s \<Longrightarrow> same_econ s (s\<lparr>om_registry := r\<rparr>)"
  by (simp add: same_econ_def order_ref_def)

lemma same_econ_log: "om_inv s \<Longrightarrow> same_econ s (om_log_line lv l s)"
  by (simp add: same_econ_def)

lemma same_econ_mark:
  assumes "om_inv s" and "i \<in> om_live s"
  shows "same_econ s (mark_cancel_sent i s)"
  using assms mark_cancel_ref [OF assms] mark_cancel_inv [OF assms]
  by (auto simp: same_econ_def econ_def mark_cancel_sent_def)

lemma same_econ_cancel:
  assumes inv: "om_inv s" and gen: "genuine s i"
  shows "same_econ s (snd (cancel ops i s))"
proof (cases "is_current i (om_pool s) \<and> \<not> is_terminal (o_status (order_ref s i))")
  case True
  with assms have i: "i \<in> om_live s" by (simp add: live_iff)
  show ?thesis
  proof (cases "registry_get (om_registry s) (venue_of i)")
    case None
    then show ?thesis using True by (simp add: cancel_def same_econ_refl [OF inv])
  next
    case (Some ex)
    obtain r ex' where c: "call_cancel ops i ex s
        = (r, s\<lparr>om_registry := registry_put (venue_of i) ex' (om_registry s)\<rparr>)" by (rule call_cancelE)
    have call: "same_econ s (s\<lparr>om_registry := registry_put (venue_of i) ex' (om_registry s)\<rparr>)"
      by (rule same_econ_call [OF inv])
    then have "same_econ s (mark_cancel_sent i (s\<lparr>om_registry := registry_put (venue_of i) ex' (om_registry s)\<rparr>))"
      by (rule same_econ_trans) (use inv i in \<open>simp add: same_econ_mark\<close>)
    moreover have "same_econ s (om_log_line Warn l (s\<lparr>om_registry := registry_put (venue_of i) ex' (om_registry s)\<rparr>))" for l
      using call by (rule same_econ_trans) (simp add: same_econ_log inv)
    ultimately show ?thesis using True Some c by (simp add: cancel_def del: append.simps)
  qed
next
  case False
  then show ?thesis
    by (cases "is_current i (om_pool s)") (simp_all add: cancel_def same_econ_log inv del: append.simps)
qed

lemma same_econ_cancel_working:
  assumes inv: "om_inv s"
  shows "same_econ s (cancel_working_orders ops s)"
  unfolding cancel_working_orders_def
proof (rule foldl_preserves [where P = "same_econ s"])
  show "same_econ s s" by (rule same_econ_refl [OF inv])
  fix t i assume t: "same_econ s t" and "i \<in> set (om_live_iter s (om_live s))"
  then have i: "i \<in> om_live t" and invt: "om_inv t" using om_inv_iter [OF inv] by (auto simp: same_econ_def)
  have "same_econ t (cancel_working_one ops t i)"
  proof (cases "registry_get (om_registry t) (venue_of i)")
    case None
    then show ?thesis by (simp add: cancel_working_one_def Let_def same_econ_refl [OF invt])
  next
    case (Some ex)
    obtain r ex' where c: "call_cancel ops i ex t
        = (r, t\<lparr>om_registry := registry_put (venue_of i) ex' (om_registry t)\<rparr>)" by (rule call_cancelE)
    have call: "same_econ t (t\<lparr>om_registry := registry_put (venue_of i) ex' (om_registry t)\<rparr>)"
      by (rule same_econ_call [OF invt])
    then have "same_econ t (mark_cancel_sent i (t\<lparr>om_registry := registry_put (venue_of i) ex' (om_registry t)\<rparr>))"
      by (rule same_econ_trans) (use invt i in \<open>simp add: same_econ_mark\<close>)
    with call Some c show ?thesis
      by (simp add: cancel_working_one_def Let_def same_econ_refl [OF invt])
  qed
  with t show "same_econ s (cancel_working_one ops t i)" by (rule same_econ_trans)
qed

section \<open>Every step is a ledger move\<close>

lemma submit_ledger:
  assumes inv: "om_inv s" and req: "valid_request req" and sub: "submit ops req s = Inr (j, s')"
  shows "ledger_of s' = ledger_of s \<and> om_live s' = om_live s
    \<or> j \<notin> om_live s \<and> om_live s' = insert j (om_live s)
      \<and> ledger_of s' = ledger_open j (rq_instrument req) (rq_side req) (rq_size req) (ledger_of s)"
proof (rule submit_cases [OF inv req, of ops])
  fix line
  assume "submit ops req s = Inr (0, cancel_working_orders ops
      (om_log_line LogError line (s\<lparr>om_rebalance_incomplete := True\<rparr>)))"
  moreover define t where "t = om_log_line LogError line (s\<lparr>om_rebalance_incomplete := True\<rparr>)"
  ultimately have s': "s' = cancel_working_orders ops t" using sub by simp
  have t: "om_inv t" "om_live t = om_live s" using inv by (simp_all add: t_def)
  have "ledger_of t = ledger_of s" by (rule ledger_of_same) (simp_all add: t_def order_ref_def om_log_line_def)
  then show ?thesis
    using same_econ_cancel_working [OF t(1), of ops] same_econ_ledger t(2) by (metis s' same_econ_def)
next
  fix venue ex i s1 r ex'
  assume a: "reserve_order req venue s = Inr (i, s1)" "ec_place_order ops (order_ref s1 i) ex = (r, ex')"
    "place_reserved ops req venue ex i s1 = submit ops req s"
    "\<not> pool_full (om_pool s)" "venue \<in> hm_registered (om_health s)"
  show ?thesis
  proof (rule reserve_order_ok [OF inv a(4) req a(5)], goal_cases)
    case (1 i' s1' ord)
    with a(1) have eq: "i' = i" "s1' = s1" by auto
    note b = 1 [unfolded eq]
    have i: "i \<in> om_live s1" using b(5) by simp
    have opened: "ledger_of s1 = ledger_open i (rq_instrument req) (rq_side req) (rq_size req) (ledger_of s)"
    proof -
      have "position s1 = position s" using b(15) by (rule ext)
      moreover have "pending_quantity s1 = bump (rq_instrument req) (signed_qty (rq_side req) (rq_size req))
          (pending_quantity s)"
        using b(14) by (simp add: bump_def fun_eq_iff)
      moreover have "(\<lambda>j. if j \<in> om_live s1 then Some (econ (order_ref s1 j)) else None)
          = (\<lambda>j. if j \<in> om_live s then Some (econ (order_ref s j)) else None)
              (i \<mapsto> (rq_instrument req, rq_side req, rq_size req, 0))"
        using b(3,5-11) b(24) by (auto simp: econ_def)
      ultimately show ?thesis by (simp add: ledger_of_def ledger_open_def)
    qed
    have fresh: "i \<notin> om_live s" using b(3) by simp
    note pl = place_reserved_ok [OF b(2) i req _ _ _ _ b(13) a(2)]
    show ?thesis
    proof (rule pl)
      fix t assume t: "place_reserved ops req venue ex i s1 = Inr (i, t)" "om_inv t"
        "om_live t = om_live s1"
        "order_ref t i = (order_ref s1 i)\<lparr>o_status := Sent, o_ts := (o_ts (order_ref s1 i))\<lparr>ts_sent := om_clock s1\<rparr>\<rparr>"
        "\<And>j. j \<in> om_live s1 \<Longrightarrow> j \<noteq> i \<Longrightarrow> order_ref t j = order_ref s1 j"
        "om_pending_signed t = om_pending_signed s1" "om_positions t = om_positions s1"
      have "ledger_of t = ledger_of s1"
      proof (rule ledger_of_same [OF t(3) _ t(7,6)])
        fix k assume "k \<in> om_live s1"
        then show "econ (order_ref t k) = econ (order_ref s1 k)"
          using t(4,5) by (cases "k = i") (simp_all add: econ_def)
      qed
      with t(1,3) a(3) sub opened fresh b(5) show ?thesis by simp
    next
      fix t assume t: "place_reserved ops req venue ex i s1 = Inr (0, t)" "om_live t = om_live s1 - {i}"
        "\<And>k. pending_quantity t k = pending_quantity s1 k - contrib (order_ref s1 i) k"
        "om_positions t = om_positions s1"
        "\<And>j. j \<in> om_live s1 \<Longrightarrow> j \<noteq> i \<Longrightarrow> order_ref t j = order_ref s1 j"
      have "om_live t = om_live s" using t(2) b(5) fresh by simp
      moreover have "pending_quantity t = pending_quantity s"
        using t(3) b(6-11,14) by (auto simp: contrib_def remaining_def)
      moreover have "position t = position s"
        using t(4) b(15) by (intro ext) (simp add: position_def)
      moreover have "order_ref t j = order_ref s j" if "j \<in> om_live s" for j
        using t(5) [of j] b(24) [of j] b(5) that fresh by auto
      ultimately have "ledger_of t = ledger_of s" by (simp add: ledger_of_def cong: if_cong)
      with t(1) a(3) sub \<open>om_live t = om_live s\<close> show ?thesis by simp
    qed (use b in simp_all)
  qed
qed (use sub in \<open>auto simp: ledger_of_def position_def pending_quantity_def order_ref_def simp del: append.simps\<close>)

text \<open>What a fill does to the ledger, accepted or not.\<close>

lemma fill_ledger:
  assumes inv: "om_inv s" and gen: "genuine s i" and fill: "on_fill i qty price trade ts s = Inr (s', evs)"
  shows "evs = [] \<and> ledger_of s' = ledger_of s
    \<or> evs \<noteq> [] \<and> i \<in> om_live s \<and> 0 < qty \<and> qty \<le> remaining (order_ref s i)
      \<and> ledger_of s' = ledger_fill i qty (ledger_of s)"
proof -
  let ?o = "order_ref s i" and ?o' = "filled_order qty price ts (order_ref s i)"
  have pos: "(\<lambda>k. pos_net (map_get empty_position (om_positions (book_fill i qty price trade ts s)) k))
      = bump (o_instrument ?o) (signed_qty (o_side ?o) qty) (\<lambda>k. pos_net (position s k))"
    by (auto simp: bump_def position_def)
  have pend: "map_get 0 (om_pending_signed (book_fill i qty price trade ts s))
      = bump (o_instrument ?o) (- signed_qty (o_side ?o) qty) (pending_quantity s)"
    by (auto simp: bump_def pending_quantity_def fun_eq_iff)
  have e': "econ ?o' = (o_instrument ?o, o_side ?o, o_size ?o, o_filled_size ?o + qty)"
    by (simp add: econ_def filled_order_fields)
  show ?thesis
  proof (cases rule: on_fill_cases [OF inv gen, where qty = qty and price = price and ts = ts
        and trade = trade])
    case (1 vr)
    with fill have "s' = reject_fill i vr ts s" "evs = []" by auto
    then show ?thesis using ledger_of_same [of s' s] by (simp add: order_ref_def)
  next
    case (2 s1)
    with fill have s': "s' = s1" "evs \<noteq> []" by auto
    have op: "(\<lambda>j. if j \<in> om_live s1 then Some (econ (order_ref s1 j)) else None)
        = (\<lambda>j. if j \<in> om_live s then Some (econ (order_ref s j)) else None)(i \<mapsto> econ ?o')"
      using 2(1,8,9,13) by auto
    have "ledger_of s1 = ledger_fill i qty (ledger_of s)"
      using 2(1,4) op pos pend e'
      unfolding ledger_of_def ledger_fill_def position_def pending_quantity_def [abs_def] 2(10,11)
      by (simp add: econ_def remaining_def position_def pending_quantity_def [abs_def])
    with 2(1,2,4) s' show ?thesis by simp
  next
    case (3 s1 s2)
    with fill have s': "s' = s2" "evs \<noteq> []" by auto
    have op: "(\<lambda>j. if j \<in> om_live s2 then Some (econ (order_ref s2 j)) else None)
        = (\<lambda>j. if j \<in> om_live s then Some (econ (order_ref s j)) else None)(i := None)"
      using 3(1,9,14) by auto
    have "pending_quantity s2 = map_get 0 (om_pending_signed (book_fill i qty price trade ts s))"
      using 3(11,13) by (intro ext) (simp add: pending_quantity_def)
    with 3(1,4,10,12) op pos pend have "ledger_of s2 = ledger_fill i qty (ledger_of s)"
      unfolding ledger_of_def ledger_fill_def position_def
      by (simp add: econ_def remaining_def position_def)
    with 3(1,2,4) s' show ?thesis by simp
  qed
qed

lemma ledger_frame:
  "ledger_of (trip_kill_switch why s) = ledger_of s"
  "ledger_of (s\<lparr>om_registry := r\<rparr>) = ledger_of s" "ledger_of (s\<lparr>om_health := h\<rparr>) = ledger_of s"
  "ledger_of (reset_rebalance_cycle s) = ledger_of s" "ledger_of (clear_reconcile_request s) = ledger_of s"
  "ledger_of (set_unknown_fill_hardstop_threshold n s) = ledger_of s"
  "ledger_of (set_om_clock now s) = ledger_of s"
  "ledger_of (drop_event i k vr ts s) = ledger_of s"
  "ledger_of (om_log_line lv l s) = ledger_of s"
  "ledger_of (s\<lparr>om_expected_fcr := X\<rparr>) = ledger_of s"
  "ledger_of (s\<lparr>om_reconcile_requested := b\<rparr>) = ledger_of s"
  by (rule ledger_of_same, simp_all add: order_ref_def reset_rebalance_cycle_def
      clear_reconcile_request_def set_unknown_fill_hardstop_threshold_def set_om_clock_def)+

lemma finish_cancel_ledger:
  assumes "om_inv s" and "genuine s i" and "finish_cancel i ts kind pub uns s = Inr (s', evs)"
  shows "ledger_step (ledger_of s) (ledger_of s')"
proof (cases rule: finish_cancel_cases [OF assms(1,2), where kind = kind and ts = ts and pub = pub and uns = uns])
  case (1 vr)
  with assms(3) show ?thesis by (auto simp: ledger_frame intro: lg_stay)
next
  case (2 ord' s1 s2)
  have "s' = s2" using 2(3) assms(3) by simp
  then show ?thesis using ledger_of_closed [OF 2(1,6-9)] by simp
qed

lemma venue_event_ledger:
  "on_venue_disconnect v s = Inr s' \<Longrightarrow> ledger_of s' = ledger_of s"
  "on_venue_reconnect v s = Inr s' \<Longrightarrow> ledger_of s' = ledger_of s"
  by (auto simp: on_venue_disconnect_def on_venue_reconnect_def with_health_def ledger_frame
      elim!: ebind_InrE simp del: append.simps)

text \<open>C2: refinement. Under the abstraction that keeps the live orders with their economic fields,
  the net positions and the pending quantities, every step of the manager is a step of the ledger:
  nothing changes, an order is opened, an open order is filled within its remainder, or an open
  order is closed and its remainder leaves the pending quantity.\<close>

theorem om_refines_ledger:
  assumes "om_step ops s s'" and "om_inv s"
  shows "ledger_step (ledger_of s) (ledger_of s')"
  using assms(1)
proof cases
  case (st_submit req j)
  have "lg_open (ledger_of s) j = None" if "j \<notin> om_live s" using that by (simp add: ledger_of_def)
  with submit_ledger [OF assms(2) st_submit] st_submit(1) show ?thesis
    by (auto simp: valid_request_def intro: lg_stay lg_opened)
next
  case (st_cancel i b)
  then have "ledger_of s' = ledger_of s"
    using same_econ_ledger [OF same_econ_cancel [OF assms(2) st_cancel(1), of ops]] by simp
  then show ?thesis by (simp add: lg_stay)
next
  case (st_confirm i x ts evs)
  show ?thesis
  proof (cases rule: on_confirm_cases [OF assms(2) st_confirm(1), where x = x and ts = ts])
    case (1 vr)
    with st_confirm(2) show ?thesis by (auto simp: ledger_frame intro: lg_stay)
  next
    case (2 s1 ord')
    have "s' = s1" using 2(3) st_confirm(2) by simp
    moreover have "order_ref s1 i = ord' \<Longrightarrow> econ ord' = econ (order_ref s i)"
      using 2(7-9) by (simp add: econ_def)
    then have "ledger_of s1 = ledger_of s"
      using 2(4,10-12,14) by (intro ledger_of_same) metis+
    ultimately show ?thesis by (simp add: lg_stay)
  qed
next
  case (st_fill i qty price trade ts evs)
  from fill_ledger [OF assms(2) st_fill] show ?thesis
    by (auto intro!: lg_stay lg_filled simp: ledger_of_def [of s] econ_def remaining_def)
next
  case (st_reject i reason ts evs)
  show ?thesis
  proof (cases rule: on_reject_cases [OF assms(2) st_reject(1), where reason = reason and ts = ts])
    case (1 h)
    with st_reject(2) show ?thesis by (auto simp: ledger_frame intro: lg_stay simp del: append.simps)
  next
    case (2 vr)
    with st_reject(2) show ?thesis by (auto simp: ledger_frame intro: lg_stay)
  next
    case (3 s1)
    have "s' = s1" using 3(5) st_reject(2) by simp
    moreover have "econ (order_ref s1 j) = econ (order_ref s j)" if "j \<in> om_live s" for j
      using 3(6,11) that by (cases "j = i") (simp_all add: econ_def)
    then have "ledger_of s1 = ledger_of s" using 3(7-9) by (intro ledger_of_same)
    ultimately show ?thesis by (simp add: lg_stay)
  next
    case (4 ord' s1 s2)
    have "s' = s2" using 4(4) st_reject(2) by simp
    then show ?thesis using ledger_of_closed [OF 4(2,6-9)] by simp
  qed
next
  case (st_cancel_ack i ts evs)
  then show ?thesis using finish_cancel_ledger [OF assms(2)] by (simp add: on_cancel_ack_def)
next
  case (st_unsolicited i ts evs)
  then show ?thesis using finish_cancel_ledger [OF assms(2)] by (simp add: on_unsolicited_cancel_def)
next
  case (st_timeouts now timeout)
  obtain t where t: "check_ack_timeouts ops now timeout s = Inr t" "ledger_of t = ledger_of s"
  proof (rule check_ack_timeouts_ok [OF assms(2), of ops now timeout], goal_cases)
    case (1 t)
    have "ledger_of t = ledger_of s"
      using 1(4-6,10) by (intro ledger_of_same) (auto simp: econ_def)
    then show ?thesis by (rule 1(1) [OF 1(2)])
  qed
  with st_timeouts show ?thesis by (simp add: lg_stay)
next
  case (st_disconnect v)
  then show ?thesis by (simp add: venue_event_ledger lg_stay)
next
  case (st_reconnect v)
  then show ?thesis by (simp add: venue_event_ledger lg_stay)
qed (simp_all add: ledger_frame lg_stay)

theorem om_refines_ledger_witness: "ledger_step (ledger_of ex_om) (ledger_of ex_placed)"
  by (rule om_refines_ledger [OF st_submit [OF ex_request_valid ex_submit] ex_om_inv])

end
