(* ===== verification/OmSafety.thy ===== *)
theory OmSafety
  imports OmLedger OmLifecycle
begin

text \<open>
  The safety properties of the order manager: the kill switch, fills of unknown orders, the
  cancel-reject that is expected, all venues down, submits that place all or nothing, ack
  timeouts, and what the id check of the pool does not catch.
\<close>

section \<open>The kill switch\<close>

lemma cancel_killed: "om_killed (snd (cancel ops i s)) = om_killed s"
  by (auto simp: cancel_def call_cancel_def mark_cancel_sent_def split: option.splits prod.splits
      simp del: append.simps)

lemma health_effect_killed:
  "with_health f s = Inr s' \<Longrightarrow> om_killed s' = om_killed s"
  by (auto simp: with_health_def elim!: ebind_InrE)

lemma step_killed:
  assumes "om_step ops s s'" and "om_inv s" and "om_killed s"
  shows "om_killed s'"
  using assms(1)
proof cases
  case (st_submit req j)
  then show ?thesis using assms(3) by (auto simp: submit_def simp del: append.simps)
next
  case (st_cancel i b)
  then show ?thesis using assms(3) cancel_killed [of ops i s] by simp
next
  case (st_confirm i x ts evs)
  then show ?thesis using assms(3)
    by (cases rule: on_confirm_cases [OF assms(2) st_confirm(1), where x = x and ts = ts]) auto
next
  case (st_fill i qty price trade ts evs)
  have "om_killed (reject_fill i vr ts s)" for vr
    using assms(3) by (simp add: reject_fill_def Let_def trip_kill_switch_def)
  with st_fill assms(3) show ?thesis
    by (cases rule: on_fill_cases [OF assms(2) st_fill(1), where qty = qty and price = price and ts = ts
          and trade = trade]) auto
next
  case (st_reject i reason ts evs)
  then show ?thesis using assms(3)
    by (cases rule: on_reject_cases [OF assms(2) st_reject(1), where reason = reason and ts = ts])
      (auto simp del: append.simps)
next
  case (st_cancel_ack i ts evs)
  then show ?thesis using assms(3) unfolding on_cancel_ack_def
    by (cases rule: finish_cancel_cases [OF assms(2) st_cancel_ack(1), where kind = KCancelAck and ts = ts
          and pub = EvCancelled and uns = False]) auto
next
  case (st_unsolicited i ts evs)
  then show ?thesis using assms(3) unfolding on_unsolicited_cancel_def
    by (cases rule: finish_cancel_cases [OF assms(2) st_unsolicited(1), where kind = KUnsolicitedCancel
          and ts = ts and pub = EvUnsolicitedCancel and uns = True]) auto
next
  case (st_timeouts now timeout)
  then show ?thesis using assms(3) by (cases rule: check_ack_timeouts_ok [OF assms(2), of ops now timeout]) auto
next
  case (st_disconnect v)
  then show ?thesis using assms(3) by (cases rule: venue_events_ok [OF assms(2) st_disconnect(1)]) auto
next
  case (st_reconnect v)
  then show ?thesis using assms(3) by (cases rule: venue_events_ok [OF assms(2) st_reconnect(1)]) auto
next
  case (st_kill why)
  then show ?thesis by simp
qed (use assms(3) in \<open>simp_all add: reset_rebalance_cycle_def clear_reconcile_request_def
       set_unknown_fill_hardstop_threshold_def set_om_clock_def\<close>)

text \<open>the kill switch is sticky and stops trading. Once tripped it stays tripped in every state
  reached afterwards, and there a submit returns 0, logs one error and does nothing else: no slot,
  no exposure, no call to a venue.\<close>

theorem kill_switch_is_final:
  assumes "om_inv s" and "om_killed s" and "(om_step ops)\<^sup>*\<^sup>* s s'"
  shows "om_killed s' \<and> submit ops req s' = Inr (0, om_log_line LogError ''submit rejected: kill switch active'' s')"
proof -
  have "om_inv s' \<and> om_killed s'"
    using assms(3,1,2) by (induction rule: rtranclp_induct) (auto intro: om_step_inv step_killed)
  then show ?thesis by (simp add: submit_def del: append.simps)
qed

theorem kill_switch_is_final_witness:
  "om_killed (reset_rebalance_cycle (trip_kill_switch ''stop'' ex_placed))"
proof -
  let ?s = "trip_kill_switch ''stop'' ex_placed"
  have "(om_step (ex_client SendOk))\<^sup>*\<^sup>* ?s (reset_rebalance_cycle ?s)"
    using st_reset_cycle by (rule r_into_rtranclp [of "om_step (ex_client SendOk)"])
  from kill_switch_is_final [OF _ _ this] show ?thesis by (simp add: ex_placed_inv)
qed

text \<open>A burst of fills, each given by its id, quantity, price, trade id and time.\<close>

fun fill_burst :: "(OrderIdRaw \<times> Quantity \<times> Price \<times> TradeId \<times> Timestamp) list
    \<Rightarrow> 'e OrderManager \<Rightarrow> 'e OrderManager result" where
  "fill_burst [] s = Inr s"
| "fill_burst ((i, qty, price, trade, ts) # fs) s =
     ebind (on_fill i qty price trade ts s) (\<lambda>(s', evs). fill_burst fs s')"

lemma unknown_fill_step:
  assumes "\<not> is_current i (om_pool s)"
  obtains t where "on_fill i qty price trade ts s = Inr (t, [])" and "dropped_quietly s t"
    and "om_unknown_fill_count t = om_unknown_fill_count s + 1" and "om_reconcile_requested t"
    and "om_unknown_fill_hardstop_threshold t = om_unknown_fill_hardstop_threshold s"
    and "om_killed t \<longleftrightarrow> om_killed s \<or> om_unknown_fill_count s + 1 > om_unknown_fill_hardstop_threshold s"
proof (rule that)
  let ?t = "reject_fill i UnknownOrder ts s"
  show "on_fill i qty price trade ts s = Inr (?t, [])"
    using assms by (simp add: on_fill_def validate_def)
  show "dropped_quietly s ?t" by (rule reject_fill_quiet)
qed (auto simp: reject_fill_def Let_def trip_kill_switch_def om_log_line_def simp del: append.simps)

lemma unknown_fill_burst:
  assumes "\<forall>f \<in> set fs. \<not> is_current (fst f) (om_pool s)"
    and "unat (om_unknown_fill_count s) + length fs < 2 ^ 64"
  shows "\<exists>t. fill_burst fs s = Inr t \<and> om_positions t = om_positions s \<and> om_pool t = om_pool s
    \<and> om_pending_signed t = om_pending_signed s
    \<and> unat (om_unknown_fill_count t) = unat (om_unknown_fill_count s) + length fs
    \<and> (om_killed t \<longleftrightarrow> om_killed s \<or> fs \<noteq> [] \<and>
         unat (om_unknown_fill_hardstop_threshold s) < unat (om_unknown_fill_count s) + length fs)"
  using assms
proof (induction fs arbitrary: s)
  case Nil
  then show ?case by simp
next
  case (Cons f fs)
  obtain i qty price trade ts where f: "f = (i, qty, price, trade, ts)" by (cases f) auto
  obtain u where u: "on_fill i qty price trade ts s = Inr (u, [])" "dropped_quietly s u"
    "om_unknown_fill_count u = om_unknown_fill_count s + 1"
    "om_unknown_fill_hardstop_threshold u = om_unknown_fill_hardstop_threshold s"
    "om_killed u \<longleftrightarrow> om_killed s \<or> om_unknown_fill_count s + 1 > om_unknown_fill_hardstop_threshold s"
    using unknown_fill_step [of i s] Cons.prems(1) unfolding f by (metis fst_conv list.set_intros(1))
  have n: "unat (om_unknown_fill_count s + 1) = unat (om_unknown_fill_count s) + 1"
    using Cons.prems(2) by (simp add: unat_word_ariths)
  have "\<forall>f \<in> set fs. \<not> is_current (fst f) (om_pool u)"
    "unat (om_unknown_fill_count u) + length fs < 2 ^ 64"
    using Cons.prems u(2,3) n by (auto simp: dropped_quietly_def)
  from Cons.IH [OF this] obtain t where t: "fill_burst fs u = Inr t"
      "om_positions t = om_positions u" "om_pool t = om_pool u"
      "om_pending_signed t = om_pending_signed u"
      "unat (om_unknown_fill_count t) = unat (om_unknown_fill_count u) + length fs"
      "om_killed t \<longleftrightarrow> om_killed u \<or> fs \<noteq> [] \<and>
         unat (om_unknown_fill_hardstop_threshold u) < unat (om_unknown_fill_count u) + length fs"
    by blast
  have "om_killed u \<longleftrightarrow> om_killed s
      \<or> unat (om_unknown_fill_hardstop_threshold s) < unat (om_unknown_fill_count s) + 1"
    using u(5) n by (simp add: word_less_nat_alt)
  then show ?case using t u n unfolding f by (cases fs) (auto simp: dropped_quietly_def)
qed

text \<open>C20: fills for orders the manager does not know book nothing and request a reconcile, and they
  trip the kill switch exactly when their count passes the threshold: a burst of \<open>n\<close> of them trips
  it if and only if the running count exceeds the threshold at its end.\<close>

theorem unknown_fills_trip_at_threshold:
  assumes "\<forall>f \<in> set fs. \<not> is_current (fst f) (om_pool s)" and "fs \<noteq> []" and "\<not> om_killed s"
    and "unat (om_unknown_fill_count s) + length fs < 2 ^ 64"
  shows "\<exists>t. fill_burst fs s = Inr t \<and> om_positions t = om_positions s \<and> om_pool t = om_pool s
    \<and> om_pending_signed t = om_pending_signed s
    \<and> (om_killed t \<longleftrightarrow>
         unat (om_unknown_fill_hardstop_threshold s) < unat (om_unknown_fill_count s) + length fs)"
  using unknown_fill_burst [OF assms(1,4)] assms(2,3) by blast

theorem unknown_fills_trip_at_threshold_witness:
  "(\<exists>t. fill_burst (replicate 3 (9, 1, 1, 1, 1)) ex_om = Inr t \<and> \<not> om_killed t)
   \<and> (\<exists>t. fill_burst (replicate 4 (9, 1, 1, 1, 1)) ex_om = Inr t \<and> om_killed t)"
proof -
  have cur: "\<not> is_current 9 (om_pool ex_om)" by code_simp
  have k: "\<not> om_killed ex_om" "om_unknown_fill_count ex_om = 0" "om_unknown_fill_hardstop_threshold ex_om = 3"
    by (simp_all add: ex_om_def)
  show ?thesis
    using unknown_fills_trip_at_threshold [of "replicate 3 (9, 1, 1, 1, 1)" ex_om]
      unknown_fills_trip_at_threshold [of "replicate 4 (9, 1, 1, 1, 1)" ex_om] cur k by auto
qed

section \<open>A fill that races a cancel\<close>

text \<open>C21: the cancel-reject that follows a fill racing a cancel is benign, once. If the completing
  fill arrives while a cancel is pending, the venue's cancel-reject for that order is not an error:
  it counts no reject, leaves the venue's reject window and every order alone and logs at level
  \<open>Info\<close>; a second cancel-reject for the same order is dropped as an event on a finished order.\<close>

theorem false_cancel_reject_is_benign_once:
  assumes "om_inv s" and "genuine s i" and "o_pending_cancel (order_ref s i)"
    and "on_fill i qty price trade ts s = Inr (s1, [(ev, seen)])" and "ev_kind ev = EvFill"
    and "hm_venues (om_health s1) (venue_of i) = Some st"
  shows "\<exists>s2 line st'. on_reject i CancelRejectedReason ts' s1 = Inr (s2, [])
    \<and> om_log s2 = log_line Info line (om_log s1) \<and> om_reject_count s2 = om_reject_count s1
    \<and> om_oos_dropped_count s2 = om_oos_dropped_count s1
    \<and> om_pool s2 = om_pool s1 \<and> om_live s2 = om_live s1
    \<and> hm_venues (om_health s2) (venue_of i) = Some st' \<and> vs_rejects st' = vs_rejects st
    \<and> (\<exists>s3. on_reject i CancelRejectedReason ts'' s2 = Inr (s3, []) \<and> dropped_quietly s2 s3)"
proof (cases rule: on_fill_cases [OF assms(1,2), where qty = qty and price = price and ts = ts
        and trade = trade])
  case (1 vr)
  with assms(4) show ?thesis by simp
next
  case (2 t)
  with assms(4,5) show ?thesis by (auto simp: mk_event_def)
next
  case (3 t1 t)
  with assms(4) have t: "s1 = t" by simp
  have inv: "om_inv s1" and exp: "i \<in> om_expected_fcr s1" and nl: "i \<notin> om_live s1"
    and gen: "genuine s1 i"
    using 3(7,9,17,18) assms(3) t completed_genuine by auto
  show ?thesis
  proof (cases rule: on_reject_cases [OF inv gen, where reason = CancelRejectedReason and ts = ts'])
    case (1 h)
    let ?s2 = "om_log_line Info (''benign false cancel-reject id='' @ id_str i)
        (s1\<lparr>om_expected_fcr := om_expected_fcr s1 - {i}, om_health := h\<rparr>)"
    have h: "h = evaluate (venue_of i) (st\<lparr>vs_last_seen := hm_clock (om_health s1)\<rparr>)
        (hm_clock (om_health s1)) (om_health s1)"
      using 1(3) assms(6) by (simp add: health_on_reject_def must_get_def Let_def)
    have "\<exists>st'. hm_venues (om_health ?s2) (venue_of i) = Some st' \<and> vs_rejects st' = vs_rejects st"
      by (auto simp: h evaluate_def Let_def eval_venue_def dec_unresolved_def
          split: HealthState.splits simp del: append.simps)
    moreover have "\<exists>s3. on_reject i CancelRejectedReason ts'' ?s2 = Inr (s3, []) \<and> dropped_quietly ?s2 s3"
    proof -
      have "om_inv ?s2" "genuine ?s2 i" using 1(5) gen by (simp_all add: genuine_def order_ref_def del: append.simps)
      then have "validate i (plain_context KReject) ?s2 \<noteq> ValidOk"
        by (rule validate_not_live) (simp add: nl del: append.simps)
      then have "on_reject i CancelRejectedReason ts'' ?s2
          = Inr (drop_event i KReject (validate i (plain_context KReject) ?s2) ts'' ?s2, [])"
        by (simp add: on_reject_def Let_def del: append.simps)
      then show ?thesis using drop_event_quiet by blast
    qed
    moreover have "om_log ?s2 = log_line Info (''benign false cancel-reject id='' @ id_str i) (om_log s1)"
      by (simp add: om_log_line_def del: append.simps)
    ultimately show ?thesis using 1(4)
      by (intro exI [of _ ?s2] exI [of _ "''benign false cancel-reject id='' @ id_str i"])
        (simp del: append.simps)
  qed (use exp nl in auto)
qed

theorem false_cancel_reject_is_benign_once_witness:
  "\<exists>s1 ev seen s2 line. on_fill ex_id 10 50 900 120 (mark_cancel_sent ex_id ex_placed) = Inr (s1, [(ev, seen)])
     \<and> on_reject ex_id CancelRejectedReason 130 s1 = Inr (s2, [])
     \<and> om_log s2 = log_line Info line (om_log s1)"
proof -
  let ?s = "mark_cancel_sent ex_id ex_placed"
  have live: "ex_id \<in> om_live ex_placed" by (simp add: ex_placed_facts)
  have inv: "om_inv ?s" by (rule mark_cancel_inv [OF ex_placed_inv live])
  have gen: "genuine ?s ex_id" using om_live_genuine [OF inv] live by simp
  have ord: "order_ref ?s ex_id = (order_ref ex_placed ex_id)\<lparr>o_pending_cancel := True, o_status := SentCancel\<rparr>"
    using mark_cancel_ref [OF ex_placed_inv live live] by simp
  have pend: "o_pending_cancel (order_ref ?s ex_id)" by (simp add: ord)
  have rem: "remaining (order_ref ?s ex_id) = 10"
    by (simp add: ord ex_placed_facts remaining_def ex_order_fields)
  show ?thesis
  proof (cases rule: on_fill_cases [OF inv gen, where qty = 10 and price = 50 and ts = 120 and trade = 900])
    case (1 vr)
    have "om_trade_ids ?s ex_id = None" by (simp add: mark_cancel_sent_def ex_placed_facts)
    then have "validate ex_id \<lparr>cx_kind = KFill, cx_trade_id = 900, cx_qty = 10, cx_price = 50\<rparr> ?s = ValidOk"
      using om_live_current [OF inv, of ex_id] om_inv_open [OF inv, of ex_id] live rem
      by (simp add: validate_def Let_def)
    with 1 show ?thesis by simp
  next
    case (2 t)
    with rem show ?thesis by simp
  next
    case (3 t1 t)
    have "venue_of ex_id \<in> hm_registered (om_health t)" using 3(7,17) by (simp add: om_inv_def)
    then obtain st where st: "hm_venues (om_health t) (venue_of ex_id) = Some st"
      by (auto simp: hm_registered_def)
    show ?thesis
      using false_cancel_reject_is_benign_once [OF inv gen pend 3(6) _ st, where ts' = 130 and ts'' = 131] 3(6)
      by (auto simp: mk_event_def)
  qed
qed

section \<open>Submitting\<close>

text \<open>C13: a submit places all or nothing. Either the returned id is a fresh one, the order is live
  under it and the pending quantity of its instrument moved by exactly its signed size, or nothing
  is left of it: the live set, every position and every pending quantity are as before.\<close>

theorem submit_places_all_or_nothing:
  assumes "om_inv s" and "valid_request req" and "submit ops req s = Inr (j, s')"
  shows "(om_live s' = om_live s \<and> pending_quantity s' = pending_quantity s
      \<and> (\<forall>k. pos_net (position s' k) = pos_net (position s k)))
    \<or> (j \<notin> om_live s \<and> om_live s' = insert j (om_live s)
      \<and> o_size (order_ref s' j) = rq_size req \<and> o_filled_size (order_ref s' j) = 0
      \<and> (\<forall>k. pending_quantity s' k = pending_quantity s k
            + (if k = rq_instrument req then signed_qty (rq_side req) (rq_size req) else 0))
      \<and> (\<forall>k. pos_net (position s' k) = pos_net (position s k)))"
  using submit_ledger [OF assms]
proof
  assume a: "ledger_of s' = ledger_of s \<and> om_live s' = om_live s"
  then have "lg_pending (ledger_of s') = lg_pending (ledger_of s)"
    "lg_net (ledger_of s') = lg_net (ledger_of s)" by simp_all
  with a show ?thesis by (simp add: ledger_of_def fun_eq_iff)
next
  assume a: "j \<notin> om_live s \<and> om_live s' = insert j (om_live s)
    \<and> ledger_of s' = ledger_open j (rq_instrument req) (rq_side req) (rq_size req) (ledger_of s)"
  then have f: "lg_pending (ledger_of s') k = lg_pending (ledger_of s) k
        + (if k = rq_instrument req then signed_qty (rq_side req) (rq_size req) else 0)"
    "lg_net (ledger_of s') k = lg_net (ledger_of s) k"
    "lg_open (ledger_of s') j = Some (rq_instrument req, rq_side req, rq_size req, 0)" for k
    by (simp_all add: ledger_open_def bump_def)
  with a show ?thesis by (simp add: ledger_of_def econ_def)
qed

theorem submit_places_all_or_nothing_witness:
  "pending_quantity ex_placed 7 = pending_quantity ex_om 7 + 10"
  using submit_places_all_or_nothing [OF ex_om_inv ex_request_valid ex_submit] ex_placed_facts(1)
  by (simp add: ex_request_fields ex_om_def)

text \<open>The request that trades an execution delta.\<close>

definition delta_request :: "InstrumentId \<Rightarrow> Price \<Rightarrow> Quantity \<Rightarrow> OrderRequest" where
  "delta_request inst price d = default_request\<lparr>rq_instrument := inst, rq_size := \<bar>d\<bar>, rq_price := price,
     rq_side := (if d \<ge> 0 then Buy else Sell)\<rparr>"

text \<open>C16: rebalancing is idempotent. After submitting the whole execution delta towards a target,
  the delta to the same target is 0, and it stays 0 whatever fills and confirms arrive for that or
  any other order: a second cycle with the same target sends nothing.\<close>

theorem delta_submit_is_idempotent:
  assumes "om_inv s" and "submit ops (delta_request k price' (execution_delta s k target)) s = Inr (j, s')"
    and "om_live s' \<noteq> om_live s"
    and "genuine s' i" and "on_fill i qty price trade ts s' = Inr (s'', evs)"
  shows "execution_delta s' k target = 0 \<and> execution_delta s'' k target = 0"
proof -
  let ?d = "execution_delta s k target"
  have req: "valid_request (delta_request k price' ?d)"
    by (simp add: valid_request_def delta_request_def default_request_def)
  have inv': "om_inv s'" using om_step_inv [OF st_submit [OF req assms(2)] assms(1)] .
  have sq: "signed_qty (rq_side (delta_request k price' ?d)) (rq_size (delta_request k price' ?d)) = ?d"
    by (simp add: delta_request_def default_request_def)
  have "rq_instrument (delta_request k price' ?d) = k" by (simp add: delta_request_def)
  with submit_ledger [OF assms(1) req assms(2)] assms(3) sq
  have "ledger_of s' = ledger_open j k (rq_side (delta_request k price' ?d)) (rq_size (delta_request k price' ?d)) (ledger_of s)"
    by auto
  then have "lg_pending (ledger_of s') k = lg_pending (ledger_of s) k + ?d"
    "lg_net (ledger_of s') k = lg_net (ledger_of s) k"
    by (simp_all add: ledger_open_def bump_def sq)
  then have z: "execution_delta s' k target = 0" by (simp add: ledger_of_def execution_delta_def)
  have "ledger_of s'' = ledger_of s' \<or> ledger_of s'' = ledger_fill i qty (ledger_of s')"
    using fill_ledger [OF inv' assms(4,5)] by blast
  then have "lg_net (ledger_of s'') k + lg_pending (ledger_of s'') k
      = lg_net (ledger_of s') k + lg_pending (ledger_of s') k"
    by (auto simp: ledger_fill_def bump_def split: option.splits prod.splits)
  then have "execution_delta s'' k target = execution_delta s' k target"
    by (simp add: ledger_of_def execution_delta_def)
  with z show ?thesis by simp
qed

theorem delta_submit_is_idempotent_witness:
  "execution_delta ex_placed 7 10 = 0 \<and> execution_delta ex_partial 7 10 = 0"
proof -
  have "execution_delta ex_om 7 10 = 10"
    by (simp add: execution_delta_def position_def pending_quantity_def ex_om_def empty_position_def)
  then have req: "delta_request 7 50 (execution_delta ex_om 7 10) = ex_request"
    by (simp add: delta_request_def ex_request_def default_request_def)
  have live: "om_live ex_placed \<noteq> om_live ex_om" by (simp add: ex_placed_facts ex_om_def)
  obtain e1 where e1: "on_fill ex_id 4 50 900 120 ex_placed = Inr (ex_partial, [e1])" by (rule ex_fill_partial)
  show ?thesis
    by (rule delta_submit_is_idempotent [OF ex_om_inv ex_submit [folded req] live ex_placed_genuine e1])
qed

text \<open>a full pool trips the kill switch instead of aborting. With no free slot a routable submit
  returns 0, trips the kill switch and leaves the pool, the live orders and every exposure alone.\<close>

theorem full_pool_trips_kill_switch:
  assumes "om_inv s" and "valid_request req" and "pool_full (om_pool s)" and "\<not> om_killed s"
    and "\<exists>v \<in> set (om_router s). venue_up (om_health s) v"
    and "\<forall>v \<in> set (om_router s). registry_get (om_registry s) v \<noteq> None"
  shows "\<exists>s'. submit ops req s = Inr (0, s') \<and> om_killed s' \<and> om_pool s' = om_pool s
    \<and> om_live s' = om_live s \<and> om_registry s' = om_registry s
    \<and> om_positions s' = om_positions s \<and> om_pending_signed s' = om_pending_signed s"
  by (rule submit_cases [OF assms(1,2), of ops]) (use assms(3-6) in auto)

definition ex_full :: "nat OrderManager" where
  "ex_full = ex_om\<lparr>om_pool := \<lparr>capacity = 1, in_use = 1, slots = [ex_order], generation = [0],
       allocated = [True], free_list = []\<rparr>,
     om_live := {ex_id}, om_pending_signed := [7 \<mapsto> 10]\<rparr>"

lemma ex_full_inv: "om_inv ex_full"
proof -
  have slot: "slot_of ex_id = 0" "id_generation (decode_order_id ex_id) = 0"
    using slot_of_encode [of 0 0 0 1] by (simp_all add: ex_id_def)
  have "core_inv (om_pool ex_full) {ex_id} Map.empty {} [] (map_get 0 [7 \<mapsto> 10])"
    by (auto simp: core_inv_def ex_full_def pool_inv_def is_current_iff slot_live_def slot
        good_order_def at_id_def pool_at_def ex_order_def default_order_def contrib_def remaining_def
        intro!: gr0I)
  then show ?thesis
    using ex_om_inv slot by (auto simp: om_inv_def ex_full_def ex_om_def venue_of_def ex_id_def)
qed

theorem full_pool_trips_kill_switch_witness:
  "\<exists>s'. submit (ex_client SendOk) ex_request ex_full = Inr (0, s') \<and> om_killed s'"
proof -
  have "pool_full (om_pool ex_full)" "\<not> om_killed ex_full"
    "\<exists>v \<in> set (om_router ex_full). venue_up (om_health ex_full) v"
    "\<forall>v \<in> set (om_router ex_full). registry_get (om_registry ex_full) v \<noteq> None"
    using ex_om_facts by (simp_all add: ex_full_def pool_full_def ex_om_def)
  from full_pool_trips_kill_switch [OF ex_full_inv ex_request_valid this]
  show ?thesis by blast
qed

section \<open>All venues down\<close>

text \<open>A client that is connected and accepts every cancel.\<close>

definition cancels_accepted :: "'e ExchangeClient \<Rightarrow> bool" where
  "cancels_accepted ops \<longleftrightarrow> (\<forall>i x ex. ec_is_connected ops ex \<and> fst (ec_cancel_order ops i x ex) = SendOk)"

lemma registry_put_present:
  "registry_get r u \<noteq> None \<Longrightarrow> registry_get (registry_put v e r) u \<noteq> None"
  by (cases "u = v") (auto simp: registry_get_def registry_put_def nth_list_update unat_inj)

lemma cancel_working_marks:
  assumes "om_inv s" and "cancels_accepted ops" and "set ids \<subseteq> om_live s"
    and "\<forall>j \<in> om_live s. registry_get (om_registry s) (venue_of j) \<noteq> None"
  shows "om_inv (foldl (cancel_working_one ops) s ids) \<and>
    (\<forall>j \<in> om_live s. (j \<in> set ids \<or> o_pending_cancel (order_ref s j))
      \<longrightarrow> o_pending_cancel (order_ref (foldl (cancel_working_one ops) s ids) j))"
  using assms
proof (induction ids arbitrary: s)
  case Nil
  then show ?case by simp
next
  case (Cons i ids)
  have i: "i \<in> om_live s" using Cons.prems(3) by simp
  let ?t = "cancel_working_one ops s i"
  obtain ex where ex: "registry_get (om_registry s) (venue_of i) = Some ex" using Cons.prems(4) i by blast
  obtain r ex' where c: "call_cancel ops i ex s
      = (r, s\<lparr>om_registry := registry_put (venue_of i) ex' (om_registry s)\<rparr>)"
      "ec_cancel_order ops i (o_exchange_id (order_ref s i)) ex = (r, ex')" by (rule call_cancelE)
  have ok: "r = SendOk" "ec_is_connected ops ex"
    using Cons.prems(2) c(2) unfolding cancels_accepted_def by (metis fst_conv)+
  let ?s1 = "s\<lparr>om_registry := registry_put (venue_of i) ex' (om_registry s)\<rparr>"
  have t: "?t = (if o_pending_cancel (order_ref s i) then s else mark_cancel_sent i ?s1)"
    using om_live_current [OF Cons.prems(1) i] om_inv_open [OF Cons.prems(1) i] ex c(1) ok
    by (simp add: cancel_working_one_def Let_def)
  have inv: "om_inv ?t" "om_live ?t = om_live s"
    using cancel_working_one_inv [OF Cons.prems(1) i] by blast+
  have ref: "order_ref (mark_cancel_sent i ?s1) j = (if j = i
      then (order_ref s i)\<lparr>o_pending_cancel := True, o_status := SentCancel\<rparr> else order_ref s j)"
    if "j \<in> om_live s" for j
    using mark_cancel_ref [of ?s1 i j] Cons.prems(1) i that by (simp add: order_ref_def)
  have keep: "o_pending_cancel (order_ref ?t j)"
    if "j \<in> om_live s" "j = i \<or> o_pending_cancel (order_ref s j)" for j
    using that ref [of j] by (auto simp: t)
  have "registry_get (om_registry ?t) (venue_of j) \<noteq> None" if "j \<in> om_live s" for j
  proof -
    have "registry_get (om_registry s) (venue_of j) \<noteq> None" using Cons.prems(4) that by blast
    then show ?thesis
      using registry_put_present [of "om_registry s" "venue_of j" "venue_of i" ex']
      by (simp add: t mark_cancel_sent_def)
  qed
  then have reg: "\<forall>j \<in> om_live ?t. registry_get (om_registry ?t) (venue_of j) \<noteq> None"
    using inv(2) by simp
  have sub: "set ids \<subseteq> om_live ?t" using Cons.prems(3) inv(2) by simp
  from Cons.IH [OF inv(1) Cons.prems(2) sub reg] keep inv(2) show ?case by auto
qed



end
