(* ===== verification/OmLimits.thy ===== *)
theory OmLimits
  imports OmExample
begin

text \<open>
  The edges of the order manager: the timeout pass does its work once; retired orders stay
  visible; and two places where the id scheme promises more than the code checks.
\<close>

text \<open>the ack-timeout pass is idempotent. Every overdue unanswered order is flagged and gets its
  one cancel attempt in the first pass; a second pass at the same time changes nothing.\<close>

theorem ack_timeouts_fire_once:
  assumes "om_inv s" and "check_ack_timeouts ops now timeout s = Inr s'"
  shows "check_ack_timeouts ops now timeout s' = Inr s'
    \<and> om_live s' = om_live s \<and> om_pending_signed s' = om_pending_signed s"
proof (rule check_ack_timeouts_ok [OF assms(1), of ops now timeout], goal_cases)
  case (1 t)
  then have t: "t = s'" using assms(2) by simp
  have "check_ack_timeouts ops now timeout s' = Inr s'"
    unfolding check_ack_timeouts_def
    using om_inv_iter [OF 1(2)] 1(2,3,8) unfolding t
    by (intro ack_timeout_loop_settled) auto
  with 1 t show ?case by simp
qed

theorem ack_timeouts_fire_once_witness:
  "\<exists>s'. check_ack_timeouts (ex_client SendOk) 500 50 ex_placed = Inr s'
     \<and> check_ack_timeouts (ex_client SendOk) 500 50 s' = Inr s'"
proof (rule check_ack_timeouts_ok [OF ex_placed_inv, of "ex_client SendOk" 500 50])
  fix t assume t: "check_ack_timeouts (ex_client SendOk) 500 50 ex_placed = Inr t"
  from ack_timeouts_fire_once [OF ex_placed_inv t] t show ?thesis by blast
qed

text \<open>C29: \<^verbatim>\<open>find\<close> is not limited to live orders: the order a completing fill retires is still
  returned, with status \<open>Filled\<close>, although it has left the live set (the header says the result is
  null for an order that is not live).\<close>

theorem find_returns_retired_orders:
  assumes "om_inv s" and "genuine s i" and "on_fill i qty price trade ts s = Inr (s', evs)"
    and "evs \<noteq> []" and "qty = remaining (order_ref s i)"
  shows "i \<notin> om_live s' \<and> (\<exists>ord. find_order s' i = Some ord \<and> o_status ord = Filled)"
proof (cases rule: on_fill_cases [OF assms(1,2), where qty = qty and price = price and ts = ts
        and trade = trade])
  case (1 vr)
  with assms(3,4) show ?thesis by simp
next
  case (2 s1)
  with assms(5) show ?thesis by simp
next
  case (3 s1 s2)
  then have t: "s' = s2" using assms(3) by simp
  have "is_current i (om_pool s2)" using core_current [OF om_inv_core [OF 3(7)], of i] 3(17) by blast
  then show ?thesis using 3(4,9,17) t
    by (simp add: find_order_def filled_order_fields remaining_def)
qed

theorem find_returns_retired_orders_witness:
  "\<exists>ord. find_order ex_filled ex_id = Some ord \<and> o_status ord = Filled"
proof -
  obtain e where e: "on_fill ex_id 6 51 901 130 ex_partial = Inr (ex_filled, [e])" by (rule ex_fill_completed)
  have "remaining (order_ref ex_partial ex_id) = 6"
    by (simp add: ex_partial_order remaining_def filled_order_fields ex_placed_facts ex_order_fields)
  then show ?thesis
    using find_returns_retired_orders [OF ex_partial_inv ex_partial_genuine e] by simp
qed

text \<open>C27: the validity check of an event compares slot and generation only. An id that differs from a
  live one just in its venue or sequence bits passes it, and because duplicate trades are recorded
  under the raw id, a trade already booked is accepted again under the altered id.\<close>

theorem altered_id_bypasses_dedup:
  assumes "om_inv s" and "i \<in> om_live s" and "slot_of i' = slot_of i"
    and "id_generation (decode_order_id i') = id_generation (decode_order_id i)"
    and "om_trade_ids s i = Some seen" and "trade \<in> seen" and "om_trade_ids s i' = None"
    and "0 < qty" and "qty \<le> remaining (order_ref s i)" and "0 < price"
  shows "validate i \<lparr>cx_kind = KFill, cx_trade_id = trade, cx_qty = qty, cx_price = price\<rparr> s = DuplicateTrade
    \<and> validate i' \<lparr>cx_kind = KFill, cx_trade_id = trade, cx_qty = qty, cx_price = price\<rparr> s = ValidOk"
proof -
  have cur: "is_current i (om_pool s)" and op: "\<not> is_terminal (o_status (order_ref s i))"
    using om_live_current [OF assms(1,2)] om_inv_open [OF assms(1,2)] by blast+
  have "is_current i' (om_pool s)" "order_ref s i' = order_ref s i"
    using cur assms(3,4) by (simp_all add: is_current_iff order_ref_def)
  with cur op assms(5-10) show ?thesis by (simp add: validate_def Let_def)
qed

theorem altered_id_bypasses_dedup_witness:
  "validate (encode_order_id 0 0 0 2) \<lparr>cx_kind = KFill, cx_trade_id = 900, cx_qty = 4, cx_price = 50\<rparr>
     ex_partial = ValidOk"
proof (rule ex_fill_partial)
  assume p: "om_live ex_partial = {ex_id}" "om_trade_ids ex_partial ex_id = Some {900}"
    "om_inv ex_partial"
  let ?i = "encode_order_id 0 0 0 2"
  have slot: "slot_of ?i = slot_of ex_id"
    "id_generation (decode_order_id ?i) = id_generation (decode_order_id ex_id)"
    using slot_of_encode [of 0 0 0 2] slot_of_encode [of 0 0 0 1] by (simp_all add: ex_id_def)
  have "?i \<noteq> ex_id" unfolding ex_id_def by code_simp
  moreover have "dom (om_trade_ids ex_partial) \<subseteq> {ex_id}"
    using om_inv_core [OF p(3)] p(1) by (simp add: core_inv_def)
  ultimately have "om_trade_ids ex_partial ?i = None" by (metis domIff singletonD subsetD)
  moreover have "remaining (order_ref ex_partial ex_id) = 6"
    by (simp add: ex_partial_order remaining_def filled_order_fields ex_placed_facts ex_order_fields)
  ultimately show ?thesis
    using altered_id_bypasses_dedup [OF p(3) _ slot p(2), of 900 4 50] p(1) by simp
qed

text \<open>the id a submit reserves is 0, the value that reports failure, exactly when the venue is 0,
  the slot is 0 and was never released (or 65536 times), and the venue's sequence number is a
  multiple of 65536: the sequence wraps to 0 in its 16 bits.\<close>

theorem reserved_id_zero_iff:
  assumes "om_inv s" and "acquire (om_pool s) = Inr (slot, p)"
    and "reserve_order req venue s = Inr (i, s')"
  shows "i = 0 \<longleftrightarrow> venue = 0 \<and> slot = 0 \<and> generation (om_pool s) ! slot = 0
    \<and> uint (map_get 0 (om_venue_seq s) venue + 1) mod 65536 = 0"
proof -
  note a = acquire_cases [OF core_pool [OF om_inv_core [OF assms(1)]] assms(2)]
  let ?q = "ucast (map_get 0 (om_venue_seq s) venue + 1) :: u16"
  have i: "i = encode_order_id venue (generation p ! slot) (word_of_nat slot) ?q"
    using assms(2,3) by (auto simp: reserve_order_def Let_def elim!: ebind_InrE)
  have slot: "slot < 2 ^ 24"
    using a(2) core_pool [OF om_inv_core [OF assms(1)]] by (simp add: pool_inv_def)
  have w: "unat (word_of_nat slot :: u32) = slot"
    using slot by (simp add: unat_of_nat)
  have q: "?q = 0 \<longleftrightarrow> uint (map_get 0 (om_venue_seq s) venue + 1) mod 65536 = 0"
    by (simp add: word_uint_eq_iff unsigned_ucast_eq take_bit_eq_mod)
  have "(word_of_nat slot :: u32) = 0 \<longleftrightarrow> slot = 0" by (subst word_unat_eq_iff) (simp add: w)
  with encode_zero_iff [of "word_of_nat slot" venue "generation p ! slot" ?q] w slot q
  show ?thesis unfolding i a(5) by auto
qed

theorem reserved_id_zero_iff_witness:
  "\<exists>s'. reserve_order ex_request 0 (ex_om\<lparr>om_venue_seq := [0 \<mapsto> 65535]\<rparr>) = Inr (0, s')"
proof -
  let ?s = "ex_om\<lparr>om_venue_seq := [0 \<mapsto> 65535]\<rparr>"
  have inv: "om_inv ?s" using ex_om_inv by (simp add: om_inv_def)
  have acq: "acquire (om_pool ?s) = Inr (0, snd (projr (acquire ex_pool)))"
    by (simp add: acquire_def ex_om_def ex_pool_def)
  have "\<not> pool_full (om_pool ?s)" "0 \<in> hm_registered (om_health ?s)"
    using ex_om_facts(5) ex_om_inv ex_om_facts(2) by (auto simp: om_inv_def)
  then obtain i s' where r: "reserve_order ex_request 0 ?s = Inr (i, s')"
    using reserve_order_ok [OF inv _ ex_request_valid, of 0] by metis
  have "i = 0" using reserved_id_zero_iff [OF inv acq r] by (simp add: ex_om_def ex_pool_def)
  with r show ?thesis by blast
qed

end
