(* ===== verification/HealthProps.thy ===== *)
theory HealthProps
  imports Router
begin

text \<open>
  The circuit breaker as a state machine over the events of one venue: its edges, its counters,
  what a probing venue needs to be restored, what silence does to a healthy venue, and what the
  absence of traffic does to a venue that is down.
\<close>

section \<open>Events\<close>

datatype health_event =
    HSent VenueId Timestamp | HAck VenueId LatencyNs | HReject VenueId bool | HFill VenueId
  | HTimeout VenueId | HDisconnect VenueId | HReconnect VenueId
  | HTick "VenueId list" Timestamp | HClock Timestamp

fun apply_event :: "health_event \<Rightarrow> HealthModel \<Rightarrow> HealthModel result" where
  "apply_event (HSent v ts) h = health_on_order_sent v ts h"
| "apply_event (HAck v lat) h = health_on_ack v lat h"
| "apply_event (HReject v b) h = health_on_reject v b h"
| "apply_event (HFill v) h = health_on_fill v h"
| "apply_event (HTimeout v) h = health_on_timeout v h"
| "apply_event (HDisconnect v) h = health_on_disconnect v h"
| "apply_event (HReconnect v) h = health_on_reconnect v h"
| "apply_event (HTick order now) h = Inr (health_tick order now h)"
| "apply_event (HClock now) h = Inr (h\<lparr>hm_clock := now\<rparr>)"

text \<open>The map is iterated once per venue.\<close>

fun event_ok :: "health_event \<Rightarrow> bool" where
  "event_ok (HTick order now) \<longleftrightarrow> distinct order"
| "event_ok e \<longleftrightarrow> True"

text \<open>What an event does to the samples of a venue before it is evaluated.\<close>

fun sampled :: "health_event \<Rightarrow> Timestamp \<Rightarrow> LatencyNs \<Rightarrow> VenueState \<Rightarrow> VenueState" where
  "sampled (HSent v ts) now hi st = st\<lparr>vs_last_seen := ts\<rparr>"
| "sampled (HAck v lat) now hi st =
     (let st1 = st\<lparr>vs_last_seen := now, vs_latencies := ring_push lat (vs_latencies st),
                   vs_rejects := ring_push 0 (vs_rejects st)\<rparr>
      in if vs_state st1 = Probing \<and> lat \<le> hi
         then st1\<lparr>vs_probe_success := vs_probe_success st1 + 1\<rparr> else st1)"
| "sampled (HReject v b) now hi st =
     (if \<not> b then st\<lparr>vs_last_seen := now, vs_rejects := ring_push 1 (vs_rejects st)\<rparr>
      else st\<lparr>vs_last_seen := now\<rparr>)"
| "sampled (HFill v) now hi st = st\<lparr>vs_last_seen := now\<rparr>"
| "sampled (HTimeout v) now hi st = st\<lparr>vs_rejects := ring_push 1 (vs_rejects st)\<rparr>"
| "sampled (HDisconnect v) now hi st = st\<lparr>vs_connected := False\<rparr>"
| "sampled (HReconnect v) now hi st = st\<lparr>vs_connected := True, vs_last_seen := now\<rparr>"
| "sampled e now hi st = st"

fun event_venue :: "health_event \<Rightarrow> VenueId option" where
  "event_venue (HSent v ts) = Some v"
| "event_venue (HAck v lat) = Some v"
| "event_venue (HReject v b) = Some v"
| "event_venue (HFill v) = Some v"
| "event_venue (HTimeout v) = Some v"
| "event_venue (HDisconnect v) = Some v"
| "event_venue (HReconnect v) = Some v"
| "event_venue e = None"

lemma tick_venue:
  assumes "distinct order"
  shows "hm_venues (health_tick order now h) u
     = (if u \<in> set order then map_option (\<lambda>st. eval_venue (hm_cfg h) st now) (hm_venues h u)
        else hm_venues h u)
     \<and> hm_cfg (health_tick order now h) = hm_cfg h"
  using assms
proof (induction order arbitrary: h)
  case Nil
  then show ?case by (simp add: health_tick_def)
next
  case (Cons v order)
  define h1 where "h1 = (case hm_venues h v of None \<Rightarrow> h | Some st \<Rightarrow> evaluate v st now h)"
  have h1: "hm_cfg h1 = hm_cfg h" "hm_venues h1 v = map_option (\<lambda>st. eval_venue (hm_cfg h) st now) (hm_venues h v)"
    "\<And>w. w \<noteq> v \<Longrightarrow> hm_venues h1 w = hm_venues h w"
    by (auto simp: h1_def evaluate_def Let_def split: option.splits)
  have "health_tick (v # order) now h = health_tick order now h1"
    by (simp add: health_tick_def h1_def)
  with Cons.IH [of h1] Cons.prems h1 show ?case by (cases "u = v") auto
qed

lemma evaluate_venues [simp]:
  "hm_venues (evaluate v st now h) = (hm_venues h)(v \<mapsto> eval_venue (hm_cfg h) st now)"
  "hm_cfg (evaluate v st now h) = hm_cfg h" "hm_clock (evaluate v st now h) = hm_clock h"
  by (simp_all add: evaluate_def Let_def)

lemma venue_event_form:
  "event_venue e = Some v \<Longrightarrow> apply_event e h = ebind (must_get v h) (\<lambda>st.
     Inr (evaluate v (sampled e (hm_clock h) (latency_high_ns (hm_cfg h)) st) (hm_clock h) h))"
  by (cases e) (simp_all add: health_on_order_sent_def health_on_ack_def health_on_reject_def
      health_on_fill_def health_on_timeout_def health_on_disconnect_def health_on_reconnect_def
      Let_def cong: if_cong)

text \<open>Every event is total on a registered venue and acts on each venue by at most one evaluation
  of a sample update.\<close>

lemma event_effect:
  assumes "apply_event e h = Inr h'" and "event_ok e" and "hm_venues h u = Some st"
  obtains st' where "hm_venues h' u = Some st'" and "hm_cfg h' = hm_cfg h"
    and "st' = st \<or> (\<exists>now. st' = eval_venue (hm_cfg h)
           (if event_venue e = Some u then sampled e (hm_clock h) (latency_high_ns (hm_cfg h)) st else st) now)"
proof (cases "event_venue e")
  case None
  then show thesis
  proof (cases e)
    case (HTick order now)
    with assms tick_venue [of order now h u] show thesis
      by (intro that [of "if u \<in> set order then eval_venue (hm_cfg h) st now else st"]) auto
  next
    case (HClock now)
    with assms that show thesis by auto
  qed simp_all
next
  case (Some v)
  let ?t = "sampled e (hm_clock h) (latency_high_ns (hm_cfg h))"
  from assms(1) venue_event_form [OF Some] obtain sv where sv: "hm_venues h v = Some sv"
      "h' = evaluate v (?t sv) (hm_clock h) h"
    by (auto simp: must_get_def split: option.splits)
  show thesis
  proof (cases "u = v")
    case True
    with sv assms(3) Some show thesis
      by (intro that [of "eval_venue (hm_cfg h) (?t st) (hm_clock h)"]) auto
  next
    case False
    with sv assms(3) show thesis by (intro that [of st]) auto
  qed
qed

section \<open>The state machine\<close>

inductive breaker_edge :: "HealthState \<Rightarrow> HealthState \<Rightarrow> bool" where
  edge_stay: "breaker_edge s s"
| edge_trip: "breaker_edge Healthy Degraded"
| edge_recover: "breaker_edge Degraded Healthy"
| edge_down: "breaker_edge Degraded Down"
| edge_probe: "breaker_edge Down Probing"
| edge_relapse: "breaker_edge Probing Down"
| edge_restore: "breaker_edge Probing Healthy"

inductive_simps breaker_edge_simps: "breaker_edge s t"

text \<open>A venue's counter of unresolved trips is 1 while it is not healthy and 0 otherwise.\<close>

definition unresolved_ok :: "VenueState \<Rightarrow> bool" where
  "unresolved_ok st \<longleftrightarrow> vs_unresolved st = (if vs_state st = Healthy then 0 else 1)"

lemma eval_venue_edge: "breaker_edge (vs_state st) (vs_state (eval_venue cfg st now))"
  by (auto simp: eval_venue_def dec_unresolved_def Let_def breaker_edge_simps split: HealthState.splits)

lemma eval_venue_unresolved: "unresolved_ok st \<Longrightarrow> unresolved_ok (eval_venue cfg st now)"
  by (auto simp: eval_venue_def dec_unresolved_def Let_def unresolved_ok_def split: HealthState.splits)

lemma sampled_fields [simp]:
  "vs_state (sampled e now hi st) = vs_state st"
  "vs_unresolved (sampled e now hi st) = vs_unresolved st"
  "vs_trips (sampled e now hi st) = vs_trips st"
  "vs_good_since (sampled e now hi st) = vs_good_since st"
  "vs_degraded_since (sampled e now hi st) = vs_degraded_since st"
  by (cases e; simp add: Let_def)+

lemma unresolved_ok_sampled [simp]: "unresolved_ok (sampled e now hi st) = unresolved_ok st"
  by (simp add: unresolved_ok_def)

text \<open>C24: the breaker moves only along its edges (Healthy to Degraded, Degraded to Healthy or Down,
  Down to Probing, Probing to Down or Healthy), at most one edge per event, for every venue and
  every event; and the unresolved counter of a venue is 1 exactly while it is not healthy.\<close>

theorem breaker_moves_along_edges:
  assumes "apply_event e h = Inr h'" and "event_ok e" and "hm_venues h u = Some st"
    and "unresolved_ok st"
  shows "\<exists>st'. hm_venues h' u = Some st' \<and> breaker_edge (vs_state st) (vs_state st') \<and> unresolved_ok st'"
proof (rule event_effect [OF assms(1-3)])
  fix st'
  assume s: "hm_venues h' u = Some st'" and "st' = st \<or> (\<exists>now. st' = eval_venue (hm_cfg h)
      (if event_venue e = Some u then sampled e (hm_clock h) (latency_high_ns (hm_cfg h)) st else st) now)"
  then have "breaker_edge (vs_state st) (vs_state st') \<and> unresolved_ok st'"
    using eval_venue_edge [of "sampled e (hm_clock h) (latency_high_ns (hm_cfg h)) st" "hm_cfg h"]
      eval_venue_edge [of st "hm_cfg h"] assms(4)
    by (auto simp: edge_stay intro: eval_venue_unresolved split: if_splits)
  with s show ?thesis by blast
qed

definition demo_health :: HealthModel where
  "demo_health = register_venue 3 (health_new default_health_config None 50)"

lemma demo_venue: "hm_venues demo_health 3 = Some ((new_venue_state default_health_config)\<lparr>vs_last_seen := 50\<rparr>)"
  by (simp add: demo_health_def register_venue_def health_new_def)

theorem breaker_moves_along_edges_witness:
  "\<exists>h' st'. apply_event (HDisconnect 3) demo_health = Inr h' \<and> hm_venues h' 3 = Some st'
     \<and> breaker_edge Healthy (vs_state st')"
proof -
  obtain h' where h: "apply_event (HDisconnect 3) demo_health = Inr h'"
    by (simp add: health_on_disconnect_def must_get_def demo_venue)
  show ?thesis
    using breaker_moves_along_edges [OF h _ demo_venue] h by (auto simp: new_venue_state_def unresolved_ok_def)
qed

section \<open>Runs\<close>

fun run_events :: "health_event list \<Rightarrow> HealthModel \<Rightarrow> HealthModel result" where
  "run_events [] h = Inr h"
| "run_events (e # es) h = ebind (apply_event e h) (run_events es)"

text \<open>Successful round trips of a venue among the events: acks within the latency bound.\<close>

fun good_acks :: "VenueId \<Rightarrow> LatencyNs \<Rightarrow> health_event list \<Rightarrow> int" where
  "good_acks u hi [] = 0"
| "good_acks u hi (HAck v lat # es) = (if v = u \<and> lat \<le> hi then 1 else 0) + good_acks u hi es"
| "good_acks u hi (e # es) = good_acks u hi es"

lemma good_acks_nonneg: "0 \<le> good_acks u hi es"
  by (induction u hi es rule: good_acks.induct) auto

lemma sampled_probe:
  assumes "vs_state st = Probing"
  shows "vs_probe_success (if event_venue e = Some u then sampled e now hi st else st)
     = vs_probe_success st + good_acks u hi [e]"
  using assms by (cases e) (auto simp: Let_def)

lemma eval_probing:
  assumes "vs_state st = Probing"
  shows "vs_state (eval_venue cfg st now) = Probing \<Longrightarrow> vs_probe_success (eval_venue cfg st now) = vs_probe_success st"
    and "vs_state (eval_venue cfg st now) = Healthy \<Longrightarrow> probe_required cfg \<le> vs_probe_success st"
  using assms by (auto simp: eval_venue_def dec_unresolved_def Let_def split: if_splits)

lemma restore_needs_acks:
  assumes "hm_venues h u = Some st" and "vs_state st = Probing" and "\<forall>e \<in> set es. event_ok e"
    and "\<forall>n < length es. \<exists>hn. run_events (take n es) h = Inr hn \<and> health_state u hn = Inr Probing"
    and "run_events es h = Inr h'" and "health_state u h' = Inr Healthy"
  shows "probe_required (hm_cfg h) \<le> vs_probe_success st + good_acks u (latency_high_ns (hm_cfg h)) es"
  using assms
proof (induction es arbitrary: h st)
  case Nil
  then show ?case by (simp add: health_state_def must_get_def)
next
  case (Cons e es)
  let ?hi = "latency_high_ns (hm_cfg h)"
  obtain h1 where h1: "apply_event e h = Inr h1" "run_events es h1 = Inr h'"
    using Cons.prems(5) by (auto elim: ebind_InrE)
  have ok: "event_ok e" using Cons.prems(3) by simp
  let ?st = "if event_venue e = Some u then sampled e (hm_clock h) ?hi st else st"
  have pr: "vs_state ?st = Probing" using Cons.prems(2) by simp
  note ps = sampled_probe [OF Cons.prems(2), of e u "hm_clock h" ?hi]
  have ge: "0 \<le> good_acks u ?hi [e]" by (rule good_acks_nonneg)
  have split: "good_acks u ?hi (e # es) = good_acks u ?hi [e] + good_acks u ?hi es"
    by (cases e) auto
  show ?case
  proof (rule event_effect [OF h1(1) ok Cons.prems(1)])
    fix st' assume s: "hm_venues h1 u = Some st'" "hm_cfg h1 = hm_cfg h"
      "st' = st \<or> (\<exists>now. st' = eval_venue (hm_cfg h) ?st now)"
    show ?case
    proof (cases "es = []")
      case True
      with h1 Cons.prems(6) s(1) have "vs_state st' = Healthy" by (simp add: health_state_def must_get_def)
      with s(3) Cons.prems(2) eval_probing(2) [OF pr] ps split True show ?thesis by auto
    next
      case False
      have "\<exists>hn. run_events (take n es) h1 = Inr hn \<and> health_state u hn = Inr Probing" if "n < length es" for n
        using Cons.prems(4) [rule_format, of "Suc n"] that h1(1) by simp
      moreover from this [of 0] False s(1) have p: "vs_state st' = Probing"
        by (simp add: health_state_def must_get_def)
      ultimately have "probe_required (hm_cfg h1) \<le> vs_probe_success st' + good_acks u (latency_high_ns (hm_cfg h1)) es"
        using Cons.IH [OF s(1)] Cons.prems(3,6) h1(2) by auto
      moreover have "vs_probe_success st' \<le> vs_probe_success st + good_acks u ?hi [e]"
        using s(3) p eval_probing(1) [OF pr] ps ge by auto
      ultimately show ?thesis using s(2) split by simp
    qed
  qed
qed

text \<open>C22: a probing venue is restored only by traffic. If a venue that has just entered Probing is
  probing after every event of a run and Healthy at its end, the run contains at least
  \<^verbatim>\<open>probe_required\<close> acks of that venue within the latency bound.\<close>

theorem probing_needs_good_acks:
  assumes "hm_venues h u = Some st" and "vs_state st = Probing" and "vs_probe_success st = 0"
    and "\<forall>e \<in> set es. event_ok e"
    and "\<forall>n < length es. \<exists>hn. run_events (take n es) h = Inr hn \<and> health_state u hn = Inr Probing"
    and "run_events es h = Inr h'" and "health_state u h' = Inr Healthy"
  shows "probe_required (hm_cfg h) \<le> good_acks u (latency_high_ns (hm_cfg h)) es"
  using restore_needs_acks [OF assms(1,2,4-7)] assms(3) by simp

definition probe_config :: HealthConfig where
  "probe_config = default_health_config\<lparr>probe_required := 1, reject_window := 2, latency_window := 2\<rparr>"

definition probing_model :: HealthModel where
  "probing_model = (health_new probe_config None 100)\<lparr>hm_venues :=
     [3 \<mapsto> (new_venue_state probe_config)\<lparr>vs_last_seen := 100, vs_state := Probing, vs_unresolved := 1\<rparr>]\<rparr>"

lemma probing_venue:
  "hm_venues probing_model 3 = Some ((new_venue_state probe_config)\<lparr>vs_last_seen := 100,
     vs_state := Probing, vs_unresolved := 1\<rparr>)"
  by (simp add: probing_model_def)

theorem probing_needs_good_acks_witness:
  "probe_required (hm_cfg probing_model) \<le> good_acks 3 (latency_high_ns (hm_cfg probing_model)) [HAck 3 7]"
proof -
  have e: "case run_events [HAck 3 7] probing_model of Inl a \<Rightarrow> False
      | Inr h \<Rightarrow> health_state 3 h = Inr Healthy" by code_simp
  then obtain h' where h: "run_events [HAck 3 7] probing_model = Inr h'" "health_state 3 h' = Inr Healthy"
    by (auto split: sum.splits)
  show ?thesis
    by (rule probing_needs_good_acks [OF probing_venue _ _ _ _ h])
      (simp_all add: probing_venue health_state_def must_get_def new_venue_state_def)
qed

section \<open>Silence\<close>

lemma conn_bad_high: "now - vs_last_seen st > heartbeat_tolerance_ns cfg \<Longrightarrow> any_high (assess cfg st now)
    \<and> \<not> all_low (assess cfg st now) \<and> cond_reason (assess cfg st now) = Connectivity"
  by (simp add: assess_def Let_def)

text \<open>silence takes a venue down. When nothing has been heard from a healthy venue for longer than
  the heartbeat tolerance, one tick degrades it, and a second tick at least the degrade dwell later
  takes it down: it is no longer tradeable and its routing weight is 0.\<close>

theorem silent_venue_goes_down:
  assumes "hm_venues h u = Some st" and "vs_state st = Healthy"
    and "now1 - vs_last_seen st > heartbeat_tolerance_ns (hm_cfg h)"
    and "now1 + degrade_dwell_ns (hm_cfg h) \<le> now2" and "0 \<le> degrade_dwell_ns (hm_cfg h)"
    and "distinct order1" and "u \<in> set order1" and "distinct order2" and "u \<in> set order2"
  defines "h1 \<equiv> health_tick order1 now1 h" and "h2 \<equiv> health_tick order2 now2 (health_tick order1 now1 h)"
  shows "health_state u h1 = Inr Degraded \<and> health_state u h2 = Inr Down
    \<and> is_tradeable u h2 = Inr False \<and> map_sum id sc_weight (health_score u h2) = Inr 0"
proof -
  define s1 where "s1 = eval_venue (hm_cfg h) st now1"
  have s1: "s1 = st\<lparr>vs_state := Degraded, vs_degraded_since := now1, vs_reason := Connectivity,
      vs_trips := vs_trips st + 1, vs_unresolved := vs_unresolved st + 1\<rparr>"
    using conn_bad_high [OF assms(3)] assms(2) by (simp add: s1_def eval_venue_def Let_def)
  have v1: "hm_venues h1 u = Some s1" "hm_cfg h1 = hm_cfg h"
    using tick_venue [OF assms(6), of now1 h u] assms(1,7) by (simp_all add: h1_def s1_def)
  have "now2 - vs_last_seen s1 > heartbeat_tolerance_ns (hm_cfg h)"
    using assms(3-5) by (simp add: s1)
  from conn_bad_high [OF this] have "vs_state (eval_venue (hm_cfg h) s1 now2) = Down"
    using assms(4) by (simp add: eval_venue_def Let_def s1)
  then have v2: "\<exists>s2. hm_venues h2 u = Some s2 \<and> vs_state s2 = Down" "hm_cfg h2 = hm_cfg h"
    using tick_venue [OF assms(8), of now2 h1 u] v1 assms(9) by (simp_all add: h2_def h1_def)
  then show ?thesis
    using v1 by (auto simp: health_state_def must_get_def is_tradeable_def health_score_def s1 state_weight_def)
qed

theorem silent_venue_goes_down_witness:
  "is_tradeable 3 (health_tick [3] 8000000000 (health_tick [3] 6000000000 demo_health)) = Inr False"
  using silent_venue_goes_down [OF demo_venue, of 6000000000 8000000000 "[3]" "[3]"]
  by (simp add: new_venue_state_def demo_health_def register_venue_def health_new_def default_health_config_def)

section \<open>A venue that is down gets no samples\<close>

definition samples_low :: "HealthConfig \<Rightarrow> VenueState \<Rightarrow> bool" where
  "samples_low cfg st \<longleftrightarrow>
     (ring_size (vs_rejects st) < reject_min_samples cfg
        \<or> ring_fraction (\<lambda>x. x = 1) (vs_rejects st) < reject_low cfg)
   \<and> (ring_empty (vs_latencies st)
        \<or> ring_percentile (dbl (99 / 100)) (vs_latencies st) < latency_low_ns cfg)"

lemma all_low_samples: "all_low (assess cfg st now) \<Longrightarrow> samples_low cfg st"
  by (auto simp: assess_def Let_def samples_low_def)

fun adds_sample :: "VenueId \<Rightarrow> health_event \<Rightarrow> bool" where
  "adds_sample u (HAck v lat) \<longleftrightarrow> v = u"
| "adds_sample u (HReject v b) \<longleftrightarrow> v = u \<and> \<not> b"
| "adds_sample u (HTimeout v) \<longleftrightarrow> v = u"
| "adds_sample u e \<longleftrightarrow> False"

lemma sampled_windows:
  assumes "event_venue e = Some u" and "\<not> adds_sample u e"
  shows "vs_rejects (sampled e now hi st) = vs_rejects st \<and> vs_latencies (sampled e now hi st) = vs_latencies st"
  using assms by (cases e) auto

lemma eval_windows [simp]:
  "vs_rejects (eval_venue cfg st now) = vs_rejects st" "vs_latencies (eval_venue cfg st now) = vs_latencies st"
  by (auto simp: eval_venue_def dec_unresolved_def Let_def split: HealthState.splits)

lemma down_step:
  assumes "apply_event e h = Inr h'" and "event_ok e" and "\<not> adds_sample u e"
    and "hm_venues h u = Some st" and "vs_state st = Down" and "\<not> samples_low (hm_cfg h) st"
  shows "\<exists>st'. hm_venues h' u = Some st' \<and> vs_state st' = Down \<and> \<not> samples_low (hm_cfg h') st'"
proof (rule event_effect [OF assms(1,2,4)])
  let ?st = "if event_venue e = Some u then sampled e (hm_clock h) (latency_high_ns (hm_cfg h)) st else st"
  fix st' assume s: "hm_venues h' u = Some st'" "hm_cfg h' = hm_cfg h"
    "st' = st \<or> (\<exists>now. st' = eval_venue (hm_cfg h) ?st now)"
  have w: "vs_rejects ?st = vs_rejects st" "vs_latencies ?st = vs_latencies st" "vs_state ?st = Down"
    using sampled_windows [of e u] assms(3,5) by auto
  then have nl: "\<not> samples_low (hm_cfg h) ?st" using assms(6) by (simp add: samples_low_def)
  then have "\<not> all_low (assess (hm_cfg h) ?st now)" for now using all_low_samples by blast
  then have "vs_state (eval_venue (hm_cfg h) ?st now) = Down" for now
    using w(3) by (simp add: eval_venue_def Let_def)
  moreover have "\<not> samples_low (hm_cfg h) (eval_venue (hm_cfg h) ?st now)" for now
    using nl by (simp add: samples_low_def)
  ultimately show ?thesis using s assms(5,6) by auto
qed

text \<open>C25: a venue that went down for its rejects or latencies cannot recover by itself. Its windows
  only move with acks, rejects or timeouts of its own orders, and a down venue is never routed an
  order: through any ticks, reconnects, fills and events of other venues, however much time passes,
  it stays down and untradeable.\<close>

theorem down_venue_stays_down_without_traffic:
  assumes "hm_venues h u = Some st" and "vs_state st = Down" and "\<not> samples_low (hm_cfg h) st"
    and "\<forall>e \<in> set es. event_ok e \<and> \<not> adds_sample u e" and "run_events es h = Inr h'"
  shows "health_state u h' = Inr Down \<and> is_tradeable u h' = Inr False"
proof -
  have "\<exists>st'. hm_venues h' u = Some st' \<and> vs_state st' = Down"
    using assms
  proof (induction es arbitrary: h st)
    case Nil
    then show ?case by simp
  next
    case (Cons e es)
    obtain h1 where h1: "apply_event e h = Inr h1" "run_events es h1 = Inr h'"
      using Cons.prems(5) by (auto elim: ebind_InrE)
    have "event_ok e" "\<not> adds_sample u e" using Cons.prems(4) by auto
    from down_step [OF h1(1) this Cons.prems(1-3)] obtain s1 where
      "hm_venues h1 u = Some s1" "vs_state s1 = Down" "\<not> samples_low (hm_cfg h1) s1" by blast
    from Cons.IH [OF this _ h1(2)] Cons.prems(4) show ?case by simp
  qed
  then show ?thesis by (auto simp: health_state_def must_get_def is_tradeable_def)
qed

definition down_config :: HealthConfig where
  "down_config = default_health_config\<lparr>latency_high_ns := 50, latency_low_ns := 20, latency_window := 4\<rparr>"

definition down_venue :: VenueState where
  "down_venue = (new_venue_state down_config)\<lparr>vs_last_seen := 100, vs_state := Down,
     vs_latencies := ring_push 90 (ring_new 4)\<rparr>"

definition down_model :: HealthModel where
  "down_model = (health_new down_config None 100)\<lparr>hm_venues := [3 \<mapsto> down_venue]\<rparr>"

theorem down_venue_stays_down_without_traffic_witness:
  "\<exists>h'. run_events [HReconnect 3, HTick [3] 1000000000000] down_model = Inr h'
     \<and> is_tradeable 3 h' = Inr False"
proof -
  have v: "hm_venues down_model 3 = Some down_venue" by (simp add: down_model_def)
  have low: "\<not> samples_low down_config down_venue" by code_simp
  have st: "vs_state down_venue = Down" by (simp add: down_venue_def)
  have cfg: "hm_cfg down_model = down_config" by (simp add: down_model_def health_new_def)
  obtain h' where h: "run_events [HReconnect 3, HTick [3] 1000000000000] down_model = Inr h'"
    by (simp add: health_on_reconnect_def must_get_def v Let_def)
  show ?thesis
    using down_venue_stays_down_without_traffic [OF v st _ _ h] low h by (simp add: cfg)
qed

end
