(* ===== verification/Signal.thy ===== *)
theory Signal
  imports Domain
begin

text \<open>
  \<^verbatim>\<open>include/oms/Signal.h\<close>, \<^verbatim>\<open>src/Signal.cpp\<close> and the codec helpers of
  \<^verbatim>\<open>include/oms/Detail.h\<close>: target-book messages, the in-process queue, the binary codec and the
  staleness gate. Sequence numbers and the schema version are words of their width; the signed
  64-bit fields are \<^typ>\<open>int\<close> as everywhere, and go over the wire as the 64-bit word they denote.
  The wire order of the bytes is that of the little-endian machines the program is built for.
\<close>

section \<open>Messages and the queue\<close>

record TargetPosition =
  tp_instrument :: InstrumentId
  tp_signed_target :: Quantity

record SignalMessage =
  sm_schema_version :: u32
  sm_sequence :: u64
  sm_generated_at :: Timestamp
  sm_strategy_id :: StrategyId
  sm_targets :: "TargetPosition list"

definition default_signal :: SignalMessage where
  "default_signal = \<lparr>sm_schema_version = 1, sm_sequence = 0, sm_generated_at = 0,
     sm_strategy_id = 0, sm_targets = []\<rparr>"

type_synonym signal_queue = "SignalMessage list"

definition queue_push :: "SignalMessage \<Rightarrow> signal_queue \<Rightarrow> signal_queue" where
  "queue_push m q = q @ [m]"

fun try_pop :: "signal_queue \<Rightarrow> (SignalMessage \<times> signal_queue) option" where
  "try_pop [] = None"
| "try_pop (m # q) = Some (m, q)"

definition queue_size :: "signal_queue \<Rightarrow> nat" where
  "queue_size q = length q"

section \<open>Codec\<close>

text \<open>\<^verbatim>\<open>detail::put\<close> and \<^verbatim>\<open>detail::get\<close> for a field of \<open>n\<close> bytes.\<close>

definition put_bytes :: "nat \<Rightarrow> u8 list \<Rightarrow> 'a::len word \<Rightarrow> u8 list" where
  "put_bytes n b v = b @ map (\<lambda>i. ucast (drop_bit (8 * i) v)) [0..<n]"

fun of_bytes :: "u8 list \<Rightarrow> 'a::len word" where
  "of_bytes [] = 0"
| "of_bytes (c # cs) = or (ucast c) (push_bit 8 (of_bytes cs))"

definition get_bytes :: "nat \<Rightarrow> u8 list \<Rightarrow> nat \<Rightarrow> ('a::len word \<times> nat) option" where
  "get_bytes n b off =
     (if off + n > length b then None else Some (of_bytes (take n (drop off b)), off + n))"

definition put_u16 :: "u8 list \<Rightarrow> u16 \<Rightarrow> u8 list" where "put_u16 = put_bytes 2"
definition put_u32 :: "u8 list \<Rightarrow> u32 \<Rightarrow> u8 list" where "put_u32 = put_bytes 4"
definition put_u64 :: "u8 list \<Rightarrow> u64 \<Rightarrow> u8 list" where "put_u64 = put_bytes 8"
definition put_i64 :: "u8 list \<Rightarrow> int \<Rightarrow> u8 list" where "put_i64 b v = put_u64 b (word_of_int v)"

definition get_u16 :: "u8 list \<Rightarrow> nat \<Rightarrow> (u16 \<times> nat) option" where "get_u16 = get_bytes 2"
definition get_u32 :: "u8 list \<Rightarrow> nat \<Rightarrow> (u32 \<times> nat) option" where "get_u32 = get_bytes 4"
definition get_u64 :: "u8 list \<Rightarrow> nat \<Rightarrow> (u64 \<times> nat) option" where "get_u64 = get_bytes 8"
definition get_i64 :: "u8 list \<Rightarrow> nat \<Rightarrow> (int \<times> nat) option" where
  "get_i64 b off = map_option (\<lambda>(w, off'). (sint w, off')) (get_u64 b off)"

definition put_target :: "u8 list \<Rightarrow> TargetPosition \<Rightarrow> u8 list" where
  "put_target b t = put_i64 (put_u16 b (tp_instrument t)) (tp_signed_target t)"

definition serialize_signal :: "SignalMessage \<Rightarrow> u8 list" where
  "serialize_signal m =
     (let b = put_u32 [] (sm_schema_version m);
          b = put_u64 b (sm_sequence m);
          b = put_i64 b (sm_generated_at m);
          b = put_u16 b (sm_strategy_id m);
          b = put_u32 b (word_of_nat (length (sm_targets m)))
      in foldl put_target b (sm_targets m))"

text \<open>
  The loop over the \<open>n\<close> announced targets; the target list read so far is part of the output
  message, which keeps it when a read fails.
\<close>

fun get_targets :: "nat \<Rightarrow> u8 list \<Rightarrow> nat \<Rightarrow> TargetPosition list \<Rightarrow> TargetPosition list \<times> nat option" where
  "get_targets 0 b off ts = (ts, Some off)"
| "get_targets (Suc n) b off ts =
     (case get_u16 b off of
        None \<Rightarrow> (ts, None)
      | Some (inst, off1) \<Rightarrow>
          (case get_i64 b off1 of
             None \<Rightarrow> (ts, None)
           | Some (q, off2) \<Rightarrow>
               get_targets n b off2 (ts @ [\<lparr>tp_instrument = inst, tp_signed_target = q\<rparr>])))"

text \<open>
  \<^verbatim>\<open>deserialize_signal\<close> returns the flag and the output parameter, which has whatever was read
  before a failure. \<open>max_reserve\<close> is the number of elements \<^verbatim>\<open>std::vector::reserve\<close> can provide:
  above it, \<^verbatim>\<open>reserve\<close> throws.
\<close>

definition deserialize_signal ::
  "nat \<Rightarrow> u8 list \<Rightarrow> SignalMessage \<Rightarrow> (bool \<times> SignalMessage) result" where
  "deserialize_signal max_reserve b m0 =
     (case get_u32 b 0 of None \<Rightarrow> Inr (False, m0) | Some (version, off1) \<Rightarrow>
      let m1 = m0\<lparr>sm_schema_version := version\<rparr> in
      case get_u64 b off1 of None \<Rightarrow> Inr (False, m1) | Some (seq, off2) \<Rightarrow>
      let m2 = m1\<lparr>sm_sequence := seq\<rparr> in
      case get_i64 b off2 of None \<Rightarrow> Inr (False, m2) | Some (gen, off3) \<Rightarrow>
      let m3 = m2\<lparr>sm_generated_at := gen\<rparr> in
      case get_u16 b off3 of None \<Rightarrow> Inr (False, m3) | Some (strat, off4) \<Rightarrow>
      let m4 = m3\<lparr>sm_strategy_id := strat\<rparr> in
      case get_u32 b off4 of None \<Rightarrow> Inr (False, m4) | Some (n, off5) \<Rightarrow>
      if unat n > max_reserve then Inl BadAlloc
      else case get_targets (unat n) b off5 [] of
             (ts, None) \<Rightarrow> Inr (False, m4\<lparr>sm_targets := ts\<rparr>)
           | (ts, Some off6) \<Rightarrow> Inr (off6 = length b, m4\<lparr>sm_targets := ts\<rparr>))"

section \<open>Gate\<close>

datatype SignalVerdict =
    Accept | RejectDNT | RejectAge | RejectAbsurd | GapAcceptedLogged | DuplicateDropped

record SignalGateConfig =
  max_signal_age :: Timestamp
  seq_modulo :: u64
  miss_threshold :: u64
  hb_interval :: Timestamp
  hb_threshold :: int
  max_abs_target :: Quantity

definition default_gate_config :: SignalGateConfig where
  "default_gate_config = \<lparr>max_signal_age = 5000000000, seq_modulo = push_bit 16 1,
     miss_threshold = 5, hb_interval = 60000000000, hb_threshold = 3, max_abs_target = 1000000000\<rparr>"

record Producer =
  pr_expected_seq :: u64
  pr_seen :: bool
  pr_last_accept :: Timestamp

definition new_producer :: Producer where
  "new_producer = \<lparr>pr_expected_seq = 0, pr_seen = False, pr_last_accept = 0\<rparr>"

record SignalGate =
  sg_cfg :: SignalGateConfig
  sg_log :: log_sink
  sg_trading_enabled :: bool
  sg_producers :: "StrategyId \<rightharpoonup> Producer"

definition gate_new :: "SignalGateConfig \<Rightarrow> log_sink \<Rightarrow> SignalGate" where
  "gate_new cfg sink = \<lparr>sg_cfg = cfg, sg_log = sink, sg_trading_enabled = False,
     sg_producers = Map.empty\<rparr>"

definition enable_trading :: "bool \<Rightarrow> SignalGate \<Rightarrow> SignalGate" where
  "enable_trading on g = g\<lparr>sg_trading_enabled := on\<rparr>"

definition gate_log :: "LogLevel \<Rightarrow> string \<Rightarrow> SignalGate \<Rightarrow> SignalGate" where
  "gate_log level line g = g\<lparr>sg_log := log_line level line (sg_log g)\<rparr>"

text \<open>The first target whose magnitude is above the limit.\<close>

fun first_absurd :: "Quantity \<Rightarrow> TargetPosition list \<Rightarrow> TargetPosition option" where
  "first_absurd limit [] = None"
| "first_absurd limit (t # ts) =
     (let a = (if tp_signed_target t < 0 then - tp_signed_target t else tp_signed_target t)
      in if a > limit then Some t else first_absurd limit ts)"

text \<open>\<^verbatim>\<open>producers_[id]\<close> creates the entry; the tail of \<^verbatim>\<open>check\<close> updates it through the reference.\<close>

definition accept_signal ::
  "SignalVerdict \<Rightarrow> SignalMessage \<Rightarrow> Timestamp \<Rightarrow> Producer \<Rightarrow> SignalGate \<Rightarrow> (SignalVerdict \<times> SignalGate) result" where
  "accept_signal verdict msg now p g =
     (if seq_modulo (sg_cfg g) = 0 then Inl DivisionByZero
      else Inr (verdict, g\<lparr>sg_producers := (sg_producers g)(sm_strategy_id msg \<mapsto>
        p\<lparr>pr_seen := True,
          pr_expected_seq := (sm_sequence msg + 1) mod seq_modulo (sg_cfg g),
          pr_last_accept := now\<rparr>)\<rparr>))"

definition gate_check :: "SignalMessage \<Rightarrow> Timestamp \<Rightarrow> SignalGate \<Rightarrow> (SignalVerdict \<times> SignalGate) result" where
  "gate_check msg now g =
     (if \<not> sg_trading_enabled g then
        Inr (RejectDNT, gate_log Warn
          ''signal rejected: do-not-trade (startup reconcile not complete)'' g)
      else case first_absurd (max_abs_target (sg_cfg g)) (sm_targets msg) of
        Some t \<Rightarrow> Inr (RejectAbsurd, gate_log LogError
          (''signal rejected: absurd target inst='' @ to_string (uint (tp_instrument t))
           @ '' qty='' @ to_string (tp_signed_target t)) g)
      | None \<Rightarrow>
        if now - sm_generated_at msg > max_signal_age (sg_cfg g) then
          Inr (RejectAge, gate_log Warn
            (''signal rejected: stale age producer='' @ to_string (uint (sm_strategy_id msg))
             @ '' gen_at='' @ to_string (sm_generated_at msg)) g)
        else
          let p = map_get new_producer (sg_producers g) (sm_strategy_id msg);
              g = g\<lparr>sg_producers := (sg_producers g)(sm_strategy_id msg \<mapsto> p)\<rparr>;
              modulus = seq_modulo (sg_cfg g);
              delta = (sm_sequence msg + modulus - pr_expected_seq p) mod modulus
          in if \<not> pr_seen p then accept_signal Accept msg now p g
             else if modulus = 0 then Inl DivisionByZero
             else if delta = 0 then accept_signal Accept msg now p g
             else if delta \<ge> modulus - miss_threshold (sg_cfg g) then
               Inr (DuplicateDropped, gate_log Warn
                 (''signal dropped: duplicate/reorder producer='' @ to_string (uint (sm_strategy_id msg))
                  @ '' seq='' @ to_string (uint (sm_sequence msg))) g)
             else
               accept_signal GapAcceptedLogged msg now p (gate_log Warn
                 (''signal gap: producer='' @ to_string (uint (sm_strategy_id msg))
                  @ '' expected='' @ to_string (uint (pr_expected_seq p))
                  @ '' got='' @ to_string (uint (sm_sequence msg))
                  @ '' missed='' @ to_string (uint delta)) g))"

definition heartbeat_alive :: "StrategyId \<Rightarrow> Timestamp \<Rightarrow> SignalGate \<Rightarrow> bool" where
  "heartbeat_alive producer now g =
     (case sg_producers g producer of
        None \<Rightarrow> False
      | Some p \<Rightarrow>
          pr_seen p \<and> now - pr_last_accept p \<le> hb_interval (sg_cfg g) * hb_threshold (sg_cfg g))"

end
