(* ===== verification/SignalCodec.thy ===== *)
theory SignalCodec
  imports Signal
begin

text \<open>
  The binary codec of signal messages accepts exactly its own encodings. A fixed-width field is
  an instance of the locale \<open>codec\<close>: the reader, told where to start, succeeds exactly when the
  bytes there are the encoding of a value the field can hold.
\<close>

section \<open>Fixed-width fields\<close>

locale codec =
  fixes enc :: "'v \<Rightarrow> u8 list"
    and get :: "u8 list \<Rightarrow> nat \<Rightarrow> ('v \<times> nat) option"
    and width :: nat
    and holds :: "'v \<Rightarrow> bool"
  assumes enc_length: "length (enc v) = width"
    and get_iff: "get b off = Some (v, off')
      \<longleftrightarrow> holds v \<and> off' = off + width \<and> (\<exists>rest. drop off b = enc v @ rest)"
begin

lemma get_enc: "holds v \<Longrightarrow> drop off b = enc v @ rest \<Longrightarrow> get b off = Some (v, off + width)"
  by (simp add: get_iff)

lemma get_rest:
  assumes "get b off = Some (v, off')"
  shows "drop off b = enc v @ drop off' b" and "holds v" and "off' = off + width"
proof -
  from assms obtain rest where r: "holds v" "off' = off + width" "drop off b = enc v @ rest"
    by (auto simp: get_iff)
  have "drop off' b = drop width (drop off b)" by (simp add: r(2) add.commute)
  also have "\<dots> = rest" by (simp add: r(3) enc_length)
  finally show "drop off b = enc v @ drop off' b" "holds v" "off' = off + width" using r by simp_all
qed

lemma get_SomeE:
  assumes "get b off = Some x"
  obtains v where "x = (v, off + width)" and "holds v" and "drop off b = enc v @ drop (off + width) b"
  using assms get_rest by (cases x) auto

end

lemma bit_of_bytes:
  "bit (of_bytes cs :: 'a::len word) k
     \<longleftrightarrow> k < LENGTH('a) \<and> k div 8 < length cs \<and> bit (cs ! (k div 8)) (k mod 8)"
proof (induction cs arbitrary: k)
  case (Cons c cs)
  show ?case
  proof (cases "k < 8")
    case True
    then show ?thesis by (auto simp: bit_or_iff bit_push_bit_iff bit_ucast_iff dest: bit_imp_le_length)
  next
    case False
    then obtain j where "k = 8 + j" using le_Suc_ex [of 8 k] by auto
    then have d: "k div 8 = Suc ((k - 8) div 8)" "(k - 8) mod 8 = k mod 8" by simp_all
    have "\<not> bit c k" using False by (auto dest: bit_imp_le_length)
    then have "bit (of_bytes (c # cs) :: 'a word) k \<longleftrightarrow> k < LENGTH('a) \<and> bit (of_bytes cs :: 'a word) (k - 8)"
      using False by (auto simp: bit_or_iff bit_push_bit_iff bit_ucast_iff)
    then show ?thesis using False by (auto simp: Cons d)
  qed
qed simp

definition word_bytes :: "nat \<Rightarrow> 'a::len word \<Rightarrow> u8 list" where
  "word_bytes n v = map (\<lambda>i. ucast (drop_bit (8 * i) v)) [0..<n]"

lemma put_bytes_eq: "put_bytes n b v = b @ word_bytes n v"
  by (simp add: put_bytes_def word_bytes_def)

lemma length_word_bytes [simp]: "length (word_bytes n v) = n"
  by (simp add: word_bytes_def)

lemma of_bytes_word_bytes:
  assumes "LENGTH('a::len) = 8 * n"
  shows "of_bytes (word_bytes n v) = (v :: 'a word)"
proof (rule bit_word_eqI)
  fix k assume k: "k < LENGTH('a)"
  then have "k div 8 < n" "8 * (k div 8) + k mod 8 = k" using assms by auto
  then show "bit (of_bytes (word_bytes n v) :: 'a word) k \<longleftrightarrow> bit v k"
    using k by (simp add: bit_of_bytes word_bytes_def bit_ucast_iff bit_drop_bit_eq)
qed

lemma word_bytes_of_bytes:
  assumes "LENGTH('a::len) = 8 * n" and "length cs = n"
  shows "word_bytes n (of_bytes cs :: 'a word) = cs"
proof (rule nth_equalityI)
  fix i assume "i < length (word_bytes n (of_bytes cs :: 'a word))"
  then have i: "i < n" by simp
  show "word_bytes n (of_bytes cs :: 'a word) ! i = cs ! i"
  proof (rule bit_word_eqI)
    fix k assume k: "k < LENGTH(8)"
    then have "(8 * i + k) div 8 = i" "(8 * i + k) mod 8 = k" "8 * i + k < LENGTH('a)"
      using i assms(1) by auto
    then show "bit (word_bytes n (of_bytes cs :: 'a word) ! i) k \<longleftrightarrow> bit (cs ! i) k"
      using i k assms(2) by (simp add: word_bytes_def bit_ucast_iff bit_drop_bit_eq bit_of_bytes)
  qed
qed (use assms(2) in simp)

lemma get_bytes_iff:
  assumes "LENGTH('a::len) = 8 * n" and "0 < n"
  shows "get_bytes n b off = Some (v :: 'a word, off')
    \<longleftrightarrow> off' = off + n \<and> (\<exists>rest. drop off b = word_bytes n v @ rest)"
proof
  assume "get_bytes n b off = Some (v, off')"
  then have h: "off + n \<le> length b" "off' = off + n" "v = of_bytes (take n (drop off b))"
    by (auto simp: get_bytes_def split: if_splits)
  have "word_bytes n v = take n (drop off b)"
    unfolding h(3) using h(1) by (intro word_bytes_of_bytes [OF assms(1)]) simp
  then have "drop off b = word_bytes n v @ drop n (drop off b)" by (metis append_take_drop_id)
  with h(2) show "off' = off + n \<and> (\<exists>rest. drop off b = word_bytes n v @ rest)" by blast
next
  assume "off' = off + n \<and> (\<exists>rest. drop off b = word_bytes n v @ rest)"
  then obtain rest where r: "off' = off + n" "drop off b = word_bytes n v @ rest" by blast
  from r(2) have "length b - off = n + length rest" by (metis length_append length_drop length_word_bytes)
  then have "off + n \<le> length b" using assms(2) by simp
  then show "get_bytes n b off = Some (v, off')"
    by (simp add: get_bytes_def r of_bytes_word_bytes [OF assms(1)])
qed

interpretation u16c: codec "word_bytes 2 :: u16 \<Rightarrow> u8 list" get_u16 2 "\<lambda>_. True"
  by unfold_locales (simp_all add: get_u16_def get_bytes_iff)

interpretation u32c: codec "word_bytes 4 :: u32 \<Rightarrow> u8 list" get_u32 4 "\<lambda>_. True"
  by unfold_locales (simp_all add: get_u32_def get_bytes_iff)

interpretation u64c: codec "word_bytes 8 :: u64 \<Rightarrow> u8 list" get_u64 8 "\<lambda>_. True"
  by unfold_locales (simp_all add: get_u64_def get_bytes_iff)

lemma sint_in_i64: "in_i64 (sint (w :: u64))"
  using sint_range_size [of w] by (simp add: in_i64_def word_size)

lemma sint_of_i64: "in_i64 v \<Longrightarrow> sint (word_of_int v :: u64) = v"
  by (simp add: in_i64_def sint_sbintrunc' signed_take_bit_int_eq_self)

interpretation i64c: codec "\<lambda>v. word_bytes 8 (word_of_int v :: u64)" get_i64 8 in_i64
proof
  show "length (word_bytes 8 (word_of_int v :: u64)) = 8" for v by simp
  show "get_i64 b off = Some (v, off') \<longleftrightarrow> in_i64 v \<and> off' = off + 8
      \<and> (\<exists>rest. drop off b = word_bytes 8 (word_of_int v :: u64) @ rest)" for b off v off'
  proof
    assume "get_i64 b off = Some (v, off')"
    then obtain w where "get_u64 b off = Some (w, off')" and v: "v = sint w"
      by (auto simp: get_i64_def)
    then show "in_i64 v \<and> off' = off + 8 \<and> (\<exists>rest. drop off b = word_bytes 8 (word_of_int v :: u64) @ rest)"
      by (auto simp: u64c.get_iff sint_in_i64)
  next
    assume "in_i64 v \<and> off' = off + 8 \<and> (\<exists>rest. drop off b = word_bytes 8 (word_of_int v :: u64) @ rest)"
    then have "get_u64 b off = Some (word_of_int v, off')" and "in_i64 v" by (auto simp: u64c.get_iff)
    then show "get_i64 b off = Some (v, off')" by (simp add: get_i64_def sint_of_i64)
  qed
qed

lemmas field_SomeE = u16c.get_SomeE u32c.get_SomeE u64c.get_SomeE i64c.get_SomeE

section \<open>The target list\<close>

definition target_bytes :: "TargetPosition \<Rightarrow> u8 list" where
  "target_bytes t = word_bytes 2 (tp_instrument t) @ word_bytes 8 (word_of_int (tp_signed_target t) :: u64)"

lemma length_target_bytes [simp]: "length (target_bytes t) = 10"
  by (simp add: target_bytes_def)

lemma length_targets_bytes: "length (concat (map target_bytes ts)) = 10 * length ts"
  by (induction ts) auto

lemma get_targets_enc:
  assumes "drop off b = concat (map target_bytes ts) @ rest"
    and "\<And>t. t \<in> set ts \<Longrightarrow> in_i64 (tp_signed_target t)"
  shows "get_targets (length ts) b off acc = (acc @ ts, Some (off + 10 * length ts))"
  using assms
proof (induction ts arbitrary: off acc)
  case (Cons t ts)
  let ?tail = "concat (map target_bytes ts) @ rest"
  have 1: "get_u16 b off = Some (tp_instrument t, off + 2)"
    using Cons.prems(1) by (intro u16c.get_enc) (simp_all add: target_bytes_def [of t])
  have "drop (off + 2) b = drop 2 (drop off b)" by (simp add: add.commute)
  also have "\<dots> = word_bytes 8 (word_of_int (tp_signed_target t) :: u64) @ ?tail"
    unfolding Cons.prems(1) by (simp add: target_bytes_def [of t])
  finally have 2: "get_i64 b (off + 2) = Some (tp_signed_target t, off + 2 + 8)"
    using Cons.prems(2) [of t] by (intro i64c.get_enc) simp_all
  have "drop (off + 10) b = drop 10 (drop off b)" by (simp add: add.commute)
  also have "\<dots> = ?tail" by (simp add: Cons.prems(1))
  finally have "get_targets (length ts) b (off + 10) (acc @ [t])
      = ((acc @ [t]) @ ts, Some (off + 10 + 10 * length ts))"
    using Cons.prems(2) by (intro Cons.IH) auto
  then show ?case using 1 2 by (cases t) (simp add: ac_simps)
qed simp

lemma get_targets_Some:
  assumes "get_targets n b off acc = (out, Some off')"
  obtains ts where "out = acc @ ts" and "length ts = n" and "off' = off + 10 * n"
    and "drop off b = concat (map target_bytes ts) @ drop off' b"
    and "\<And>t. t \<in> set ts \<Longrightarrow> in_i64 (tp_signed_target t)"
  using assms
proof (induction n arbitrary: off acc thesis)
  case 0
  then show ?case by simp
next
  case (Suc n)
  from Suc.prems(2) obtain inst off1 q off2
    where g1: "get_u16 b off = Some (inst, off1)" and g2: "get_i64 b off1 = Some (q, off2)"
      and rec: "get_targets n b off2 (acc @ [\<lparr>tp_instrument = inst, tp_signed_target = q\<rparr>]) = (out, Some off')"
    by (auto split: option.splits)
  note r1 = u16c.get_rest [OF g1] and r2 = i64c.get_rest [OF g2]
  obtain ts where ts: "out = (acc @ [\<lparr>tp_instrument = inst, tp_signed_target = q\<rparr>]) @ ts" "length ts = n"
      "off' = off2 + 10 * n" "drop off2 b = concat (map target_bytes ts) @ drop off' b"
      "\<And>t. t \<in> set ts \<Longrightarrow> in_i64 (tp_signed_target t)"
    using Suc.IH [OF _ rec] by blast
  show ?case
  proof (rule Suc.prems(1))
    show "out = acc @ (\<lparr>tp_instrument = inst, tp_signed_target = q\<rparr> # ts)" using ts(1) by simp
    show "drop off b = concat (map target_bytes (\<lparr>tp_instrument = inst, tp_signed_target = q\<rparr> # ts)) @ drop off' b"
      using r1(1) r2(1) ts(4) by (simp add: target_bytes_def)
  qed (use ts r1 r2 in auto)
qed

section \<open>Messages\<close>

definition header_bytes :: "SignalMessage \<Rightarrow> nat \<Rightarrow> u8 list" where
  "header_bytes m n = word_bytes 4 (sm_schema_version m) @ word_bytes 8 (sm_sequence m)
     @ word_bytes 8 (word_of_int (sm_generated_at m) :: u64) @ word_bytes 2 (sm_strategy_id m)
     @ word_bytes 4 (word_of_nat n :: u32)"

lemma length_header_bytes [simp]: "length (header_bytes m n) = 26"
  by (simp add: header_bytes_def)

lemma put_fields:
  "put_u16 b x = b @ word_bytes 2 x" "put_u32 b y = b @ word_bytes 4 y" "put_u64 b z = b @ word_bytes 8 z"
  "put_i64 b v = b @ word_bytes 8 (word_of_int v :: u64)" "put_target b t = b @ target_bytes t"
  by (simp_all add: put_u16_def put_u32_def put_u64_def put_i64_def put_target_def target_bytes_def put_bytes_eq)

lemma serialize_bytes:
  "serialize_signal m = header_bytes m (length (sm_targets m)) @ concat (map target_bytes (sm_targets m))"
proof -
  have "foldl put_target b ts = b @ concat (map target_bytes ts)" for b ts
    by (induction ts arbitrary: b) (simp_all add: put_fields)
  then show ?thesis by (simp add: serialize_signal_def Let_def put_fields header_bytes_def)
qed

text \<open>What the wire format can carry and this machine can allocate.\<close>

definition wire_ok :: "nat \<Rightarrow> SignalMessage \<Rightarrow> bool" where
  "wire_ok max_reserve m \<longleftrightarrow> in_i64 (sm_generated_at m)
     \<and> list_all (\<lambda>t. in_i64 (tp_signed_target t)) (sm_targets m)
     \<and> length (sm_targets m) < 2 ^ 32 \<and> length (sm_targets m) \<le> max_reserve"

lemma drop_step: "drop off b = xs @ rest \<Longrightarrow> length xs = n \<Longrightarrow> drop (off + n) b = rest"
  by (metis add.commute append_eq_conv_conj drop_drop)

text \<open>On a buffer with a complete header, only the count and the targets are left to decide.\<close>

lemma deserialize_header:
  assumes "in_i64 (sm_generated_at m)" and "n < 2 ^ 32"
  shows "deserialize_signal R (header_bytes m n @ tail) out =
    (if n > R then Inl BadAlloc
     else case get_targets n (header_bytes m n @ tail) 26 [] of
            (ts, None) \<Rightarrow> Inr (False, m\<lparr>sm_targets := ts\<rparr>)
          | (ts, Some off) \<Rightarrow> Inr (off = 26 + length tail, m\<lparr>sm_targets := ts\<rparr>))"
proof -
  let ?b = "header_bytes m n @ tail"
  have n: "unat (word_of_nat n :: u32) = n"
    using assms(2) by (simp add: unat_of_nat take_bit_nat_eq_self)
  have m: "out\<lparr>sm_schema_version := sm_schema_version m, sm_sequence := sm_sequence m,
      sm_generated_at := sm_generated_at m, sm_strategy_id := sm_strategy_id m, sm_targets := ts\<rparr>
      = m\<lparr>sm_targets := ts\<rparr>" for ts by (cases m; cases out) simp
  have d0: "drop 0 ?b = word_bytes 4 (sm_schema_version m) @ word_bytes 8 (sm_sequence m)
     @ word_bytes 8 (word_of_int (sm_generated_at m) :: u64) @ word_bytes 2 (sm_strategy_id m)
     @ word_bytes 4 (word_of_nat n :: u32) @ tail"
    by (simp add: header_bytes_def)
  note d4 = drop_step [OF d0 length_word_bytes] note d12 = drop_step [OF d4 length_word_bytes]
  note d20 = drop_step [OF d12 length_word_bytes] note d22 = drop_step [OF d20 length_word_bytes]
  note g = u32c.get_enc [OF TrueI d0] u64c.get_enc [OF TrueI d4] i64c.get_enc [OF assms(1) d12]
    u16c.get_enc [OF TrueI d20] u32c.get_enc [OF TrueI d22]
  show ?thesis using g by (simp add: deserialize_signal_def n m Let_def cong: if_cong)
qed

lemma deserialize_serialize:
  assumes "wire_ok R m"
  shows "deserialize_signal R (serialize_signal m) out = Inr (True, m)"
proof -
  let ?n = "length (sm_targets m)"
  have "get_targets ?n (serialize_signal m) 26 [] = (sm_targets m, Some (26 + 10 * ?n))"
    using get_targets_enc [of 26 "serialize_signal m" "sm_targets m" "[]" "[]"] assms
    by (simp add: wire_ok_def list_all_iff serialize_bytes)
  then show ?thesis
    using assms deserialize_header [of m ?n R "concat (map target_bytes (sm_targets m))" out]
    by (simp add: serialize_bytes wire_ok_def length_targets_bytes)
qed

lemma read_step:
  assumes "(case x of None \<Rightarrow> A | Some (v, n) \<Rightarrow> f v n) = B" and "A \<noteq> B"
  obtains v n where "x = Some (v, n)" and "f v n = B"
  using assms by (auto split: option.splits)

lemma deserialize_TrueD:
  assumes "deserialize_signal R b out = Inr (True, m)"
  shows "wire_ok R m \<and> b = serialize_signal m"
proof -
  have ne: "Inr (False, x) \<noteq> (Inr (True, m) :: (bool \<times> SignalMessage) result)" for x by simp
  from assms show ?thesis
    unfolding deserialize_signal_def Let_def
  proof (elim read_step [OF _ ne])
    fix v o1 s o2 gn o3 st o4 n o5
    assume g: "get_u32 b 0 = Some (v, o1)" "get_u64 b o1 = Some (s, o2)" "get_i64 b o2 = Some (gn, o3)"
      "get_u16 b o3 = Some (st, o4)" "get_u32 b o4 = Some (n, o5)"
    let ?m = "out\<lparr>sm_schema_version := v, sm_sequence := s, sm_generated_at := gn, sm_strategy_id := st\<rparr>"
    assume eq: "(if R < unat n then Inl BadAlloc
      else case get_targets (unat n) b o5 [] of
             (ts, None) \<Rightarrow> Inr (False, ?m\<lparr>sm_targets := ts\<rparr>)
           | (ts, Some off6) \<Rightarrow> Inr (off6 = length b, ?m\<lparr>sm_targets := ts\<rparr>)) = Inr (True, m)"
    obtain ts x where gt: "get_targets (unat n) b o5 [] = (ts, x)" by (cases "get_targets (unat n) b o5 []")
    have r: "unat n \<le> R" using eq by (cases "R < unat n") simp_all
    obtain o6 where x: "x = Some o6" using eq r gt by (cases x) simp_all
    have e: "o6 = length b" and m: "m = ?m\<lparr>sm_targets := ts\<rparr>" using eq r gt x by simp_all
    note t = gt [unfolded x]
    note f = u32c.get_rest [OF g(1)] u64c.get_rest [OF g(2)] i64c.get_rest [OF g(3)]
      u16c.get_rest [OF g(4)] u32c.get_rest [OF g(5)]
    obtain ts' where ts: "ts = ts'" "length ts' = unat n"
        "drop o5 b = concat (map target_bytes ts') @ drop o6 b"
        "\<And>t. t \<in> set ts' \<Longrightarrow> in_i64 (tp_signed_target t)"
      using get_targets_Some [OF t] by (metis append_Nil)
    have b: "b = word_bytes 4 v @ word_bytes 8 s @ word_bytes 8 (word_of_int gn :: u64) @ word_bytes 2 st
        @ word_bytes 4 n @ concat (map target_bytes ts')"
      using f(1,4,7,10,13) ts(3) e by simp
    have "word_of_nat (length ts') = n" by (simp add: ts(2))
    then have "serialize_signal m = b"
      by (simp add: b m ts(1) serialize_bytes header_bytes_def)
    moreover have "unat n < 2 ^ 32" using unsigned_less [of n] by simp
    then have "wire_ok R m" using f(8) r ts(2,4) by (auto simp: m ts(1) wire_ok_def list_all_iff)
    ultimately show ?thesis by simp
  qed
qed

end
