(* ===== verification/SignalGate.thy ===== *)
theory SignalGate
  imports SignalCodec
begin

text \<open>
  Properties of the signal codec and of the staleness gate: what the gate admits, what a rejected
  message leaves behind, and how the distance of a sequence number from the last accepted one
  decides the verdict.
\<close>

section \<open>The branches of check\<close>

lemma first_absurd_None:
  "first_absurd limit ts = None \<longleftrightarrow> (\<forall>t \<in> set ts. \<bar>tp_signed_target t\<bar> \<le> limit)"
  by (induction ts) (auto simp: Let_def abs_if)

definition accepts :: "SignalVerdict \<Rightarrow> bool" where
  "accepts v \<longleftrightarrow> v = Accept \<or> v = GapAcceptedLogged"

lemma accepts_simps [simp]:
  "accepts Accept" "accepts GapAcceptedLogged" "\<not> accepts RejectDNT" "\<not> accepts RejectAge"
  "\<not> accepts RejectAbsurd" "\<not> accepts DuplicateDropped"
  by (simp_all add: accepts_def)

text \<open>A message that passes the three stateless checks.\<close>

definition fresh_signal :: "SignalMessage \<Rightarrow> Timestamp \<Rightarrow> SignalGate \<Rightarrow> bool" where
  "fresh_signal msg now g \<longleftrightarrow> sg_trading_enabled g
     \<and> (\<forall>t \<in> set (sm_targets msg). \<bar>tp_signed_target t\<bar> \<le> max_abs_target (sg_cfg g))
     \<and> now - sm_generated_at msg \<le> max_signal_age (sg_cfg g)"

lemma gate_log_simps [simp]:
  "sg_producers (gate_log l s g) = sg_producers g" "sg_cfg (gate_log l s g) = sg_cfg g"
  "sg_trading_enabled (gate_log l s g) = sg_trading_enabled g"
  by (simp_all add: gate_log_def)

lemma gate_check_stale:
  assumes "\<not> fresh_signal msg now g"
  obtains v g' where "gate_check msg now g = Inr (v, g')" and "\<not> accepts v"
    and "sg_producers g' = sg_producers g" and "sg_cfg g' = sg_cfg g"
    and "sg_trading_enabled g' = sg_trading_enabled g"
proof (cases "first_absurd (max_abs_target (sg_cfg g)) (sm_targets msg)")
  case None
  then have "\<not> sg_trading_enabled g \<or> now - sm_generated_at msg > max_signal_age (sg_cfg g)"
    using assms by (auto simp: fresh_signal_def first_absurd_None)
  then show thesis using that None by (cases "sg_trading_enabled g") (auto simp: gate_check_def)
next
  case (Some t)
  then show thesis using that by (cases "sg_trading_enabled g") (auto simp: gate_check_def)
qed

text \<open>The sequence test of a fresh message of a producer already seen.\<close>

definition seq_delta :: "SignalMessage \<Rightarrow> Producer \<Rightarrow> SignalGate \<Rightarrow> u64" where
  "seq_delta msg p g = (sm_sequence msg + seq_modulo (sg_cfg g) - pr_expected_seq p) mod seq_modulo (sg_cfg g)"

definition accepted_state :: "SignalMessage \<Rightarrow> Timestamp \<Rightarrow> SignalGate \<Rightarrow> (StrategyId \<rightharpoonup> Producer)" where
  "accepted_state msg now g = (sg_producers g)(sm_strategy_id msg \<mapsto>
     \<lparr>pr_expected_seq = (sm_sequence msg + 1) mod seq_modulo (sg_cfg g), pr_seen = True,
      pr_last_accept = now\<rparr>)"

lemma producer_update:
  "p\<lparr>pr_seen := b, pr_expected_seq := e, pr_last_accept := t\<rparr>
     = \<lparr>pr_expected_seq = e, pr_seen = b, pr_last_accept = t\<rparr>"
  by (cases p) simp

lemma heartbeat_accepted:
  "sg_producers g' = accepted_state msg now g \<Longrightarrow> sg_cfg g' = sg_cfg g \<Longrightarrow>
   heartbeat_alive producer t g' \<longleftrightarrow>
     (if producer = sm_strategy_id msg then t - now \<le> hb_interval (sg_cfg g) * hb_threshold (sg_cfg g)
      else heartbeat_alive producer t g)"
  by (auto simp: heartbeat_alive_def accepted_state_def split: option.split)

lemma gate_check_fresh:
  assumes fresh: "fresh_signal msg now g" and mod: "seq_modulo (sg_cfg g) \<noteq> 0"
  defines "p \<equiv> map_get new_producer (sg_producers g) (sm_strategy_id msg)"
  shows "\<exists>v g'. gate_check msg now g = Inr (v, g') \<and> sg_cfg g' = sg_cfg g
    \<and> sg_trading_enabled g' = sg_trading_enabled g
    \<and> v = (if \<not> pr_seen p \<or> seq_delta msg p g = 0 then Accept
           else if seq_delta msg p g \<ge> seq_modulo (sg_cfg g) - miss_threshold (sg_cfg g)
           then DuplicateDropped else GapAcceptedLogged)
    \<and> sg_producers g' = (if accepts v then accepted_state msg now g else sg_producers g)"
proof -
  let ?g = "g\<lparr>sg_producers := (sg_producers g)(sm_strategy_id msg \<mapsto> p)\<rparr>"
  have chk: "first_absurd (max_abs_target (sg_cfg g)) (sm_targets msg) = None"
    "sg_trading_enabled g" "\<not> max_signal_age (sg_cfg g) < now - sm_generated_at msg"
    using fresh by (simp_all add: first_absurd_None fresh_signal_def)
  note eq = chk gate_check_def [of msg now g] p_def [symmetric] Let_def
    seq_delta_def [of msg p g]
  have acc: "\<exists>g'. accept_signal v msg now p h = Inr (v, g') \<and> sg_cfg g' = sg_cfg g
      \<and> sg_trading_enabled g' = sg_trading_enabled g \<and> sg_producers g' = accepted_state msg now g"
    if "h = ?g \<or> (\<exists>l s. h = gate_log l s ?g)" for v h
  proof -
    have "sg_cfg h = sg_cfg g" "sg_trading_enabled h = sg_trading_enabled g"
      "sg_producers h = (sg_producers g)(sm_strategy_id msg \<mapsto> p)" using that by auto
    then show ?thesis using mod by (simp add: accept_signal_def accepted_state_def producer_update)
  qed
  consider "\<not> pr_seen p \<or> seq_delta msg p g = 0"
    | "pr_seen p" "seq_delta msg p g \<noteq> 0"
      "seq_delta msg p g \<ge> seq_modulo (sg_cfg g) - miss_threshold (sg_cfg g)"
    | "pr_seen p" "seq_delta msg p g \<noteq> 0"
      "\<not> seq_delta msg p g \<ge> seq_modulo (sg_cfg g) - miss_threshold (sg_cfg g)" by blast
  then show ?thesis
  proof cases
    case 1
    then have "gate_check msg now g = accept_signal Accept msg now p ?g"
      using mod by (auto simp: eq)
    with acc [of ?g Accept] 1 show ?thesis by auto
  next
    case 2
    have "sg_producers g (sm_strategy_id msg) = Some p"
      using 2(1) by (auto simp: p_def map_get_def new_producer_def split: option.splits)
    then have same: "(sg_producers g)(sm_strategy_id msg \<mapsto> p) = sg_producers g" by (simp add: fun_upd_idem)
    have "\<exists>s. gate_check msg now g = Inr (DuplicateDropped, gate_log Warn s ?g)"
      using mod 2 by (auto simp: eq)
    then show ?thesis using 2 by (auto simp: same)
  next
    case 3
    then obtain s where eq3: "gate_check msg now g = accept_signal GapAcceptedLogged msg now p (gate_log Warn s ?g)"
      using mod by (auto simp: eq)
    have "\<exists>g'. accept_signal GapAcceptedLogged msg now p (gate_log Warn s ?g) = Inr (GapAcceptedLogged, g')
      \<and> sg_cfg g' = sg_cfg g \<and> sg_trading_enabled g' = sg_trading_enabled g
      \<and> sg_producers g' = accepted_state msg now g"
      by (rule acc) blast
    with eq3 3 show ?thesis by auto
  qed
qed

section \<open>Properties of the codec\<close>

text \<open>C14: The reader accepts exactly the encodings the writer produces: it returns true with message m
  if and only if the buffer is the serialization of m, a message the wire can carry and the
  machine can allocate. So every message survives the round trip and every truncated, padded or
  otherwise altered buffer is refused or reads as another message.\<close>

theorem decode_accepts_exactly_encodings:
  "deserialize_signal R b out = Inr (True, m) \<longleftrightarrow> wire_ok R m \<and> b = serialize_signal m"
  using deserialize_serialize deserialize_TrueD by blast

text \<open>The announced count is reserved before the length is checked: a buffer that ends after its
  header makes the reader throw.\<close>

lemma count_reserved_before_check:
  assumes "in_i64 (sm_generated_at m)" and "n < 2 ^ 32" and "R < n"
  shows "deserialize_signal R (header_bytes m n) out = Inl BadAlloc"
  using deserialize_header [OF assms(1,2), of R "[]" out] assms(3) by simp

section \<open>Properties of the gate\<close>

definition ex_gate :: SignalGate where
  "ex_gate = enable_trading True (gate_new default_gate_config None)"

definition ex_signal :: "u64 \<Rightarrow> SignalMessage" where
  "ex_signal seq = default_signal\<lparr>sm_sequence := seq, sm_strategy_id := 1,
     sm_targets := [\<lparr>tp_instrument = 7, tp_signed_target = 10\<rparr>]\<rparr>"

definition ex_gate_seen :: SignalGate where
  "ex_gate_seen = ex_gate\<lparr>sg_producers := accepted_state (ex_signal 41) 0 ex_gate\<rparr>"

lemma ex_gate_first: "gate_check (ex_signal 41) 0 ex_gate = Inr (Accept, ex_gate_seen)"
  by (simp add: gate_check_def ex_gate_def gate_new_def enable_trading_def default_gate_config_def
      ex_signal_def default_signal_def accept_signal_def ex_gate_seen_def accepted_state_def
      new_producer_def Let_def producer_update)



lemma take_bit_diff_word: "take_bit n (a - take_bit n b) = take_bit n (a - b)" for a b :: "'a::len word"
proof -
  have "take_bit k (x - take_bit k y) = take_bit k (x - y)" for k and x y :: int
    by (simp add: take_bit_eq_mod mod_diff_right_eq)
  then show ?thesis by transfer (metis take_bit_take_bit min.commute min.left_idem)
qed

lemma distance_mod: "(a + 0x10000 - b mod 0x10000) mod 0x10000 = (a - b) mod 0x10000" for a b :: u64
proof -
  have red: "x mod 0x10000 = take_bit 16 x" for x :: u64 by (simp add: take_bit_eq_mod)
  have "take_bit 16 (a + 0x10000 - take_bit 16 b) = take_bit 16 (a - b - take_bit 16 (- 0x10000))"
    unfolding take_bit_diff_word by (simp add: algebra_simps)
  also have "take_bit 16 (- 0x10000 :: u64) = 0" by simp
  finally show ?thesis by (simp add: red)
qed

text \<open>C32: With the default wrap space of 2^16, the verdict on the next fresh signal of a producer
  depends on its distance k from the successor of the last accepted sequence number alone,
  modulo 2^16: in order is accepted, up to miss_threshold behind is dropped without a trace, and
  everything else is applied as a forward gap, also a signal further behind than the threshold.\<close>

theorem gate_classifies_by_distance:
  assumes "gate_check msg now g = Inr (v, g1)" and "accepts v"
    and "seq_modulo (sg_cfg g) = 0x10000"
    and "sm_strategy_id msg' = sm_strategy_id msg" and "sm_sequence msg' = sm_sequence msg + 1 + k"
    and "fresh_signal msg' now' g1"
  shows "\<exists>v' g2. gate_check msg' now' g1 = Inr (v', g2)
    \<and> v' = (if k mod 0x10000 = 0 then Accept
            else if 0x10000 - miss_threshold (sg_cfg g) \<le> k mod 0x10000 then DuplicateDropped
            else GapAcceptedLogged)
    \<and> sg_producers g2 = (if v' = DuplicateDropped then sg_producers g1
        else accepted_state msg' now' g1)"
proof -
  have fresh: "fresh_signal msg now g"
    using gate_check_stale [of msg now g] assms(1,2) by fastforce
  have mod: "seq_modulo (sg_cfg g) \<noteq> 0" using assms(3) by simp
  from gate_check_fresh [OF fresh mod] assms(1,2)
  have g1: "sg_cfg g1 = sg_cfg g" "sg_producers g1 = accepted_state msg now g" by auto
  let ?p = "map_get new_producer (sg_producers g1) (sm_strategy_id msg')"
  have p: "pr_seen ?p" "pr_expected_seq ?p = (sm_sequence msg + 1) mod 0x10000"
    using assms(3,4) by (simp_all add: g1 accepted_state_def)
  have "seq_delta msg' ?p g1
      = (sm_sequence msg + 1 + k + 0x10000 - (sm_sequence msg + 1) mod 0x10000) mod 0x10000"
    unfolding seq_delta_def p(2) assms(5) g1(1) assms(3) ..
  also have "\<dots> = (sm_sequence msg + 1 + k - (sm_sequence msg + 1)) mod 0x10000" by (rule distance_mod)
  finally have delta: "seq_delta msg' ?p g1 = k mod 0x10000" by simp
  have mod1: "seq_modulo (sg_cfg g1) \<noteq> 0" using mod g1 by simp
  obtain d where d: "k mod 0x10000 = d" by blast
  show ?thesis
    using gate_check_fresh [OF assms(6) mod1] p(1) delta assms(3) unfolding d by (auto simp: g1(1))
qed

lemma gate_classifies_by_distance_witness:
  "(\<exists>g2. gate_check (ex_signal 42) 0 ex_gate_seen = Inr (Accept, g2))
   \<and> (\<exists>g2. gate_check (ex_signal 38) 0 ex_gate_seen = Inr (DuplicateDropped, g2))
   \<and> (\<exists>g2. gate_check (ex_signal 30) 0 ex_gate_seen = Inr (GapAcceptedLogged, g2))"
proof -
  have f: "fresh_signal (ex_signal q) 0 ex_gate_seen" for q
    by (simp add: fresh_signal_def ex_gate_seen_def ex_gate_def gate_new_def enable_trading_def
        default_gate_config_def ex_signal_def default_signal_def)
  have c: "seq_modulo (sg_cfg ex_gate) = 0x10000" "miss_threshold (sg_cfg ex_gate) = 5"
    by (simp_all add: ex_gate_def gate_new_def enable_trading_def default_gate_config_def)
  have s: "sm_strategy_id (ex_signal q) = sm_strategy_id (ex_signal 41)"
    "sm_sequence (ex_signal q) = q" for q by (simp_all add: ex_signal_def)
  note cl = gate_classifies_by_distance [OF ex_gate_first _ c(1) s(1) _ f]
  from cl [of 42 0] cl [of 38 "- 4"] cl [of 30 "- 12"] show ?thesis
    by (simp add: s c word_le_nat_alt) blast
qed

end
