(* ===== verification/SignalProducer.thy ===== *)
theory SignalProducer
  imports Signal
begin

text \<open>
  \<^verbatim>\<open>include/oms/SignalProducer.h\<close>, \<^verbatim>\<open>src/SignalProducer.cpp\<close> and \<^verbatim>\<open>detail::next_rand\<close>: the
  seeded demo producer. Its loop counter is a \<^verbatim>\<open>StrategyId\<close>, a 16-bit word that wraps, so the
  loop is a \<open>partial_function\<close> whose \<open>None\<close> is not returning.
\<close>

text \<open>The splitmix64 step: the number drawn and the new state.\<close>

definition next_rand :: "u64 \<Rightarrow> u64 \<times> u64" where
  "next_rand s0 =
     (let s = s0 + 0x9E3779B97F4A7C15;
          z = s;
          z = xor z (drop_bit 30 z) * 0xBF58476D1CE4E5B9;
          z = xor z (drop_bit 27 z) * 0x94D049BB133111EB
      in (xor z (drop_bit 31 z), s))"

record SignalProducerConfig =
  num_strategies :: StrategyId
  spc_instruments :: "InstrumentId list"
  targets_per_strategy :: u32
  spc_max_abs_target :: Quantity
  spc_seed :: u64

definition default_producer_config :: SignalProducerConfig where
  "default_producer_config = \<lparr>num_strategies = 50, spc_instruments = [], targets_per_strategy = 8,
     spc_max_abs_target = 500, spc_seed = 0x5eed123456789abc\<rparr>"

record SignalProducer =
  sp_cfg :: SignalProducerConfig
  sp_rng :: u64
  sp_seq :: "StrategyId \<rightharpoonup> u64"

definition producer_new :: "SignalProducerConfig \<Rightarrow> SignalProducer" where
  "producer_new cfg = \<lparr>sp_cfg = cfg, sp_rng = spc_seed cfg, sp_seq = Map.empty\<rparr>"

definition targets_per :: "SignalProducerConfig \<Rightarrow> nat" where
  "targets_per cfg =
     (if unat (targets_per_strategy cfg) > length (spc_instruments cfg)
      then unat (word_of_nat (length (spc_instruments cfg)) :: u32)
      else unat (targets_per_strategy cfg))"

definition produce_target ::
  "SignalProducerConfig \<Rightarrow> nat \<Rightarrow> u64 \<times> TargetPosition list \<Rightarrow> nat \<Rightarrow> u64 \<times> TargetPosition list" where
  "produce_target cfg start acc i =
     (let (rng, targets) = acc;
          n = length (spc_instruments cfg);
          inst = spc_instruments cfg ! ((start + i) mod n);
          span = 2 * spc_max_abs_target cfg + 1;
          (r, rng') = next_rand rng;
          target = sint (r mod word_of_int span) - spc_max_abs_target cfg
      in (rng', targets @ [\<lparr>tp_instrument = inst, tp_signed_target = target\<rparr>]))"

text \<open>The body of the strategy loop.\<close>

definition produce_one ::
  "Timestamp \<Rightarrow> SignalProducer \<times> SignalMessage list \<Rightarrow> StrategyId \<Rightarrow> SignalProducer \<times> SignalMessage list" where
  "produce_one now acc s =
     (let (p, out) = acc;
          cfg = sp_cfg p;
          seq = map_get 0 (sp_seq p) s;
          (r, rng) = next_rand (sp_rng p);
          start = unat r mod length (spc_instruments cfg);
          (rng', targets) = foldl (produce_target cfg start) (rng, []) [0..<targets_per cfg]
      in (p\<lparr>sp_rng := rng', sp_seq := (sp_seq p)(s \<mapsto> seq + 1)\<rparr>,
          out @ [default_signal\<lparr>sm_strategy_id := s, sm_generated_at := now, sm_sequence := seq,
            sm_targets := targets\<rparr>]))"

partial_function (option) produce_loop ::
  "StrategyId \<Rightarrow> Timestamp \<Rightarrow> StrategyId \<Rightarrow> SignalProducer \<times> SignalMessage list
     \<Rightarrow> (SignalProducer \<times> SignalMessage list) option" where
  "produce_loop num now s acc =
     (if s \<le> num then produce_loop num now (s + 1) (produce_one now acc s) else Some acc)"

definition produce_cycle :: "Timestamp \<Rightarrow> SignalProducer \<Rightarrow> (SignalProducer \<times> SignalMessage list) option" where
  "produce_cycle now p =
     (if spc_instruments (sp_cfg p) = [] \<or> num_strategies (sp_cfg p) = 0 then Some (p, [])
      else produce_loop (num_strategies (sp_cfg p)) now 1 (p, []))"

definition strategy_count :: "SignalProducer \<Rightarrow> StrategyId" where
  "strategy_count p = num_strategies (sp_cfg p)"

section \<open>The loop\<close>

lemma u16_bound: "unat (x :: u16) < 65536"
  by (rule less_le_trans [OF unsigned_less]) simp

lemma produce_loop_wraps: "produce_loop 0xFFFF now s acc = None"
proof (rule ccontr)
  assume "produce_loop 0xFFFF now s acc \<noteq> None"
  then obtain r where r: "produce_loop 0xFFFF now s acc = Some r" by blast
  have all: "s \<le> 0xFFFF" for s :: u16
    using u16_bound [of s] by (simp add: word_le_nat_alt)
  have "(0xFFFF :: u16) = 0xFFFF \<longrightarrow> False"
    by (rule produce_loop.raw_induct [where P = "\<lambda>num now s acc r. num = 0xFFFF \<longrightarrow> False", OF _ r])
      (auto simp: all split: if_splits)
  then show False by simp
qed

text \<open>The strategy ids the loop visits when it returns.\<close>

definition strategy_range :: "StrategyId \<Rightarrow> StrategyId \<Rightarrow> StrategyId list" where
  "strategy_range s num = map word_of_nat [unat s..<Suc (unat num)]"

lemma produce_loop_fold:
  assumes "num < 0xFFFF"
  shows "produce_loop num now s acc = Some (foldl (produce_one now) acc (strategy_range s num))"
proof (induction "Suc (unat num) - unat s" arbitrary: s acc)
  case 0
  then have "\<not> s \<le> num" by (simp add: word_le_nat_alt)
  then show ?case by (subst produce_loop.simps) (simp add: strategy_range_def word_le_nat_alt)
next
  case (Suc k)
  then have le: "s \<le> num" by (simp add: word_le_nat_alt)
  then have "unat s < 0xFFFF" using assms by (simp add: word_le_nat_alt word_less_nat_alt)
  then have "unat (s + 1) = Suc (unat s)" by (subst unat_plus_if_size) (simp add: word_size)
  note u = this
  have "num = s \<or> unat s < unat num"
    using le by (metis le_neq_implies_less unat_inj word_le_nat_alt)
  then have "strategy_range s num = s # strategy_range (s + 1) num"
    using le by (auto simp: strategy_range_def u upt_conv_Cons word_le_nat_alt unat_inj)
  moreover have "produce_loop num now (s + 1) (produce_one now acc s)
      = Some (foldl (produce_one now) (produce_one now acc s) (strategy_range (s + 1) num))"
    using Suc(2) u by (intro Suc(1)) simp
  ultimately show ?case using le by (subst produce_loop.simps) simp
qed


lemma produce_cycle_fold:
  assumes "num_strategies (sp_cfg p) < 0xFFFF"
  shows "produce_cycle now p = Some (if spc_instruments (sp_cfg p) = [] \<or> num_strategies (sp_cfg p) = 0
    then (p, [])
    else foldl (produce_one now) (p, []) (strategy_range 1 (num_strategies (sp_cfg p))))"
  by (simp add: produce_cycle_def produce_loop_fold [OF assms])

section \<open>What one cycle holds\<close>

lemma in_strategy_range: "s \<in> set (strategy_range 1 num) \<Longrightarrow> 1 \<le> unat s \<and> s \<le> num"
proof -
  assume "s \<in> set (strategy_range 1 num)"
  then obtain k where k: "1 \<le> k" "k \<le> unat num" "s = word_of_nat k" by (auto simp: strategy_range_def)
  then have "unat s = k" using u16_bound [of num] by (simp add: unat_of_nat take_bit_nat_eq_self)
  then show ?thesis using k by (simp add: word_le_nat_alt)
qed

lemma distinct_strategy_range: "distinct (strategy_range s num)"
proof -
  have "inj_on (word_of_nat :: nat \<Rightarrow> u16) {unat s..<Suc (unat num)}"
  proof (rule inj_onI)
    fix a b assume "a \<in> {unat s..<Suc (unat num)}" "b \<in> {unat s..<Suc (unat num)}"
      and eq: "(word_of_nat a :: u16) = word_of_nat b"
    then have "a < 2 ^ 16" "b < 2 ^ 16" using u16_bound [of num] by auto
    then show "a = b" using arg_cong [OF eq, of unat] by (simp add: unat_of_nat take_bit_nat_eq_self)
  qed
  then show ?thesis unfolding strategy_range_def distinct_map by (simp only: set_upt distinct_upt)
qed

text \<open>A target drawn below the span is within the configured magnitude.\<close>

lemma produce_target_bound:
  assumes "0 \<le> spc_max_abs_target cfg" and "spc_max_abs_target cfg < 2 ^ 62"
    and "\<And>t. t \<in> set (snd acc) \<Longrightarrow> \<bar>tp_signed_target t\<bar> \<le> spc_max_abs_target cfg"
    and "t \<in> set (snd (produce_target cfg start acc i))"
  shows "\<bar>tp_signed_target t\<bar> \<le> spc_max_abs_target cfg"
proof -
  let ?m = "spc_max_abs_target cfg"
  obtain r rng where nr: "next_rand (fst acc) = (r, rng)" by (cases "next_rand (fst acc)")
  from assms(4) have "t \<in> set (snd acc) \<or> tp_signed_target t = sint (r mod word_of_int (2 * ?m + 1)) - ?m"
    by (auto simp: produce_target_def Let_def nr split_beta)
  moreover have "0 \<le> sint (r mod word_of_int (2 * ?m + 1) :: u64)
      \<and> sint (r mod word_of_int (2 * ?m + 1) :: u64) \<le> 2 * ?m"
  proof -
    have w: "uint (word_of_int (2 * ?m + 1) :: u64) = 2 * ?m + 1"
      unfolding uint_word_of_int using assms(1,2) by simp
    have u: "uint (r mod word_of_int (2 * ?m + 1)) = uint r mod (2 * ?m + 1)"
      by (simp only: uint_mod_distrib w)
    have b: "0 \<le> uint r mod (2 * ?m + 1)" "uint r mod (2 * ?m + 1) < 2 * ?m + 1"
      using assms(1) pos_mod_bound [of "2 * ?m + 1" "uint r"] by simp_all
    have "sint (r mod word_of_int (2 * ?m + 1) :: u64) = uint r mod (2 * ?m + 1)"
      unfolding sint_uint u using b assms(2) by (intro signed_take_bit_int_eq_self) simp_all
    with b show ?thesis by simp
  qed
  ultimately show ?thesis using assms(3) by auto
qed

definition signal_ok :: "Timestamp \<Rightarrow> SignalProducerConfig \<Rightarrow> SignalMessage \<Rightarrow> bool" where
  "signal_ok now cfg m \<longleftrightarrow> sm_generated_at m = now \<and> length (sm_targets m) = targets_per cfg
     \<and> list_all (\<lambda>t. \<bar>tp_signed_target t\<bar> \<le> spc_max_abs_target cfg) (sm_targets m)"

lemma produce_one_spec:
  assumes "0 \<le> spc_max_abs_target (sp_cfg p)" and "spc_max_abs_target (sp_cfg p) < 2 ^ 62"
    and "produce_one now (p, out) s = (p', out')"
  obtains m where "out' = out @ [m]" and "signal_ok now (sp_cfg p) m" and "sm_strategy_id m = s"
    and "sm_sequence m = map_get 0 (sp_seq p) s" and "sp_cfg p' = sp_cfg p"
    and "sp_seq p' = (sp_seq p)(s \<mapsto> map_get 0 (sp_seq p) s + 1)"
proof -
  let ?cfg = "sp_cfg p"
  obtain r rng where nr: "next_rand (sp_rng p) = (r, rng)" by (cases "next_rand (sp_rng p)")
  let ?start = "unat r mod length (spc_instruments ?cfg)"
  obtain rng' ts where f: "foldl (produce_target ?cfg ?start) (rng, []) [0..<targets_per ?cfg] = (rng', ts)"
    by (cases "foldl (produce_target ?cfg ?start) (rng, []) [0..<targets_per ?cfg]")
  have bound: "t \<in> set (snd (foldl (produce_target ?cfg ?start) (rng, []) xs))
      \<Longrightarrow> \<bar>tp_signed_target t\<bar> \<le> spc_max_abs_target ?cfg" for xs t
    by (induction xs arbitrary: t rule: rev_induct)
      (auto dest: produce_target_bound [OF assms(1,2), rotated])
  have len: "length (snd (foldl (produce_target ?cfg ?start) (rng, []) xs)) = length xs" for xs
    by (induction xs rule: rev_induct) (simp_all add: produce_target_def Let_def split_beta)
  have ts: "length ts = targets_per ?cfg" "\<And>t. t \<in> set ts \<Longrightarrow> \<bar>tp_signed_target t\<bar> \<le> spc_max_abs_target ?cfg"
    using len [of "[0..<targets_per ?cfg]"] bound [of _ "[0..<targets_per ?cfg]"] by (simp_all add: f)
  show thesis
    by (rule that [of "default_signal\<lparr>sm_strategy_id := s, sm_generated_at := now,
          sm_sequence := map_get 0 (sp_seq p) s, sm_targets := ts\<rparr>"])
      (use assms(3) ts in \<open>auto simp: produce_one_def Let_def nr f signal_ok_def list_all_iff\<close>)
qed

text \<open>The messages of the loop, in order, with the sequence numbers of the state it starts from.\<close>

lemma produce_fold_spec:
  assumes "0 \<le> spc_max_abs_target (sp_cfg p)" and "spc_max_abs_target (sp_cfg p) < 2 ^ 62"
    and "distinct ss" and "foldl (produce_one now) (p, out) ss = (p', out')"
  shows "\<exists>ms. out' = out @ ms \<and> map sm_strategy_id ms = ss \<and> sp_cfg p' = sp_cfg p
    \<and> (\<forall>m \<in> set ms. signal_ok now (sp_cfg p) m \<and> sm_sequence m = map_get 0 (sp_seq p) (sm_strategy_id m))
    \<and> (\<forall>s. map_get 0 (sp_seq p') s = map_get 0 (sp_seq p) s + (if s \<in> set ss then 1 else 0))"
  using assms
proof (induction ss arbitrary: p out)
  case (Cons s ss)
  obtain p1 out1 where one: "produce_one now (p, out) s = (p1, out1)" by (cases "produce_one now (p, out) s")
  from produce_one_spec [OF Cons.prems(1,2) one] obtain m where m: "out1 = out @ [m]"
    "signal_ok now (sp_cfg p) m" "sm_strategy_id m = s" "sm_sequence m = map_get 0 (sp_seq p) s"
    "sp_cfg p1 = sp_cfg p" "sp_seq p1 = (sp_seq p)(s \<mapsto> map_get 0 (sp_seq p) s + 1)" .
  have "\<exists>ms. out' = out1 @ ms \<and> map sm_strategy_id ms = ss \<and> sp_cfg p' = sp_cfg p1
    \<and> (\<forall>m \<in> set ms. signal_ok now (sp_cfg p1) m \<and> sm_sequence m = map_get 0 (sp_seq p1) (sm_strategy_id m))
    \<and> (\<forall>s. map_get 0 (sp_seq p') s = map_get 0 (sp_seq p1) s + (if s \<in> set ss then 1 else 0))"
    using Cons.prems by (intro Cons.IH) (simp_all add: m one)
  then obtain ms where ms: "out' = out1 @ ms" "map sm_strategy_id ms = ss" "sp_cfg p' = sp_cfg p1"
    "\<And>m. m \<in> set ms \<Longrightarrow> signal_ok now (sp_cfg p1) m \<and> sm_sequence m = map_get 0 (sp_seq p1) (sm_strategy_id m)"
    "\<And>s. map_get 0 (sp_seq p') s = map_get 0 (sp_seq p1) s + (if s \<in> set ss then 1 else 0)" by blast
  have "sm_strategy_id x \<noteq> s" if "x \<in> set ms" for x
    using that ms(2) Cons.prems(3) by auto
  then show ?case using ms m Cons.prems(3) by (intro exI [of _ "m # ms"]) auto
qed (simp add: exI [of _ "[]"])


section \<open>Termination\<close>

text \<open>C33: A production cycle fails to return exactly if there is something to produce and 65535
  strategies are configured: the 16-bit loop counter can then never exceed the bound, and the loop
  runs for ever. In every other configuration it returns.\<close>

theorem produce_cycle_returns_iff:
  "produce_cycle now p = None \<longleftrightarrow>
     spc_instruments (sp_cfg p) \<noteq> [] \<and> num_strategies (sp_cfg p) = 0xFFFF"
proof (cases "num_strategies (sp_cfg p) = 0xFFFF")
  case True
  then show ?thesis by (simp add: produce_cycle_def produce_loop_wraps)
next
  case False
  then have "num_strategies (sp_cfg p) < 0xFFFF"
    using u16_bound [of "num_strategies (sp_cfg p)"] unat_inj [of "num_strategies (sp_cfg p)" "0xFFFF"]
    by (simp add: word_less_nat_alt del: unat_inj)
  then show ?thesis using False by (simp add: produce_cycle_fold)
qed

end
