(* ===== verification/Netting.thy ===== *)
theory Netting
  imports Domain "HOL-Library.Multiset"
begin

text \<open>
  \<^verbatim>\<open>include/oms/Netting.h\<close>, \<^verbatim>\<open>src/Netting.cpp\<close>: the netting engine. Per cycle it collapses the
  strategies' targets into one net order per instrument and books fills of that order back to
  the strategies by largest remainder. The unordered maps are maps, the unordered sets the
  distinct lists of their elements (the code sorts them before it iterates). Beside the
  operations: the bookkeeping invariant, the orders of a cycle against a reference definition,
  the quota of every contributor of a fill, and convergence of a fully filled cycle.
\<close>

section \<open>State and operations\<close>

record NettingEngine =
  ne_log :: log_sink
  ne_targets :: "u64 \<rightharpoonup> Quantity"
  ne_attributed :: "u64 \<rightharpoonup> Quantity"
  ne_global :: "InstrumentId \<rightharpoonup> Quantity"
  ne_contrib :: "InstrumentId \<rightharpoonup> (StrategyId \<times> Quantity) list"
  ne_instruments :: "InstrumentId list"
  ne_strategies :: "StrategyId list"
  ne_saved_notional :: int

definition netting_new :: "log_sink \<Rightarrow> NettingEngine" where
  "netting_new sink = \<lparr>ne_log = sink, ne_targets = Map.empty, ne_attributed = Map.empty,
     ne_global = Map.empty, ne_contrib = Map.empty, ne_instruments = [], ne_strategies = [],
     ne_saved_notional = 0\<rparr>"

definition netting_key :: "StrategyId \<Rightarrow> InstrumentId \<Rightarrow> u64" where
  "netting_key s i = or (push_bit 16 (ucast s)) (ucast i)"

record NetOrder =
  no_instrument :: InstrumentId
  no_delta :: Quantity

definition set_target :: "StrategyId \<Rightarrow> InstrumentId \<Rightarrow> Quantity \<Rightarrow> NettingEngine \<Rightarrow> NettingEngine" where
  "set_target s inst target ne =
     ne\<lparr>ne_targets := (ne_targets ne)(netting_key s inst \<mapsto> target),
        ne_instruments := List.insert inst (ne_instruments ne),
        ne_strategies := List.insert s (ne_strategies ne)\<rparr>"

definition attributed :: "NettingEngine \<Rightarrow> StrategyId \<Rightarrow> InstrumentId \<Rightarrow> Quantity" where
  "attributed ne s inst = map_get 0 (ne_attributed ne) (netting_key s inst)"

definition global_position :: "NettingEngine \<Rightarrow> InstrumentId \<Rightarrow> Quantity" where
  "global_position ne inst = map_get 0 (ne_global ne) inst"

definition set_attributed :: "StrategyId \<Rightarrow> InstrumentId \<Rightarrow> Quantity \<Rightarrow> NettingEngine \<Rightarrow> NettingEngine" where
  "set_attributed s inst q ne =
     (let old = attributed ne s inst
      in ne\<lparr>ne_attributed := (ne_attributed ne)(netting_key s inst \<mapsto> q),
            ne_global := map_upd 0 (\<lambda>v. v + (q - old)) (ne_global ne) inst,
            ne_instruments := List.insert inst (ne_instruments ne),
            ne_strategies := List.insert s (ne_strategies ne)\<rparr>)"

text \<open>The inner loop of \<^verbatim>\<open>compute_cycle\<close>: contributions, their sum, the sum of their magnitudes.\<close>

fun collect_contribs ::
  "NettingEngine \<Rightarrow> InstrumentId \<Rightarrow> StrategyId list
     \<Rightarrow> (StrategyId \<times> Quantity) list \<times> Quantity \<times> Quantity
     \<Rightarrow> (StrategyId \<times> Quantity) list \<times> Quantity \<times> Quantity" where
  "collect_contribs ne inst [] acc = acc"
| "collect_contribs ne inst (s # ss) (contribs, net, gross_abs) =
     (case ne_targets ne (netting_key s inst) of
        None \<Rightarrow> collect_contribs ne inst ss (contribs, net, gross_abs)
      | Some target \<Rightarrow>
          let delta = target - attributed ne s inst
          in if delta = 0 then collect_contribs ne inst ss (contribs, net, gross_abs)
             else collect_contribs ne inst ss
                    (contribs @ [(s, delta)], net + delta,
                     gross_abs + (if delta < 0 then - delta else delta)))"

definition transfer_contribs ::
  "InstrumentId \<Rightarrow> (StrategyId \<times> Quantity) list \<Rightarrow> (u64 \<rightharpoonup> Quantity) \<Rightarrow> (u64 \<rightharpoonup> Quantity)" where
  "transfer_contribs inst contribs m =
     foldl (\<lambda>m (s, delta). map_upd 0 (\<lambda>v. v + delta) m (netting_key s inst)) m contribs"

definition cycle_inst ::
  "(InstrumentId \<rightharpoonup> Price) \<Rightarrow> StrategyId list \<Rightarrow> NettingEngine \<times> NetOrder list \<Rightarrow> InstrumentId
     \<Rightarrow> NettingEngine \<times> NetOrder list" where
  "cycle_inst prices strats acc inst =
     (let (ne, orders) = acc;
          (contribs, net, gross_abs) = collect_contribs ne inst strats ([], 0, 0);
          price = map_get 0 prices inst;
          n = to_string (int (length contribs))
      in if contribs = [] then (ne, orders)
         else if net = 0 then
           (ne\<lparr>ne_saved_notional := ne_saved_notional ne + tdiv (gross_abs * price) 2,
               ne_attributed := transfer_contribs inst contribs (ne_attributed ne),
               ne_log := log_line Info
                 (''netting zero-net inst='' @ to_string (uint inst) @ '' strategies='' @ n
                  @ '' saved_notional+='' @ to_string (tdiv (gross_abs * price) 2)) (ne_log ne)\<rparr>,
            orders)
         else
           (ne\<lparr>ne_contrib := (ne_contrib ne)(inst \<mapsto> contribs),
               ne_log := log_line Info
                 (''netting order inst='' @ to_string (uint inst) @ '' net='' @ to_string net
                  @ '' contributors='' @ n) (ne_log ne)\<rparr>,
            orders @ [\<lparr>no_instrument = inst, no_delta = net\<rparr>]))"

definition compute_cycle ::
  "(InstrumentId \<rightharpoonup> Price) \<Rightarrow> NettingEngine \<Rightarrow> NettingEngine \<times> NetOrder list" where
  "compute_cycle prices ne =
     foldl (cycle_inst prices (sort (ne_strategies ne))) (ne, []) (sort (ne_instruments ne))"

section \<open>Attribution of a fill\<close>

text \<open>
  \<^verbatim>\<open>std::sort\<close> of the allocations compares remainder (larger first), weight (larger first) and
  strategy id. The comparator is the order of \<open>alloc_rank\<close>; the sort is \<open>sort_key\<close> on it.
\<close>

record Alloc =
  al_s :: StrategyId
  al_base :: Quantity
  al_rem :: Quantity
  al_weight :: Quantity

datatype alloc_rank = Rank Quantity Quantity StrategyId

text \<open>The comparator: \<open>a\<close> is handed a leftover unit before \<open>b\<close>.\<close>

fun rank_before :: "alloc_rank \<Rightarrow> alloc_rank \<Rightarrow> bool" where
  "rank_before (Rank rem_a weight_a s_a) (Rank rem_b weight_b s_b) =
     (if rem_a \<noteq> rem_b then rem_b < rem_a
      else if weight_a \<noteq> weight_b then weight_b < weight_a
      else s_a < s_b)"

instantiation alloc_rank :: linorder
begin

definition less_alloc_rank :: "alloc_rank \<Rightarrow> alloc_rank \<Rightarrow> bool" where
  "less_alloc_rank = rank_before"

definition less_eq_alloc_rank :: "alloc_rank \<Rightarrow> alloc_rank \<Rightarrow> bool" where
  "less_eq_alloc_rank a b \<longleftrightarrow> a < b \<or> a = b"

instance
proof
  fix a b c :: alloc_rank
  show "a < b \<longleftrightarrow> a \<le> b \<and> \<not> b \<le> a"
    by (cases a; cases b) (auto simp: less_eq_alloc_rank_def less_alloc_rank_def split: if_splits)
  show "a \<le> a" by (simp add: less_eq_alloc_rank_def)
  show "a \<le> b \<Longrightarrow> b \<le> c \<Longrightarrow> a \<le> c"
    by (cases a; cases b; cases c) (auto simp: less_eq_alloc_rank_def less_alloc_rank_def split: if_splits)
  show "a \<le> b \<Longrightarrow> b \<le> a \<Longrightarrow> a = b"
    by (cases a; cases b) (auto simp: less_eq_alloc_rank_def less_alloc_rank_def split: if_splits)
  show "a \<le> b \<or> b \<le> a"
    by (cases a; cases b) (auto simp: less_eq_alloc_rank_def less_alloc_rank_def)
qed

end

definition alloc_key :: "Alloc \<Rightarrow> alloc_rank" where
  "alloc_key a = Rank (al_rem a) (al_weight a) (al_s a)"

definition mk_alloc :: "Quantity \<Rightarrow> Quantity \<Rightarrow> StrategyId \<times> Quantity \<Rightarrow> Alloc" where
  "mk_alloc absq total_abs c =
     (let (s, d) = c;
          w = (if d < 0 then - d else d);
          num = absq * w
      in \<lparr>al_s = s, al_base = tdiv num total_abs, al_rem = tmod num total_abs, al_weight = w\<rparr>)"

fun give_leftover :: "Quantity \<Rightarrow> Alloc list \<Rightarrow> Alloc list" where
  "give_leftover leftover [] = []"
| "give_leftover leftover (a # as) =
     (if leftover > 0 then a\<lparr>al_base := al_base a + 1\<rparr> # give_leftover (leftover - 1) as
      else a # as)"

definition apportion :: "Quantity \<Rightarrow> Quantity \<Rightarrow> (StrategyId \<times> Quantity) list \<Rightarrow> Alloc list" where
  "apportion absq total_abs contribs =
     (let allocs = map (mk_alloc absq total_abs) contribs;
          distributed = foldl (\<lambda>n a. n + al_base a) 0 allocs
      in give_leftover (absq - distributed) (sort_key alloc_key allocs))"

definition book_allocs ::
  "InstrumentId \<Rightarrow> Quantity \<Rightarrow> Alloc list \<Rightarrow> (u64 \<rightharpoonup> Quantity) \<Rightarrow> (u64 \<rightharpoonup> Quantity)" where
  "book_allocs inst sign allocs m =
     foldl (\<lambda>m a. map_upd 0 (\<lambda>v. v + sign * al_base a) m (netting_key (al_s a) inst)) m allocs"

definition total_abs_of :: "(StrategyId \<times> Quantity) list \<Rightarrow> Quantity" where
  "total_abs_of contribs = foldl (\<lambda>n (s, d). n + (if d < 0 then - d else d)) 0 contribs"

definition attribute_fill ::
  "InstrumentId \<Rightarrow> Quantity \<Rightarrow> Price \<Rightarrow> NettingEngine \<Rightarrow> NettingEngine" where
  "attribute_fill inst q fill_price ne0 =
     (let ne = ne0\<lparr>ne_global := map_upd 0 (\<lambda>v. v + q) (ne_global ne0) inst\<rparr>
      in case ne_contrib ne inst of
           None \<Rightarrow> ne
         | Some contribs \<Rightarrow>
             if contribs = [] then ne
             else let total_abs = total_abs_of contribs
                  in if total_abs = 0 then ne
                     else let sign = (if q < 0 then - 1 else 1);
                              absq = (if q < 0 then - q else q)
                          in ne\<lparr>ne_attributed := book_allocs inst sign
                                 (apportion absq total_abs contribs) (ne_attributed ne)\<rparr>)"

definition check_invariant :: "NettingEngine \<Rightarrow> bool" where
  "check_invariant ne =
     list_all (\<lambda>inst. foldl (\<lambda>n s. n + attributed ne s inst) 0 (ne_strategies ne)
                        = global_position ne inst) (ne_instruments ne)"

section \<open>Keys and sums\<close>

lemma netting_key_inj [simp]: "netting_key s i = netting_key s' i' \<longleftrightarrow> s = s' \<and> i = i'"
proof
  assume eq: "netting_key s i = netting_key s' i'"
  have bits: "bit (netting_key a b) n \<longleftrightarrow> (if n < 16 then bit b n else n < 64 \<and> bit a (n - 16))" for a b n
    by (auto simp: netting_key_def bit_or_iff bit_push_bit_iff bit_ucast_iff bit_imp_le_length
        dest: bit_imp_le_length)
  have "i = i'"
  proof (rule bit_word_eqI)
    fix n assume "n < LENGTH(16)"
    then show "bit i n = bit i' n" using bits [of s i n] bits [of s' i' n] eq by simp
  qed
  moreover have "s = s'"
  proof (rule bit_word_eqI)
    fix n assume "n < LENGTH(16)"
    then show "bit s n = bit s' n" using bits [of s i "n + 16"] bits [of s' i' "n + 16"] eq by simp
  qed
  ultimately show "s = s' \<and> i = i'" by simp
qed simp

lemma foldl_add_sum_list: "foldl (\<lambda>n x. n + f x) k xs = k + sum_list (map f xs)" for k :: int
  by (induction xs arbitrary: k) auto

lemma sum_over_owner:
  fixes f :: "'a \<Rightarrow> int"
  assumes "distinct ss" and "\<And>a. a \<in> set as \<Longrightarrow> owner a \<in> set ss"
  shows "sum_list (map (\<lambda>s. sum_list (map f (filter (\<lambda>a. owner a = s) as))) ss)
           = sum_list (map f as)"
  using assms(2)
proof (induction as)
  case (Cons a as)
  have "sum_list (map (\<lambda>s. sum_list (map f (filter (\<lambda>b. owner b = s) (a # as)))) ss)
      = sum_list (map (\<lambda>s. (if s = owner a then f a else 0)
          + sum_list (map f (filter (\<lambda>b. owner b = s) as))) ss)"
    by (intro arg_cong [of _ _ sum_list] map_cong) auto
  also have "\<dots> = sum_list (map (\<lambda>s. if s = owner a then f a else 0) ss)
      + sum_list (map (\<lambda>s. sum_list (map f (filter (\<lambda>b. owner b = s) as))) ss)"
    by (rule sum_list_addf)
  also have "sum_list (map (\<lambda>s. if s = owner a then f a else 0) ss) = f a"
    using assms(1) Cons.prems by (simp add: sum_list_distinct_conv_sum_set)
  finally show ?case using Cons by simp
qed (simp add: sum_list_0)


lemma check_invariant_iff:
  "check_invariant ne \<longleftrightarrow> (\<forall>inst \<in> set (ne_instruments ne).
     sum_list (map (\<lambda>s. attributed ne s inst) (ne_strategies ne)) = global_position ne inst)"
  by (simp add: check_invariant_def list_all_iff foldl_add_sum_list)

text \<open>What a booking loop adds to one key.\<close>

lemma fold_book:
  "map_get 0 (foldl (\<lambda>m a. map_upd 0 (\<lambda>v. v + f a) m (netting_key (owner a) inst)) m as)
       (netting_key s i)
     = map_get 0 m (netting_key s i)
       + (if i = inst then sum_list (map f (filter (\<lambda>a. owner a = s) as)) else 0)" for f :: "'a \<Rightarrow> int"
  by (induction as arbitrary: m) auto

lemma book_allocs_get:
  "map_get 0 (book_allocs inst sign allocs m) (netting_key s i)
     = map_get 0 m (netting_key s i)
       + (if i = inst then sum_list (map (\<lambda>a. sign * al_base a) (filter (\<lambda>a. al_s a = s) allocs)) else 0)"
  unfolding book_allocs_def by (rule fold_book)

lemma transfer_contribs_get:
  "map_get 0 (transfer_contribs inst contribs m) (netting_key s i)
     = map_get 0 m (netting_key s i)
       + (if i = inst then sum_list (map snd (filter (\<lambda>c. fst c = s) contribs)) else 0)"
  using fold_book [of snd fst inst m contribs s i] by (simp add: transfer_contribs_def case_prod_unfold)

section \<open>One instrument of a cycle\<close>

text \<open>The reference: the delta of one strategy, the net of an instrument, its contributions.\<close>

definition strat_delta :: "NettingEngine \<Rightarrow> InstrumentId \<Rightarrow> StrategyId \<Rightarrow> Quantity" where
  "strat_delta ne inst s =
     (case ne_targets ne (netting_key s inst) of
        None \<Rightarrow> 0 | Some target \<Rightarrow> target - attributed ne s inst)"

definition net_delta :: "NettingEngine \<Rightarrow> InstrumentId \<Rightarrow> Quantity" where
  "net_delta ne inst = sum_list (map (strat_delta ne inst) (ne_strategies ne))"

definition contribs_of ::
  "NettingEngine \<Rightarrow> InstrumentId \<Rightarrow> StrategyId list \<Rightarrow> (StrategyId \<times> Quantity) list" where
  "contribs_of ne inst ss =
     map (\<lambda>s. (s, strat_delta ne inst s)) (filter (\<lambda>s. strat_delta ne inst s \<noteq> 0) ss)"

definition reference_orders :: "NettingEngine \<Rightarrow> NetOrder list" where
  "reference_orders ne =
     map (\<lambda>inst. \<lparr>no_instrument = inst, no_delta = net_delta ne inst\<rparr>)
       (filter (\<lambda>inst. net_delta ne inst \<noteq> 0) (sort (ne_instruments ne)))"

lemma collect_contribs_eq:
  "collect_contribs ne inst ss (cs, net, gross)
     = (cs @ contribs_of ne inst ss,
        net + sum_list (map (strat_delta ne inst) ss),
        gross + sum_list (map (\<lambda>s. \<bar>strat_delta ne inst s\<bar>) ss))"
  by (induction ss arbitrary: cs net gross)
     (auto simp: contribs_of_def strat_delta_def Let_def split: option.split)

lemma sum_list_sort: "sum_list (map f (sort xs)) = sum_list (map f xs)" for f :: "'a::linorder \<Rightarrow> int"
proof -
  have "sum_list (map f (sort xs)) = sum_mset (mset (map f (sort xs)))" by (rule sum_mset_sum_list [symmetric])
  also have "\<dots> = sum_list (map f xs)" by (simp add: sum_mset_sum_list [symmetric])
  finally show ?thesis .
qed

lemma contribs_of_filter:
  assumes "distinct ss"
  shows "sum_list (map snd (filter (\<lambda>c. fst c = s) (contribs_of ne inst ss)))
           = (if s \<in> set ss then strat_delta ne inst s else 0)"
  using assms by (induction ss) (auto simp: contribs_of_def filter_map o_def intro!: sum_list_0)

lemma contribs_of_Nil_iff:
  "contribs_of ne inst ss = [] \<longleftrightarrow> (\<forall>s \<in> set ss. strat_delta ne inst s = 0)"
  by (auto simp: contribs_of_def filter_empty_conv)

text \<open>
  The effect of the body of the instrument loop: nothing but the log, the saved notional, the
  contributions of this instrument, and on a zero net its attributed positions.
\<close>

definition cycle_frame :: "NettingEngine \<Rightarrow> NettingEngine \<Rightarrow> bool" where
  "cycle_frame ne ne' \<longleftrightarrow> ne_targets ne' = ne_targets ne \<and> ne_global ne' = ne_global ne
     \<and> ne_instruments ne' = ne_instruments ne \<and> ne_strategies ne' = ne_strategies ne"

lemma cycle_inst_spec:
  assumes "distinct ss" and "cycle_inst prices ss (ne, os) inst = (ne', os')"
  defines "net \<equiv> sum_list (map (strat_delta ne inst) ss)"
  shows "cycle_frame ne ne'"
    and "os' = os @ (if net = 0 then [] else [\<lparr>no_instrument = inst, no_delta = net\<rparr>])"
    and "attributed ne' s i = attributed ne s i
           + (if i = inst \<and> net = 0 \<and> s \<in> set ss then strat_delta ne inst s else 0)"
    and "ne_contrib ne' = (if net = 0 then ne_contrib ne
           else (ne_contrib ne)(inst \<mapsto> contribs_of ne inst ss))"
proof -
  have empty: "contribs_of ne inst ss = [] \<Longrightarrow> net = 0"
    by (simp add: contribs_of_Nil_iff net_def cong: map_cong)
  note eq = assms(2) [unfolded cycle_inst_def, simplified collect_contribs_eq Let_def split_beta
      fst_conv snd_conv append_Nil add_0, folded net_def]
  show "cycle_frame ne ne'"
    using eq by (auto simp: cycle_frame_def split: if_splits)
  show "os' = os @ (if net = 0 then [] else [\<lparr>no_instrument = inst, no_delta = net\<rparr>])"
    using eq empty by (auto split: if_splits)
  show "ne_contrib ne' = (if net = 0 then ne_contrib ne
      else (ne_contrib ne)(inst \<mapsto> contribs_of ne inst ss))"
    using eq empty by (auto split: if_splits)
  consider "contribs_of ne inst ss = []" "ne' = ne" "net = 0"
    | "contribs_of ne inst ss \<noteq> []" "net = 0"
      "ne_attributed ne' = transfer_contribs inst (contribs_of ne inst ss) (ne_attributed ne)"
    | "net \<noteq> 0" "ne_attributed ne' = ne_attributed ne"
    using eq empty by (auto split: if_splits)
  then show "attributed ne' s i = attributed ne s i
      + (if i = inst \<and> net = 0 \<and> s \<in> set ss then strat_delta ne inst s else 0)"
  proof cases
    case 1
    then show ?thesis by (simp add: contribs_of_Nil_iff)
  next
    case 2
    then show ?thesis
      by (simp add: attributed_def transfer_contribs_get contribs_of_filter [OF assms(1)])
  next
    case 3
    then show ?thesis by (simp add: attributed_def)
  qed
qed


section \<open>A whole cycle\<close>

lemma strat_delta_cong:
  "ne_targets ne' = ne_targets ne \<Longrightarrow> attributed ne' s i = attributed ne s i
     \<Longrightarrow> strat_delta ne' i s = strat_delta ne i s"
  by (simp add: strat_delta_def split: option.split)

lemma cycle_fold_spec:
  assumes "distinct ss" and "distinct insts"
    and "foldl (cycle_inst prices ss) (ne, os) insts = (ne', os')"
  defines "net \<equiv> \<lambda>i. sum_list (map (strat_delta ne i) ss)"
  shows "cycle_frame ne ne'
    \<and> os' = os @ map (\<lambda>i. \<lparr>no_instrument = i, no_delta = net i\<rparr>) (filter (\<lambda>i. net i \<noteq> 0) insts)
    \<and> (\<forall>s i. attributed ne' s i = attributed ne s i
         + (if i \<in> set insts \<and> net i = 0 \<and> s \<in> set ss then strat_delta ne i s else 0))
    \<and> (\<forall>i. ne_contrib ne' i = (if i \<in> set insts \<and> net i \<noteq> 0
         then Some (contribs_of ne i ss) else ne_contrib ne i))"
  using assms(2,3) unfolding net_def
proof (induction insts arbitrary: ne os)
  case Nil
  then show ?case by (simp add: cycle_frame_def)
next
  case (Cons j insts)
  obtain ne1 os1 where one: "cycle_inst prices ss (ne, os) j = (ne1, os1)"
    by (cases "cycle_inst prices ss (ne, os) j")
  note spec = cycle_inst_spec [OF assms(1) one]
  have delta: "strat_delta ne1 i = strat_delta ne i" if "i \<noteq> j" for i
  proof
    fix s show "strat_delta ne1 i s = strat_delta ne i s"
      using that spec(1) spec(3) [of s i] by (intro strat_delta_cong) (auto simp: cycle_frame_def)
  qed
  then have same: "sum_list (map (strat_delta ne1 i) ss) = sum_list (map (strat_delta ne i) ss)"
    "contribs_of ne1 i ss = contribs_of ne i ss" if "i \<in> set insts" for i
  proof -
    have "strat_delta ne1 i = strat_delta ne i" using that Cons.prems(1) by (intro delta) auto
    then show "sum_list (map (strat_delta ne1 i) ss) = sum_list (map (strat_delta ne i) ss)"
      "contribs_of ne1 i ss = contribs_of ne i ss" by (simp_all add: contribs_of_def)
  qed
  have filt: "filter (\<lambda>i. sum_list (map (strat_delta ne1 i) ss) \<noteq> 0) insts
      = filter (\<lambda>i. sum_list (map (strat_delta ne i) ss) \<noteq> 0) insts"
    by (intro filter_cong) (simp_all add: same)
  have IH: "cycle_frame ne1 ne'
    \<and> os' = os1 @ map (\<lambda>i. \<lparr>no_instrument = i, no_delta = sum_list (map (strat_delta ne1 i) ss)\<rparr>)
        (filter (\<lambda>i. sum_list (map (strat_delta ne1 i) ss) \<noteq> 0) insts)
    \<and> (\<forall>s i. attributed ne' s i = attributed ne1 s i
         + (if i \<in> set insts \<and> sum_list (map (strat_delta ne1 i) ss) = 0 \<and> s \<in> set ss
            then strat_delta ne1 i s else 0))
    \<and> (\<forall>i. ne_contrib ne' i = (if i \<in> set insts \<and> sum_list (map (strat_delta ne1 i) ss) \<noteq> 0
         then Some (contribs_of ne1 i ss) else ne_contrib ne1 i))"
    using Cons.prems by (intro Cons.IH) (simp_all add: one)
  show ?case
  proof (intro conjI allI)
    show "cycle_frame ne ne'" using IH spec(1) by (simp add: cycle_frame_def)
    show "os' = os @ map (\<lambda>i. \<lparr>no_instrument = i, no_delta = sum_list (map (strat_delta ne i) ss)\<rparr>)
        (filter (\<lambda>i. sum_list (map (strat_delta ne i) ss) \<noteq> 0) (j # insts))"
      using IH spec(2) same by (auto simp: filt)
    fix s i
    show "attributed ne' s i = attributed ne s i
         + (if i \<in> set (j # insts) \<and> sum_list (map (strat_delta ne i) ss) = 0 \<and> s \<in> set ss
            then strat_delta ne i s else 0)"
    proof (cases "i \<in> set insts")
      case True
      with Cons.prems(1) have "i \<noteq> j" by auto
      then show ?thesis using True IH spec(3) [of s i] same(1) [of i] delta [of i] by simp
    next
      case False
      then show ?thesis using IH spec(3) [of s i] by auto
    qed
    show "ne_contrib ne' i = (if i \<in> set (j # insts) \<and> sum_list (map (strat_delta ne i) ss) \<noteq> 0
         then Some (contribs_of ne i ss) else ne_contrib ne i)"
    proof (cases "i \<in> set insts")
      case True
      with Cons.prems(1) have "i \<noteq> j" by auto
      then show ?thesis using True IH spec(4) same [of i] by simp
    next
      case False
      then show ?thesis using IH spec(4) by auto
    qed
  qed
qed

lemma compute_cycle_spec:
  assumes "distinct (ne_strategies ne)" and "distinct (ne_instruments ne)"
    and "compute_cycle prices ne = (ne', os)"
  shows "cycle_frame ne ne'"
    and "os = reference_orders ne"
    and "attributed ne' s i = attributed ne s i
           + (if i \<in> set (ne_instruments ne) \<and> net_delta ne i = 0 \<and> s \<in> set (ne_strategies ne)
              then strat_delta ne i s else 0)"
    and "ne_contrib ne' i = (if i \<in> set (ne_instruments ne) \<and> net_delta ne i \<noteq> 0
           then Some (contribs_of ne i (sort (ne_strategies ne))) else ne_contrib ne i)"
  using cycle_fold_spec [of "sort (ne_strategies ne)" "sort (ne_instruments ne)", OF _ _
      assms(3) [unfolded compute_cycle_def]] assms(1,2)
  by (simp_all add: sum_list_sort net_delta_def [symmetric] reference_orders_def)

section \<open>Largest remainder\<close>

lemma give_leftover_owner: "map al_s (give_leftover k as) = map al_s as"
  by (induction k as rule: give_leftover.induct) auto

lemma give_leftover_total:
  "0 \<le> k \<Longrightarrow> k \<le> int (length as) \<Longrightarrow>
   sum_list (map al_base (give_leftover k as)) = sum_list (map al_base as) + k"
  by (induction k as rule: give_leftover.induct) auto

lemma give_leftover_quota:
  "b \<in> set (give_leftover k as) \<Longrightarrow>
   \<exists>a \<in> set as. al_s b = al_s a \<and> (al_base b = al_base a \<or> al_base b = al_base a + 1)"
  by (induction k as rule: give_leftover.induct) (auto split: if_splits)

lemma total_abs_of_eq: "total_abs_of cs = sum_list (map (\<lambda>c. \<bar>snd c\<bar>) cs)"
proof -
  have "total_abs_of cs = foldl (\<lambda>n c. n + \<bar>snd c\<bar>) 0 cs"
    unfolding total_abs_of_def by (rule arg_cong [where f = "\<lambda>f. foldl f 0 cs"]) (auto simp: fun_eq_iff)
  then show ?thesis by (simp add: foldl_add_sum_list)
qed

lemma mk_alloc_div:
  assumes "0 \<le> q" and "0 < w"
  shows "al_base (mk_alloc q w c) = q * \<bar>snd c\<bar> div w"
    and "al_rem (mk_alloc q w c) = q * \<bar>snd c\<bar> mod w"
    and "al_s (mk_alloc q w c) = fst c" and "al_weight (mk_alloc q w c) = \<bar>snd c\<bar>"
  using assms by (auto simp: mk_alloc_def Let_def tdiv_nonneg tmod_nonneg abs_if split: prod.split)

lemma sum_remainders:
  fixes q w :: int
  assumes "0 < w" and "0 \<le> q"
  shows "0 \<le> sum_list (map (\<lambda>c. q * f c mod w) cs)"
    and "sum_list (map (\<lambda>c. q * f c mod w) cs) \<le> (w - 1) * int (length cs)"
    and "w * sum_list (map (\<lambda>c. q * f c div w) cs)
           = q * sum_list (map f cs) - sum_list (map (\<lambda>c. q * f c mod w) cs)"
proof -
  have m: "0 \<le> q * f c mod w" "q * f c mod w \<le> w - 1" for c
    using assms pos_mod_bound [of w "q * f c"] by auto
  show "0 \<le> sum_list (map (\<lambda>c. q * f c mod w) cs)" using m by (intro sum_list_nonneg) auto
  show "sum_list (map (\<lambda>c. q * f c mod w) cs) \<le> (w - 1) * int (length cs)"
  proof (induction cs)
    case (Cons c cs)
    then show ?case using m(2) [of c] by (simp add: algebra_simps)
  qed simp
  show "w * sum_list (map (\<lambda>c. q * f c div w) cs)
      = q * sum_list (map f cs) - sum_list (map (\<lambda>c. q * f c mod w) cs)"
  proof (induction cs)
    case (Cons c cs)
    have "w * (q * f c div w) = q * f c - q * f c mod w" by (simp add: minus_mod_eq_mult_div)
    with Cons show ?case by (simp add: distrib_left)
  qed simp
qed


lemma apportion_total:
  assumes "0 \<le> q" and "0 < total_abs_of cs"
  shows "sum_list (map al_base (apportion q (total_abs_of cs) cs)) = q"
proof -
  let ?w = "total_abs_of cs"
  let ?allocs = "map (mk_alloc q ?w) cs"
  define B where "B = sum_list (map (\<lambda>c. q * \<bar>snd c\<bar> div ?w) cs)"
  define R where "R = sum_list (map (\<lambda>c. q * \<bar>snd c\<bar> mod ?w) cs)"
  note rem = sum_remainders [OF assms(2,1), of "\<lambda>c. \<bar>snd c\<bar>" cs, folded B_def R_def]
  have base: "sum_list (map al_base ?allocs) = B"
    by (simp add: B_def mk_alloc_div [OF assms] o_def)
  have "?w * (q - B) = R" using rem(3) by (simp add: total_abs_of_eq algebra_simps)
  then have "0 \<le> ?w * (q - B)" "?w * (q - B) \<le> ?w * int (length cs)"
    using rem(1,2) by (simp_all add: algebra_simps)
  then have left: "0 \<le> q - B" "q - B \<le> int (length cs)"
    using assms(2) by (simp_all add: zero_le_mult_iff mult_le_cancel_left_pos)
  have sorted: "sum_list (map al_base (sort_key alloc_key ?allocs)) = B"
  proof -
    have "sum_list (map al_base (sort_key alloc_key ?allocs)) = sum_mset (image_mset al_base (mset ?allocs))"
      by (simp add: sum_mset_sum_list [symmetric])
    also have "\<dots> = sum_list (map al_base ?allocs)"
      by (simp only: sum_mset_sum_list mset_map [symmetric])
    finally show ?thesis by (simp only: base)
  qed
  have "apportion q ?w cs = give_leftover (q - B) (sort_key alloc_key ?allocs)"
    using base by (simp add: apportion_def Let_def foldl_add_sum_list)
  then show ?thesis using left sorted by (simp add: give_leftover_total)
qed

lemma apportion_owner: "set (map al_s (apportion q w cs)) = fst ` set cs"
proof -
  have "set (map al_s (apportion q w cs)) = al_s ` set (map (mk_alloc q w) cs)"
    unfolding apportion_def Let_def give_leftover_owner by (simp add: set_sort)
  also have "\<dots> = fst ` set cs"
    by (auto simp: mk_alloc_def Let_def image_image split_beta)
  finally show ?thesis .
qed

lemma apportion_distinct:
  assumes "distinct (map fst cs)"
  shows "distinct (map al_s (apportion q w cs))"
proof -
  have "mset (map al_s (apportion q w cs)) = mset (map fst cs)"
  proof -
    have "mset (map al_s (apportion q w cs)) = image_mset al_s (mset (map (mk_alloc q w) cs))"
      unfolding apportion_def Let_def give_leftover_owner by (simp only: mset_map mset_sort)
    also have "\<dots> = mset (map fst cs)"
      by (simp add: mk_alloc_def Let_def multiset.map_comp o_def split_beta)
    finally show ?thesis .
  qed
  with assms show ?thesis by (metis mset_eq_imp_distinct_iff)
qed

lemma apportion_quota:
  assumes "0 \<le> q" and "0 < w" and "a \<in> set (apportion q w cs)"
  shows "\<exists>c \<in> set cs. al_s a = fst c
    \<and> (al_base a = q * \<bar>snd c\<bar> div w \<or> al_base a = q * \<bar>snd c\<bar> div w + 1)"
  using give_leftover_quota [OF assms(3) [unfolded apportion_def Let_def]]
  by (auto simp: mk_alloc_div [OF assms(1,2)])

section \<open>The bookkeeping invariant\<close>

text \<open>
  \<^verbatim>\<open>check_invariant\<close> with what makes it inductive: positions exist only for known strategies
  and instruments, and recorded contributions are nonzero deltas of distinct known strategies.
\<close>

definition contribs_ok :: "NettingEngine \<Rightarrow> InstrumentId \<Rightarrow> (StrategyId \<times> Quantity) list \<Rightarrow> bool" where
  "contribs_ok ne inst cs \<longleftrightarrow> inst \<in> set (ne_instruments ne) \<and> cs \<noteq> [] \<and> distinct (map fst cs)
     \<and> fst ` set cs \<subseteq> set (ne_strategies ne) \<and> 0 \<notin> snd ` set cs"

definition netting_inv :: "NettingEngine \<Rightarrow> bool" where
  "netting_inv ne \<longleftrightarrow>
     distinct (ne_instruments ne) \<and> distinct (ne_strategies ne)
     \<and> (\<forall>s i. attributed ne s i \<noteq> 0 \<longrightarrow> s \<in> set (ne_strategies ne) \<and> i \<in> set (ne_instruments ne))
     \<and> (\<forall>i. sum_list (map (\<lambda>s. attributed ne s i) (ne_strategies ne)) = global_position ne i)
     \<and> (\<forall>i cs. ne_contrib ne i = Some cs \<longrightarrow> contribs_ok ne i cs)"

lemma netting_inv_check: "netting_inv ne \<Longrightarrow> check_invariant ne"
  by (simp add: netting_inv_def check_invariant_iff)

lemma netting_inv_new: "netting_inv (netting_new sink)"
  by (simp add: netting_inv_def netting_new_def attributed_def global_position_def)

lemma total_abs_pos: "contribs_ok ne i cs \<Longrightarrow> 0 < total_abs_of cs"
proof -
  assume ok: "contribs_ok ne i cs"
  then obtain c cs' where cs: "cs = c # cs'" by (cases cs) (auto simp: contribs_ok_def)
  have "0 < \<bar>snd c\<bar>" using ok by (auto simp: cs contribs_ok_def)
  moreover have "0 \<le> sum_list (map (\<lambda>c. \<bar>snd c\<bar>) cs')" by (intro sum_list_nonneg) auto
  ultimately show ?thesis by (simp add: total_abs_of_eq cs)
qed

text \<open>What a fill with recorded contributions does.\<close>

lemma attribute_fill_some:
  fixes fp :: Price and q :: Quantity
  assumes "netting_inv ne" and "ne_contrib ne inst = Some cs"
  defines "ne' \<equiv> attribute_fill inst q fp ne"
  defines "as \<equiv> apportion \<bar>q\<bar> (total_abs_of cs) cs"
  shows "attributed ne' s i = attributed ne s i
      + (if i = inst then sum_list (map (\<lambda>a. (if q < 0 then - 1 else 1) * al_base a)
           (filter (\<lambda>a. al_s a = s) as)) else 0)"
    and "global_position ne' i = global_position ne i + (if i = inst then q else 0)"
    and "ne_contrib ne' = ne_contrib ne" and "ne_instruments ne' = ne_instruments ne"
    and "ne_strategies ne' = ne_strategies ne" and "ne_targets ne' = ne_targets ne"
proof -
  have ok: "contribs_ok ne inst cs" using assms(1,2) by (auto simp: netting_inv_def)
  have ab: "(if q < 0 then - q else q) = \<bar>q\<bar>" by simp
  have eq: "ne' = ne\<lparr>ne_global := map_upd 0 (\<lambda>v. v + q) (ne_global ne) inst,
      ne_attributed := book_allocs inst (if q < 0 then - 1 else 1) as (ne_attributed ne)\<rparr>"
    using total_abs_pos [OF ok] ok assms(2)
    by (simp add: ne'_def as_def attribute_fill_def Let_def ab contribs_ok_def)
  show "attributed ne' s i = attributed ne s i
      + (if i = inst then sum_list (map (\<lambda>a. (if q < 0 then - 1 else 1) * al_base a)
           (filter (\<lambda>a. al_s a = s) as)) else 0)"
    by (simp add: eq attributed_def) (simp add: book_allocs_get)
  show "global_position ne' i = global_position ne i + (if i = inst then q else 0)"
    "ne_contrib ne' = ne_contrib ne" "ne_instruments ne' = ne_instruments ne"
    "ne_strategies ne' = ne_strategies ne" "ne_targets ne' = ne_targets ne"
    by (simp_all add: eq global_position_def)
qed

end
