(* ===== verification/NettingProps.thy ===== *)
theory NettingProps
  imports Netting
begin

text \<open>
  The netting engine's properties: its bookkeeping invariant over every operation, the orders
  of a cycle, the attribution of a fill and the convergence of a fully filled cycle; and the
  example state on which the witnesses run.
\<close>

section \<open>Preservation of the invariant\<close>

lemma in_List_insert [simp]: "x \<in> set (List.insert y xs) \<longleftrightarrow> x = y \<or> x \<in> set xs"
  by (simp add: List.insert_def) auto

lemma sum_list_insert:
  "(x \<notin> set xs \<Longrightarrow> f x = 0) \<Longrightarrow> sum_list (map f (List.insert x xs)) = sum_list (map f xs)"
  for f :: "'a \<Rightarrow> int"
  by (simp add: List.insert_def)

lemma sum_list_update:
  fixes f g :: "'a \<Rightarrow> int"
  assumes "distinct xs" and "\<And>y. y \<noteq> x \<Longrightarrow> g y = f y"
  shows "sum_list (map g xs) = sum_list (map f xs) + (if x \<in> set xs then g x - f x else 0)"
  using assms(1)
proof (induction xs)
  case (Cons a xs)
  then show ?case using assms(2) [of a] by (cases "a = x") auto
qed simp

lemma contribs_ok_mono:
  "contribs_ok ne i cs \<Longrightarrow> set (ne_instruments ne) \<subseteq> set (ne_instruments ne')
     \<Longrightarrow> set (ne_strategies ne) \<subseteq> set (ne_strategies ne') \<Longrightarrow> contribs_ok ne' i cs"
  by (auto simp: contribs_ok_def)

lemma set_target_inv:
  assumes "netting_inv ne"
  shows "netting_inv (set_target s inst target ne)"
proof -
  let ?ne = "set_target s inst target ne"
  have att: "attributed ?ne = attributed ne" by (simp add: fun_eq_iff attributed_def set_target_def)
  have glob: "global_position ?ne = global_position ne"
    by (simp add: fun_eq_iff global_position_def set_target_def)
  have sub: "set (ne_instruments ne) \<subseteq> set (ne_instruments ?ne)"
    "set (ne_strategies ne) \<subseteq> set (ne_strategies ?ne)" by (auto simp: set_target_def)
  have sums: "sum_list (map (\<lambda>s. attributed ne s i) (ne_strategies ?ne))
      = sum_list (map (\<lambda>s. attributed ne s i) (ne_strategies ne))" for i
  proof -
    have "attributed ne s i = 0" if "s \<notin> set (ne_strategies ne)"
      using that assms by (auto simp: netting_inv_def)
    then show ?thesis by (simp add: set_target_def sum_list_insert)
  qed
  have con: "ne_contrib ?ne = ne_contrib ne" by (simp add: set_target_def)
  have dist: "distinct (ne_instruments ?ne)" "distinct (ne_strategies ?ne)"
    using assms by (simp_all add: set_target_def netting_inv_def)
  from assms show ?thesis
    unfolding netting_inv_def [of ?ne] att glob con sums using dist sub contribs_ok_mono [OF _ sub]
    by (simp add: netting_inv_def) blast
qed

lemma set_attributed_inv:
  assumes "netting_inv ne"
  shows "netting_inv (set_attributed s inst q ne)"
proof -
  let ?ne = "set_attributed s inst q ne"
  have att: "attributed ?ne t i = (if t = s \<and> i = inst then q else attributed ne t i)" for t i
    by (simp add: attributed_def set_attributed_def Let_def)
  have glob: "global_position ?ne i
      = global_position ne i + (if i = inst then q - attributed ne s inst else 0)" for i
    by (simp add: global_position_def set_attributed_def Let_def)
  have sub: "set (ne_instruments ne) \<subseteq> set (ne_instruments ?ne)"
    "set (ne_strategies ne) \<subseteq> set (ne_strategies ?ne)" by (auto simp: set_attributed_def Let_def)
  have strats: "ne_strategies ?ne = List.insert s (ne_strategies ne)"
    by (simp add: set_attributed_def Let_def)
  have insts: "ne_instruments ?ne = List.insert inst (ne_instruments ne)"
    by (simp add: set_attributed_def Let_def)
  have dist: "distinct (List.insert s (ne_strategies ne))" using assms by (simp add: netting_inv_def)
  have sums: "sum_list (map (\<lambda>t. attributed ?ne t i) (ne_strategies ?ne)) = global_position ?ne i" for i
  proof -
    have "sum_list (map (\<lambda>t. attributed ?ne t i) (ne_strategies ?ne))
        = sum_list (map (\<lambda>t. attributed ne t i) (List.insert s (ne_strategies ne)))
          + (if i = inst then q - attributed ne s inst else 0)"
      unfolding strats by (subst sum_list_update [OF dist, where x = s and f = "\<lambda>t. attributed ne t i"])
        (auto simp: att)
    also have "sum_list (map (\<lambda>t. attributed ne t i) (List.insert s (ne_strategies ne)))
        = sum_list (map (\<lambda>t. attributed ne t i) (ne_strategies ne))"
      using assms by (intro sum_list_insert) (auto simp: netting_inv_def)
    finally show ?thesis using assms by (simp add: glob netting_inv_def)
  qed
  have con: "ne_contrib ?ne = ne_contrib ne" by (simp add: set_attributed_def Let_def)
  have known: "attributed ?ne t i \<noteq> 0 \<Longrightarrow> t \<in> set (ne_strategies ?ne) \<and> i \<in> set (ne_instruments ?ne)" for t i
    using assms sub by (fastforce simp: att strats insts netting_inv_def split: if_splits)
  have "distinct (ne_instruments ?ne)" "distinct (ne_strategies ?ne)"
    using assms by (simp_all add: set_attributed_def Let_def netting_inv_def)
  moreover have "contribs_ok ?ne i cs" if "ne_contrib ?ne i = Some cs" for i cs
    using that assms con contribs_ok_mono [OF _ sub] by (auto simp: netting_inv_def)
  ultimately show ?thesis using sums known unfolding netting_inv_def by blast
qed

lemma contribs_of_ok:
  assumes "netting_inv ne" and "i \<in> set (ne_instruments ne)" and "net_delta ne i \<noteq> 0"
  shows "contribs_ok ne i (contribs_of ne i (sort (ne_strategies ne)))"
proof -
  have "contribs_of ne i (sort (ne_strategies ne)) \<noteq> []"
  proof
    assume "contribs_of ne i (sort (ne_strategies ne)) = []"
    then have "net_delta ne i = 0" by (simp add: contribs_of_Nil_iff net_delta_def cong: map_cong)
    with assms(3) show False by simp
  qed
  moreover have "map fst (contribs_of ne i (sort (ne_strategies ne)))
      = filter (\<lambda>s. strat_delta ne i s \<noteq> 0) (sort (ne_strategies ne))"
    by (simp add: contribs_of_def o_def)
  ultimately show ?thesis using assms(1,2)
    by (auto simp: contribs_ok_def contribs_of_def netting_inv_def)
qed

lemma sum_map_add: "sum_list (map (\<lambda>x. f x + g x) xs) = sum_list (map f xs) + sum_list (map g xs)"
  for f g :: "'a \<Rightarrow> int"
  by (rule sum_list_addf)

lemma sum_map_if: "sum_list (map (\<lambda>x. if P then f x else 0) xs) = (if P then sum_list (map f xs) else 0)"
  for f :: "'a \<Rightarrow> int"
  by simp

lemma compute_cycle_inv:
  assumes inv: "netting_inv ne" and eq: "compute_cycle prices ne = (ne', os)"
  shows "netting_inv ne'"
proof -
  have d: "distinct (ne_strategies ne)" "distinct (ne_instruments ne)"
    using inv by (auto simp: netting_inv_def)
  note spec = compute_cycle_spec [OF d eq]
  have fr: "ne_strategies ne' = ne_strategies ne" "ne_instruments ne' = ne_instruments ne"
    "global_position ne' = global_position ne"
    using spec(1) by (simp_all add: cycle_frame_def global_position_def [abs_def])
  have ok: "contribs_ok ne' i cs \<longleftrightarrow> contribs_ok ne i cs" for i cs
    by (simp add: contribs_ok_def fr)
  have sums: "sum_list (map (\<lambda>s. attributed ne' s i) (ne_strategies ne)) = global_position ne i" for i
  proof -
    have "sum_list (map (\<lambda>s. attributed ne' s i) (ne_strategies ne))
      = sum_list (map (\<lambda>s. attributed ne s i
          + (if i \<in> set (ne_instruments ne) \<and> net_delta ne i = 0 then strat_delta ne i s else 0))
          (ne_strategies ne))"
      by (intro arg_cong [of _ _ sum_list] map_cong) (simp_all add: spec(3))
    also have "\<dots> = global_position ne i"
      using inv by (simp add: sum_map_add sum_map_if netting_inv_def net_delta_def)
    finally show ?thesis .
  qed
  have "contribs_ok ne i cs" if "ne_contrib ne' i = Some cs" for i cs
    using that spec(4) [of i] inv contribs_of_ok [OF inv, of i]
    by (auto simp: netting_inv_def split: if_splits)
  then show ?thesis
    unfolding netting_inv_def ok fr sums using d spec(3) inv
    by (auto simp: netting_inv_def split: if_splits)
qed

lemma attribute_fill_inv:
  assumes inv: "netting_inv ne" and some: "ne_contrib ne inst = Some cs"
  shows "netting_inv (attribute_fill inst q fp ne)"
proof -
  let ?ne = "attribute_fill inst q fp ne"
  let ?as = "apportion \<bar>q\<bar> (total_abs_of cs) cs"
  let ?sg = "if q < 0 then - 1 else 1 :: int"
  note F = attribute_fill_some [OF inv some, of q fp]
  have ok: "contribs_ok ne inst cs" using inv some by (auto simp: netting_inv_def)
  have owners: "al_s a \<in> set (ne_strategies ne)" if "a \<in> set ?as" for a
    using that apportion_owner [of "\<bar>q\<bar>" "total_abs_of cs" cs] ok by (auto simp: contribs_ok_def)
  have q: "sum_list (map (\<lambda>a. ?sg * al_base a) ?as) = q"
    using apportion_total [OF abs_ge_zero total_abs_pos [OF ok], of q]
    by (simp add: sum_list_const_mult abs_if split: if_splits)
  have d: "distinct (ne_strategies ne)" using inv by (simp add: netting_inv_def)
  have sums: "sum_list (map (\<lambda>s. attributed ?ne s i) (ne_strategies ne)) = global_position ?ne i" for i
  proof (cases "i = inst")
    case True
    then show ?thesis
      using inv owners sum_over_owner [OF d, where as = ?as and owner = al_s and f = "\<lambda>a. ?sg * al_base a"] q
      by (simp add: F sum_map_add netting_inv_def)
  next
    case False
    then show ?thesis using inv by (simp add: F netting_inv_def)
  qed
  have known: "s \<in> set (ne_strategies ne) \<and> i \<in> set (ne_instruments ne)" if "attributed ?ne s i \<noteq> 0" for s i
  proof (cases "attributed ne s i = 0")
    case True
    with that have i: "i = inst" and "filter (\<lambda>a. al_s a = s) ?as \<noteq> []"
      by (auto simp: F(1) split: if_splits)
    then show ?thesis using owners ok by (auto simp: filter_empty_conv contribs_ok_def)
  qed (use inv in \<open>auto simp: netting_inv_def\<close>)
  have "contribs_ok ?ne = contribs_ok ne" by (simp add: contribs_ok_def F fun_eq_iff)
  then show ?thesis using inv sums known unfolding netting_inv_def F(3-5) by auto
qed


section \<open>Fills between cycles\<close>

lemma fill_deltas:
  assumes inv: "netting_inv ne" and eq: "compute_cycle prices ne = (ne1, os)"
    and i: "inst \<in> set (ne_instruments ne)" "net_delta ne inst \<noteq> 0"
  shows "ne_contrib ne1 inst = Some (contribs_of ne inst (sort (ne_strategies ne)))"
    and "net_delta (attribute_fill inst q fp ne1) inst = net_delta ne inst - q"
    and "ne_targets (attribute_fill inst q fp ne1) = ne_targets ne"
    and "ne_strategies (attribute_fill inst q fp ne1) = ne_strategies ne"
proof -
  have d: "distinct (ne_strategies ne)" "distinct (ne_instruments ne)"
    using inv by (auto simp: netting_inv_def)
  note spec = compute_cycle_spec [OF d eq]
  let ?cs = "contribs_of ne inst (sort (ne_strategies ne))"
  let ?as = "apportion \<bar>q\<bar> (total_abs_of ?cs) ?cs"
  let ?sg = "if q < 0 then - 1 else 1 :: int"
  let ?x = "\<lambda>s. sum_list (map (\<lambda>a. ?sg * al_base a) (filter (\<lambda>a. al_s a = s) ?as))"
  show some: "ne_contrib ne1 inst = Some ?cs" using spec(4) [of inst] i by simp
  note inv1 = compute_cycle_inv [OF inv eq]
  note F = attribute_fill_some [OF inv1 some, of q fp]
  show tg: "ne_targets (attribute_fill inst q fp ne1) = ne_targets ne"
    and st: "ne_strategies (attribute_fill inst q fp ne1) = ne_strategies ne"
    using spec(1) by (simp_all add: F cycle_frame_def)
  have own: "set (map al_s ?as) = {s \<in> set (ne_strategies ne). strat_delta ne inst s \<noteq> 0}"
    unfolding apportion_owner by (auto simp: contribs_of_def image_image)
  have att: "attributed (attribute_fill inst q fp ne1) s inst = attributed ne s inst + ?x s" for s
    using spec(3) [of s inst] i by (simp add: F(1))
  have "strat_delta (attribute_fill inst q fp ne1) inst s = strat_delta ne inst s - ?x s" for s
  proof (cases "ne_targets ne (netting_key s inst)")
    case None
    then have "s \<notin> set (map al_s ?as)" unfolding own by (simp add: strat_delta_def)
    then have "filter (\<lambda>a. al_s a = s) ?as = []" by (auto simp: filter_empty_conv)
    then show ?thesis using None by (simp add: strat_delta_def tg)
  next
    case (Some t)
    then show ?thesis by (simp add: strat_delta_def tg att)
  qed
  then have delta: "strat_delta (attribute_fill inst q fp ne1) inst = (\<lambda>s. strat_delta ne inst s - ?x s)"
    by (rule ext)
  have "net_delta (attribute_fill inst q fp ne1) inst
      = net_delta ne inst - sum_list (map ?x (ne_strategies ne))"
    by (simp only: net_delta_def st delta sum_list_subtractf)
  also have "sum_list (map ?x (ne_strategies ne)) = sum_list (map (\<lambda>a. ?sg * al_base a) ?as)"
    using own by (intro sum_over_owner d) auto
  also have "\<dots> = q"
    using apportion_total [OF abs_ge_zero total_abs_pos, of ne inst ?cs q] contribs_of_ok [OF inv i]
    by (simp add: sum_list_const_mult abs_if split: if_splits)
  finally show "net_delta (attribute_fill inst q fp ne1) inst = net_delta ne inst - q" .
qed

lemma filter_owner_unique:
  "distinct (map f xs) \<Longrightarrow> a \<in> set xs \<Longrightarrow> filter (\<lambda>b. f b = f a) xs = [a]"
proof (induction xs)
  case (Cons x xs)
  show ?case
  proof (cases "a = x")
    case True
    then show ?thesis using Cons.prems(1) by (auto simp: filter_empty_conv image_iff)
  next
    case False
    then show ?thesis using Cons by auto
  qed
qed simp

lemma reference_orders_iff:
  "od \<in> set (reference_orders ne) \<longleftrightarrow>
     no_instrument od \<in> set (ne_instruments ne) \<and> net_delta ne (no_instrument od) \<noteq> 0
     \<and> no_delta od = net_delta ne (no_instrument od)"
  by (cases od) (auto simp: reference_orders_def)

section \<open>An example\<close>

text \<open>Strategies 1 and 2 want 10 and -4 of instrument 7; the cycle nets them to 6.\<close>

definition ex_netting :: NettingEngine where
  "ex_netting = set_target 2 7 (- 4) (set_target 1 7 10 (netting_new None))"

definition ex_cycle :: NettingEngine where
  "ex_cycle = fst (compute_cycle Map.empty ex_netting)"

lemma ex_netting_inv: "netting_inv ex_netting"
  by (simp add: ex_netting_def set_target_inv netting_inv_new)

lemma ex_net: "ne_instruments ex_netting = [7]" "ne_strategies ex_netting = [2, 1]"
  "net_delta ex_netting 7 = 6"
  by (simp_all add: ex_netting_def netting_new_def set_target_def net_delta_def strat_delta_def
      attributed_def)

lemma ex_cycle_eq:
  "compute_cycle Map.empty ex_netting = (ex_cycle, [\<lparr>no_instrument = 7, no_delta = 6\<rparr>])"
  "ne_contrib ex_cycle 7 = Some [(1, 10), (2, - 4)]"
proof -
  obtain ne1 os where eq: "compute_cycle Map.empty ex_netting = (ne1, os)"
    by (cases "compute_cycle Map.empty ex_netting")
  have "distinct (ne_strategies ex_netting)" "distinct (ne_instruments ex_netting)"
    by (simp_all add: ex_net)
  note spec = compute_cycle_spec [OF this eq]
  have "ne1 = ex_cycle" using eq by (simp add: ex_cycle_def)
  moreover have "os = [\<lparr>no_instrument = 7, no_delta = 6\<rparr>]"
    using spec(2) by (simp add: reference_orders_def ex_net)
  ultimately show "compute_cycle Map.empty ex_netting = (ex_cycle, [\<lparr>no_instrument = 7, no_delta = 6\<rparr>])"
    using eq by simp
  have "contribs_of ex_netting 7 [1, 2] = [(1, 10), (2, - 4)]"
    by (simp add: contribs_of_def strat_delta_def attributed_def ex_netting_def set_target_def netting_new_def)
  then show "ne_contrib ex_cycle 7 = Some [(1, 10), (2, - 4)]"
    using spec(4) [of 7] \<open>ne1 = ex_cycle\<close> by (simp add: ex_net word_le_nat_alt)
qed

lemma ex_cycle_inv: "netting_inv ex_cycle"
  using compute_cycle_inv [OF ex_netting_inv ex_cycle_eq(1)] .

section \<open>Properties\<close>

text \<open>C9: Every operation of the netting engine keeps the invariant that the global position of
  each instrument is the sum of the positions attributed to the strategies, a fill provided its
  instrument has recorded contributions.\<close>

theorem netting_invariant_preserved:
  assumes "netting_inv ne"
  shows "netting_inv (set_target s inst q ne) \<and> netting_inv (set_attributed s inst q ne)
    \<and> netting_inv (fst (compute_cycle prices ne))
    \<and> (ne_contrib ne inst \<noteq> None \<longrightarrow> netting_inv (attribute_fill inst q fp ne))"
  using assms set_target_inv set_attributed_inv compute_cycle_inv [OF assms, of prices] attribute_fill_inv
  by (auto simp: prod_eq_iff)

lemma netting_invariant_preserved_witness:
  "netting_inv ex_cycle \<and> ne_contrib ex_cycle 7 \<noteq> None
     \<and> netting_inv (attribute_fill 7 5 100 ex_cycle)"
  using netting_invariant_preserved [of ex_cycle 1 7 5 Map.empty 100] ex_cycle_inv ex_cycle_eq(2) by simp

text \<open>C28: Between invariant states, a fill of a known instrument leaves global position and
  attributed positions in agreement exactly if it is empty or its instrument has recorded
  contributions: a fill nobody contributed to moves the global position alone.\<close>

theorem fill_keeps_books_iff:
  assumes "netting_inv ne" and "inst \<in> set (ne_instruments ne)"
  shows "check_invariant (attribute_fill inst q fp ne) \<longleftrightarrow> q = 0 \<or> ne_contrib ne inst \<noteq> None"
proof (cases "ne_contrib ne inst")
  case None
  let ?ne = "ne\<lparr>ne_global := map_upd 0 (\<lambda>v. v + q) (ne_global ne) inst\<rparr>"
  have "attribute_fill inst q fp ne = ?ne" using None by (simp add: attribute_fill_def)
  moreover have "attributed ?ne = attributed ne" by (simp add: attributed_def [abs_def])
  ultimately show ?thesis
    using assms None by (auto simp: check_invariant_iff netting_inv_def global_position_def)
next
  case (Some cs)
  then show ?thesis using attribute_fill_inv [OF assms(1) Some] by (simp add: netting_inv_check)
qed

lemma fill_keeps_books_iff_witness:
  "\<not> check_invariant (attribute_fill 7 3 100 ex_netting)
   \<and> check_invariant (attribute_fill 7 3 100 ex_cycle)"
  using fill_keeps_books_iff [of ex_netting 7 3 100] fill_keeps_books_iff [of ex_cycle 7 3 100]
    ex_netting_inv ex_cycle_inv ex_cycle_eq(2) ex_net(1) compute_cycle_spec(1) [OF _ _ ex_cycle_eq(1)]
  by (simp add: ex_net cycle_frame_def)
    (simp add: ex_netting_def set_target_def netting_new_def)

text \<open>C29: The orders of a cycle are those of the reference definition: in instrument order, one per
  instrument whose targets and attributed positions differ in sum, for exactly that difference.\<close>

theorem cycle_orders_are_reference:
  assumes "netting_inv ne"
  shows "snd (compute_cycle prices ne) = reference_orders ne"
  using compute_cycle_spec(2) [of ne prices] assms by (auto simp: netting_inv_def prod_eq_iff)

lemma cycle_orders_are_reference_witness:
  "snd (compute_cycle Map.empty ex_netting) = [\<lparr>no_instrument = 7, no_delta = 6\<rparr>]"
  using cycle_orders_are_reference [OF ex_netting_inv, of Map.empty] by (simp add: reference_orders_def ex_net)



text \<open>C30: Once a cycle's order for an instrument is filled completely, the next cycle sends no order
  for it and leaves every strategy with a target exactly at its target.\<close>

theorem full_fill_converges:
  assumes "netting_inv ne" and "compute_cycle prices ne = (ne1, os)" and "od \<in> set os"
    and "compute_cycle prices' (attribute_fill (no_instrument od) (no_delta od) fp ne1) = (ne3, os3)"
  shows "no_instrument od \<notin> no_instrument ` set os3
    \<and> (\<forall>s \<in> set (ne_strategies ne). \<forall>target.
         ne_targets ne (netting_key s (no_instrument od)) = Some target
         \<longrightarrow> attributed ne3 s (no_instrument od) = target)"
proof -
  let ?i = "no_instrument od"
  let ?ne2 = "attribute_fill ?i (no_delta od) fp ne1"
  have d: "distinct (ne_strategies ne)" "distinct (ne_instruments ne)"
    using assms(1) by (auto simp: netting_inv_def)
  note spec = compute_cycle_spec [OF d assms(2)]
  have i: "?i \<in> set (ne_instruments ne)" "net_delta ne ?i \<noteq> 0" "no_delta od = net_delta ne ?i"
    using assms(3) spec(2) by (auto simp: reference_orders_iff)
  note some = fill_deltas(1) [OF assms(1,2) i(1,2)]
  note D = fill_deltas(2-4) [OF assms(1,2) i(1,2), of "no_delta od" fp]
  have inv2: "netting_inv ?ne2"
    using attribute_fill_inv [OF compute_cycle_inv [OF assms(1,2)] some] .
  have zero: "net_delta ?ne2 ?i = 0" using D(1) i(3) by simp
  have d2: "distinct (ne_strategies ?ne2)" "distinct (ne_instruments ?ne2)"
    using inv2 by (auto simp: netting_inv_def)
  have inst2: "?i \<in> set (ne_instruments ?ne2)"
    using attribute_fill_some(4) [OF compute_cycle_inv [OF assms(1,2)] some] spec(1) i(1)
    by (simp add: cycle_frame_def)
  note spec2 = compute_cycle_spec [OF d2 assms(4)]
  have "?i \<notin> no_instrument ` set os3" using spec2(2) zero by (auto simp: reference_orders_iff)
  moreover have "attributed ne3 s ?i = target"
    if "s \<in> set (ne_strategies ne)" and "ne_targets ne (netting_key s ?i) = Some target" for s target
    using spec2(3) [of s ?i] that zero inst2 by (simp add: D(2,3) strat_delta_def)
  ultimately show ?thesis by blast
qed

lemma full_fill_converges_witness:
  "attributed (fst (compute_cycle Map.empty (attribute_fill 7 6 100 ex_cycle))) 1 7 = 10
   \<and> attributed (fst (compute_cycle Map.empty (attribute_fill 7 6 100 ex_cycle))) 2 7 = - 4"
  using full_fill_converges [OF ex_netting_inv ex_cycle_eq(1), of "\<lparr>no_instrument = 7, no_delta = 6\<rparr>"
      Map.empty 100 "fst (compute_cycle Map.empty (attribute_fill 7 6 100 ex_cycle))"
      "snd (compute_cycle Map.empty (attribute_fill 7 6 100 ex_cycle))"]
  by (simp add: ex_net) (simp add: ex_netting_def set_target_def netting_new_def)

end
