(* ===== verification/SignalPipeline.thy ===== *)
theory SignalPipeline
  imports SignalGate SignalProducer NettingProps
begin

text \<open>
  \<^verbatim>\<open>sim/signal_demo.cpp\<close>: the signal path end to end, producer, codec, queue, gate, netting
  engine and attribution of full fills. The property is what its \<^verbatim>\<open>main\<close> prints and returns.
\<close>

section \<open>The program\<close>

record DemoState =
  ds_producer :: SignalProducer
  ds_queue :: signal_queue
  ds_gate :: SignalGate
  ds_netting :: NettingEngine
  ds_now :: Timestamp
  ds_accepted :: u64
  ds_rejected :: u64
  ds_target_lines :: u64
  ds_net_orders :: u64

text \<open>
  \<open>CodecFailed\<close> is the \<^verbatim>\<open>return 1\<close> after a failed round trip; \<open>DemoHangs\<close> a
  \<^verbatim>\<open>produce_cycle\<close> that does not return.
\<close>

datatype demo_outcome = Running DemoState | CodecFailed | DemoAborted abort | DemoHangs

definition demo_universe :: "InstrumentId list" where
  "demo_universe = [1, 2, 3, 4, 5, 6, 7, 8, 9, 10, 11, 12]"

definition demo_prices :: "InstrumentId \<rightharpoonup> Price" where
  "demo_prices i = (if i \<in> set demo_universe then Some (100 + uint i) else None)"

definition demo_config :: SignalProducerConfig where
  "demo_config = default_producer_config\<lparr>num_strategies := 50, spc_instruments := demo_universe,
     targets_per_strategy := 6\<rparr>"

text \<open>The state after the startup block: one book produced and checked under do-not-trade.\<close>

definition demo_boot :: "SignalProducerConfig \<Rightarrow> demo_outcome" where
  "demo_boot cfg =
     (case produce_cycle 1000000000 (producer_new cfg) of
        None \<Rightarrow> DemoHangs
      | Some (p, []) \<Rightarrow> DemoAborted EmptyFront
      | Some (p, front # _) \<Rightarrow>
          (case gate_check front 1000000000 (gate_new default_gate_config None) of
             Inl e \<Rightarrow> DemoAborted e
           | Inr (v, gate) \<Rightarrow> Running \<lparr>ds_producer = p, ds_queue = [],
               ds_gate = enable_trading True gate, ds_netting = netting_new None,
               ds_now = 1000000000, ds_accepted = 0, ds_rejected = 0, ds_target_lines = 0,
               ds_net_orders = 0\<rparr>))"

fun transport :: "nat \<Rightarrow> SignalMessage list \<Rightarrow> signal_queue \<Rightarrow> signal_queue option result" where
  "transport R [] q = Inr (Some q)"
| "transport R (m # ms) q =
     (case deserialize_signal R (serialize_signal m) default_signal of
        Inl e \<Rightarrow> Inl e
      | Inr (False, decoded) \<Rightarrow> Inr None
      | Inr (True, decoded) \<Rightarrow> transport R ms (queue_push decoded q))"

definition apply_targets ::
  "StrategyId \<Rightarrow> TargetPosition list \<Rightarrow> NettingEngine \<times> u64 \<Rightarrow> NettingEngine \<times> u64" where
  "apply_targets s ts acc =
     foldl (\<lambda>(ne, lines) t. (set_target s (tp_instrument t) (tp_signed_target t) ne, lines + 1)) acc ts"

definition consume_signal :: "SignalMessage \<Rightarrow> DemoState \<Rightarrow> DemoState result" where
  "consume_signal m st =
     (case gate_check m (ds_now st) (ds_gate st) of
        Inl e \<Rightarrow> Inl e
      | Inr (v, gate) \<Rightarrow>
          if v = Accept \<or> v = GapAcceptedLogged then
            let (ne, lines) = apply_targets (sm_strategy_id m) (sm_targets m)
                                (ds_netting st, ds_target_lines st)
            in Inr (st\<lparr>ds_gate := gate, ds_accepted := ds_accepted st + 1, ds_netting := ne,
                       ds_target_lines := lines\<rparr>)
          else Inr (st\<lparr>ds_gate := gate, ds_rejected := ds_rejected st + 1\<rparr>))"

lemma try_pop_length [termination_simp]: "try_pop q = Some (m, q') \<Longrightarrow> length q' < length q"
  by (cases q) auto

text \<open>\<^verbatim>\<open>while (queue.try_pop(m))\<close>.\<close>

function drain_queue :: "signal_queue \<Rightarrow> DemoState \<Rightarrow> DemoState result" where
  "drain_queue q st =
     (case try_pop q of
        None \<Rightarrow> Inr (st\<lparr>ds_queue := q\<rparr>)
      | Some (m, q') \<Rightarrow> (case consume_signal m st of Inl e \<Rightarrow> Inl e | Inr st' \<Rightarrow> drain_queue q' st'))"
  by pat_completeness auto
termination
  by (relation "measure (\<lambda>(q, st). length q)") (auto dest: try_pop_length)

declare drain_queue.simps [simp del]

lemma drain_queue_simps [simp]:
  "drain_queue [] st = Inr (st\<lparr>ds_queue := []\<rparr>)"
  "drain_queue (m # q) st = (case consume_signal m st of Inl e \<Rightarrow> Inl e | Inr st' \<Rightarrow> drain_queue q st')"
  by (subst drain_queue.simps, simp)+

definition fill_orders :: "(InstrumentId \<rightharpoonup> Price) \<Rightarrow> NetOrder list \<Rightarrow> NettingEngine \<Rightarrow> NettingEngine" where
  "fill_orders prices orders ne =
     foldl (\<lambda>ne od. attribute_fill (no_instrument od) (no_delta od)
                      (map_get 0 prices (no_instrument od)) ne) ne orders"

definition demo_cycle :: "nat \<Rightarrow> (InstrumentId \<rightharpoonup> Price) \<Rightarrow> DemoState \<Rightarrow> demo_outcome" where
  "demo_cycle R prices st0 =
     (let st = st0\<lparr>ds_now := ds_now st0 + 1000000000\<rparr>
      in case produce_cycle (ds_now st) (ds_producer st) of
           None \<Rightarrow> DemoHangs
         | Some (p, msgs) \<Rightarrow>
             (case transport R msgs (ds_queue st) of
                Inl e \<Rightarrow> DemoAborted e
              | Inr None \<Rightarrow> CodecFailed
              | Inr (Some q) \<Rightarrow>
                  (case drain_queue q (st\<lparr>ds_producer := p\<rparr>) of
                     Inl e \<Rightarrow> DemoAborted e
                   | Inr st1 \<Rightarrow>
                       let (ne, orders) = compute_cycle prices (ds_netting st1)
                       in Running (st1\<lparr>ds_netting := fill_orders prices orders ne,
                            ds_net_orders := ds_net_orders st1 + word_of_nat (length orders)\<rparr>))))"

fun demo_run :: "nat \<Rightarrow> (InstrumentId \<rightharpoonup> Price) \<Rightarrow> nat \<Rightarrow> demo_outcome \<Rightarrow> demo_outcome" where
  "demo_run R prices 0 outcome = outcome"
| "demo_run R prices (Suc cycles) outcome =
     (case demo_run R prices cycles outcome of
        Running st \<Rightarrow> demo_cycle R prices st | stopped \<Rightarrow> stopped)"

text \<open>
  What \<^verbatim>\<open>main\<close> writes to \<^verbatim>\<open>std::cout\<close>, and its exit code; \<open>None\<close> where it does not return.
\<close>

definition startup_line :: "SignalVerdict \<Rightarrow> string" where
  "startup_line v = ''startup (DNT) verdict for strategy 1: ''
     @ (if v = RejectDNT then ''RejectDNT (correct)'' else ''UNEXPECTED'') @ newline"

definition boot_verdict :: "SignalProducerConfig \<Rightarrow> SignalVerdict option" where
  "boot_verdict cfg =
     (case produce_cycle 1000000000 (producer_new cfg) of
        Some (p, front # _) \<Rightarrow>
          (case gate_check front 1000000000 (gate_new default_gate_config None) of
             Inl e \<Rightarrow> None | Inr (v, gate) \<Rightarrow> Some v)
      | _ \<Rightarrow> None)"

definition demo_report :: "SignalProducerConfig \<Rightarrow> nat \<Rightarrow> DemoState \<Rightarrow> string" where
  "demo_report cfg cycles st =
     (let num = (\<lambda>n :: u64. to_string (uint n)) in
      newline @ ''--- signal pipeline summary ---'' @ newline
      @ ''strategies              : 1..'' @ to_string (uint (num_strategies cfg)) @ newline
      @ ''instruments             : '' @ to_string (int (length (spc_instruments cfg))) @ newline
      @ ''cycles                  : '' @ to_string (int cycles) @ newline
      @ ''signals accepted        : '' @ num (ds_accepted st) @ newline
      @ ''signals rejected        : '' @ num (ds_rejected st) @ newline
      @ ''raw target lines        : '' @ num (ds_target_lines st) @ newline
      @ ''net orders emitted      : '' @ num (ds_net_orders st)
      @ ''  (collapsed from '' @ num (ds_target_lines st) @ '' strategy targets)'' @ newline
      @ ''netting saved notional  : '' @ to_string (ne_saved_notional (ds_netting st)) @ newline
      @ ''invariant global==Sum(sub): '' @ (if check_invariant (ds_netting st) then ''OK'' else ''VIOLATED'') @ newline)"

definition signal_demo_main ::
  "nat \<Rightarrow> SignalProducerConfig \<Rightarrow> (InstrumentId \<rightharpoonup> Price) \<Rightarrow> nat \<Rightarrow> (string \<times> int) option" where
  "signal_demo_main R cfg prices cycles =
     (case boot_verdict cfg of
        None \<Rightarrow> None
      | Some v \<Rightarrow>
          (case demo_run R prices cycles (demo_boot cfg) of
             Running st \<Rightarrow> Some (startup_line v @ demo_report cfg cycles st,
                             if check_invariant (ds_netting st) then 0 else 1)
           | CodecFailed \<Rightarrow> Some (startup_line v, 1)
           | _ \<Rightarrow> None))"

section \<open>The stages\<close>

lemma transport_all:
  assumes "\<And>m. m \<in> set ms \<Longrightarrow> wire_ok R m"
  shows "transport R ms q = Inr (Some (q @ ms))"
  using assms by (induction ms arbitrary: q) (simp_all add: deserialize_serialize queue_push_def)

lemma apply_targets_inv:
  "netting_inv (fst acc) \<Longrightarrow> netting_inv (fst (apply_targets s ts acc))"
  unfolding apply_targets_def by (induction ts arbitrary: acc) (auto simp: set_target_inv split_beta)

text \<open>Every order of a cycle has recorded contributions, and fills do not remove them.\<close>

lemma fill_orders_inv:
  assumes "netting_inv ne" and "\<And>od. od \<in> set orders \<Longrightarrow> ne_contrib ne (no_instrument od) \<noteq> None"
  shows "netting_inv (fill_orders prices orders ne)"
  using assms
proof (induction orders arbitrary: ne)
  case (Cons od orders)
  obtain cs where cs: "ne_contrib ne (no_instrument od) = Some cs" using Cons.prems(2) [of od] by auto
  let ?ne = "attribute_fill (no_instrument od) (no_delta od) (map_get 0 prices (no_instrument od)) ne"
  have "netting_inv (fill_orders prices orders ?ne)"
    using Cons.prems attribute_fill_inv [OF Cons.prems(1) cs] attribute_fill_some(3) [OF Cons.prems(1) cs]
    by (intro Cons.IH) auto
  then show ?case by (simp add: fill_orders_def)
qed (simp add: fill_orders_def)

lemma cycle_and_fill_inv:
  assumes "netting_inv ne" and "compute_cycle prices ne = (ne', orders)"
  shows "netting_inv (fill_orders prices orders ne')"
proof (rule fill_orders_inv)
  show "netting_inv ne'" by (rule compute_cycle_inv [OF assms])
  have d: "distinct (ne_strategies ne)" "distinct (ne_instruments ne)"
    using assms(1) by (auto simp: netting_inv_def)
  note spec = compute_cycle_spec [OF d assms(2)]
  show "ne_contrib ne' (no_instrument od) \<noteq> None" if "od \<in> set orders" for od
    using that spec(2) spec(4) [of "no_instrument od"] by (auto simp: reference_orders_iff)
qed

section \<open>Gate and producer in step\<close>

text \<open>Every producer the gate has seen is expected to send its next sequence number.\<close>

definition gate_sync :: "SignalGate \<Rightarrow> (StrategyId \<Rightarrow> u64) \<Rightarrow> bool" where
  "gate_sync g seq \<longleftrightarrow> sg_cfg g = default_gate_config \<and> sg_trading_enabled g
     \<and> (\<forall>s pr. sg_producers g s = Some pr \<longrightarrow> pr_seen pr \<longrightarrow> pr_expected_seq pr = seq s mod 0x10000)"

lemma gate_accepts_next:
  assumes "gate_sync g seq" and "sm_sequence m = seq (sm_strategy_id m)" and "fresh_signal m now g"
  obtains g' where "gate_check m now g = Inr (Accept, g')"
    and "gate_sync g' (seq(sm_strategy_id m := seq (sm_strategy_id m) + 1))"
proof -
  let ?p = "map_get new_producer (sg_producers g) (sm_strategy_id m)"
  have cfg: "seq_modulo (sg_cfg g) = 0x10000" using assms(1) by (simp add: gate_sync_def default_gate_config_def)
  have "pr_seen ?p \<Longrightarrow> pr_expected_seq ?p = seq (sm_strategy_id m) mod 0x10000"
    using assms(1) by (auto simp: gate_sync_def map_get_def new_producer_def split: option.splits)
  then have d: "pr_seen ?p \<Longrightarrow> seq_delta m ?p g = 0"
    by (simp add: seq_delta_def cfg assms(2) distance_mod del: mod_0)
      (simp add: take_bit_eq_mod [symmetric])
  have "seq_modulo (sg_cfg g) \<noteq> 0" using cfg by simp
  from gate_check_fresh [OF assms(3) this] d obtain g' where
    g': "gate_check m now g = Inr (Accept, g')" "sg_cfg g' = sg_cfg g"
      "sg_trading_enabled g' = sg_trading_enabled g" "sg_producers g' = accepted_state m now g" by fastforce
  have "gate_sync g' (seq(sm_strategy_id m := seq (sm_strategy_id m) + 1))"
    using assms(1,2) g' cfg by (auto simp: gate_sync_def accepted_state_def)
  with g'(1) show thesis by (rule that)
qed


lemma consume_next:
  assumes "gate_sync (ds_gate st) seq" and "sm_sequence m = seq (sm_strategy_id m)"
    and "fresh_signal m (ds_now st) (ds_gate st)" and "netting_inv (ds_netting st)"
  obtains st' where "consume_signal m st = Inr st'"
    and "gate_sync (ds_gate st') (seq(sm_strategy_id m := seq (sm_strategy_id m) + 1))"
    and "netting_inv (ds_netting st')" and "ds_accepted st' = ds_accepted st + 1"
    and "ds_rejected st' = ds_rejected st" and "ds_now st' = ds_now st"
    and "ds_producer st' = ds_producer st" and "ds_queue st' = ds_queue st"
proof -
  from gate_accepts_next [OF assms(1-3)] obtain g' where g: "gate_check m (ds_now st) (ds_gate st) = Inr (Accept, g')"
    and s: "gate_sync g' (seq(sm_strategy_id m := seq (sm_strategy_id m) + 1))" .
  obtain ne lines where a: "apply_targets (sm_strategy_id m) (sm_targets m)
      (ds_netting st, ds_target_lines st) = (ne, lines)"
    by (cases "apply_targets (sm_strategy_id m) (sm_targets m) (ds_netting st, ds_target_lines st)")
  have "netting_inv ne"
    using apply_targets_inv [of "(ds_netting st, ds_target_lines st)" "sm_strategy_id m" "sm_targets m"]
      assms(4) a by simp
  then show thesis
    using that [of "st\<lparr>ds_gate := g', ds_accepted := ds_accepted st + 1, ds_netting := ne,
      ds_target_lines := lines\<rparr>"] g s a by (simp add: consume_signal_def)
qed

lemma drain_all:
  assumes "gate_sync (ds_gate st) seq" and "distinct (map sm_strategy_id ms)"
    and "\<And>m. m \<in> set ms \<Longrightarrow> sm_sequence m = seq (sm_strategy_id m)"
    and "\<And>m g. m \<in> set ms \<Longrightarrow> sg_cfg g = default_gate_config \<Longrightarrow> sg_trading_enabled g
           \<Longrightarrow> fresh_signal m (ds_now st) g"
    and "netting_inv (ds_netting st)"
  shows "\<exists>st'. drain_queue ms st = Inr st'
    \<and> gate_sync (ds_gate st') (\<lambda>s. seq s + (if s \<in> sm_strategy_id ` set ms then 1 else 0))
    \<and> netting_inv (ds_netting st') \<and> ds_accepted st' = ds_accepted st + word_of_nat (length ms)
    \<and> ds_rejected st' = ds_rejected st \<and> ds_now st' = ds_now st
    \<and> ds_producer st' = ds_producer st \<and> ds_queue st' = []"
  using assms
proof (induction ms arbitrary: st seq)
  case (Cons m ms)
  have "fresh_signal m (ds_now st) (ds_gate st)"
    using Cons.prems(1) Cons.prems(4) [of m] by (simp add: gate_sync_def)
  from consume_next [OF Cons.prems(1) _ this Cons.prems(5)] Cons.prems(3) [of m] obtain st1 where
    st1: "consume_signal m st = Inr st1"
      "gate_sync (ds_gate st1) (seq(sm_strategy_id m := seq (sm_strategy_id m) + 1))"
      "netting_inv (ds_netting st1)" "ds_accepted st1 = ds_accepted st + 1"
      "ds_rejected st1 = ds_rejected st" "ds_now st1 = ds_now st"
      "ds_producer st1 = ds_producer st" "ds_queue st1 = ds_queue st" by auto
  let ?seq = "seq(sm_strategy_id m := seq (sm_strategy_id m) + 1)"
  have own: "sm_strategy_id x \<noteq> sm_strategy_id m" if "x \<in> set ms" for x
    using that Cons.prems(2) by (auto simp: image_iff)
  have "\<exists>st'. drain_queue ms st1 = Inr st'
    \<and> gate_sync (ds_gate st') (\<lambda>s. ?seq s + (if s \<in> sm_strategy_id ` set ms then 1 else 0))
    \<and> netting_inv (ds_netting st') \<and> ds_accepted st' = ds_accepted st1 + word_of_nat (length ms)
    \<and> ds_rejected st' = ds_rejected st1 \<and> ds_now st' = ds_now st1
    \<and> ds_producer st' = ds_producer st1 \<and> ds_queue st' = []"
    using Cons.prems own st1(6) by (intro Cons.IH st1(2,3)) auto
  moreover have "(\<lambda>s. ?seq s + (if s \<in> sm_strategy_id ` set ms then 1 else 0))
      = (\<lambda>s. seq s + (if s \<in> sm_strategy_id ` set (m # ms) then 1 else 0))"
    using Cons.prems(2) by (auto simp: fun_eq_iff)
  ultimately show ?case by (auto simp: st1)
qed simp

section \<open>The whole run\<close>

definition demo_config_ok :: "nat \<Rightarrow> SignalProducerConfig \<Rightarrow> bool" where
  "demo_config_ok R cfg \<longleftrightarrow> 0 < num_strategies cfg \<and> num_strategies cfg < 0xFFFF
     \<and> spc_instruments cfg \<noteq> [] \<and> 0 \<le> spc_max_abs_target cfg \<and> spc_max_abs_target cfg \<le> 1000000000
     \<and> targets_per cfg \<le> R"

definition demo_inv :: "SignalProducerConfig \<Rightarrow> nat \<Rightarrow> DemoState \<Rightarrow> bool" where
  "demo_inv cfg k st \<longleftrightarrow> sp_cfg (ds_producer st) = cfg \<and> ds_queue st = []
     \<and> gate_sync (ds_gate st) (map_get 0 (sp_seq (ds_producer st)))
     \<and> netting_inv (ds_netting st) \<and> ds_now st = 1000000000 * (int k + 1)
     \<and> ds_rejected st = 0 \<and> ds_accepted st = word_of_nat (k * unat (num_strategies cfg))"

lemma produce_messages:
  assumes "demo_config_ok R cfg" and "sp_cfg p = cfg"
  obtains p' ms where "produce_cycle now p = Some (p', ms)" and "sp_cfg p' = cfg"
    and "map sm_strategy_id ms = strategy_range 1 (num_strategies cfg)"
    and "\<And>m. m \<in> set ms \<Longrightarrow> signal_ok now cfg m \<and> sm_sequence m = map_get 0 (sp_seq p) (sm_strategy_id m)"
    and "\<And>s. map_get 0 (sp_seq p') s
          = map_get 0 (sp_seq p) s + (if s \<in> set (strategy_range 1 (num_strategies cfg)) then 1 else 0)"
proof -
  let ?ss = "strategy_range 1 (num_strategies cfg)"
  obtain p' ms where f: "foldl (produce_one now) (p, []) ?ss = (p', ms)"
    by (cases "foldl (produce_one now) (p, []) ?ss")
  have b: "0 \<le> spc_max_abs_target (sp_cfg p)" "spc_max_abs_target (sp_cfg p) < 2 ^ 62"
    and n: "num_strategies (sp_cfg p) < 0xFFFF" "num_strategies (sp_cfg p) \<noteq> 0" "spc_instruments (sp_cfg p) \<noteq> []"
    using assms by (auto simp: demo_config_ok_def)
  have "produce_cycle now p = Some (p', ms)" using produce_cycle_fold [OF n(1)] n f assms(2) by simp
  with produce_fold_spec [OF b distinct_strategy_range f] assms(2) show thesis by (auto intro: that)
qed

lemma length_strategy_range: "length (strategy_range 1 num) = unat num"
  by (simp add: strategy_range_def)

lemma targets_per_less: "targets_per cfg < 2 ^ 32"
  using unsigned_less [of "targets_per_strategy cfg", where 'a = nat]
    unsigned_less [of "word_of_nat (length (spc_instruments cfg)) :: u32", where 'a = nat]
  by (simp add: targets_per_def)

lemma signal_ok_wire:
  assumes "signal_ok now cfg m" and "demo_config_ok R cfg" and "in_i64 now"
  shows "wire_ok R m"
  using assms targets_per_less [of cfg]
  by (fastforce simp: signal_ok_def demo_config_ok_def wire_ok_def list_all_iff in_i64_def)

lemma signal_ok_fresh:
  assumes "signal_ok now cfg m" and "demo_config_ok R cfg" and "sg_cfg g = default_gate_config"
    and "sg_trading_enabled g"
  shows "fresh_signal m now g"
  using assms by (fastforce simp: signal_ok_def demo_config_ok_def fresh_signal_def list_all_iff
      default_gate_config_def)

lemma demo_cycle_inv:
  assumes inv: "demo_inv cfg k st" and cfg: "demo_config_ok R cfg" and k: "k < 2 ^ 32"
  obtains st' where "demo_cycle R prices st = Running st'" and "demo_inv cfg (Suc k) st'"
proof -
  let ?now = "ds_now st + 1000000000"
  let ?p = "ds_producer st"
  have p: "sp_cfg ?p = cfg" and now: "in_i64 ?now" "?now = 1000000000 * (int (Suc k) + 1)"
    using inv k by (auto simp: demo_inv_def in_i64_def)
  obtain p' ms where prod: "produce_cycle ?now ?p = Some (p', ms)" and p': "sp_cfg p' = cfg"
    and ids: "map sm_strategy_id ms = strategy_range 1 (num_strategies cfg)"
    and ok: "\<And>m. m \<in> set ms \<Longrightarrow> signal_ok ?now cfg m \<and> sm_sequence m = map_get 0 (sp_seq ?p) (sm_strategy_id m)"
    and seq: "\<And>s. map_get 0 (sp_seq p') s
      = map_get 0 (sp_seq ?p) s + (if s \<in> set (strategy_range 1 (num_strategies cfg)) then 1 else 0)"
    using produce_messages [OF cfg p] by blast
  have tr: "transport R ms (ds_queue st) = Inr (Some ms)"
    using transport_all [of ms R "[]"] signal_ok_wire [OF _ cfg now(1)] ok inv by (simp add: demo_inv_def)
  let ?st = "st\<lparr>ds_now := ?now, ds_producer := p'\<rparr>"
  have "\<exists>st1. drain_queue ms ?st = Inr st1
    \<and> gate_sync (ds_gate st1) (\<lambda>s. map_get 0 (sp_seq ?p) s + (if s \<in> sm_strategy_id ` set ms then 1 else 0))
    \<and> netting_inv (ds_netting st1) \<and> ds_accepted st1 = ds_accepted ?st + word_of_nat (length ms)
    \<and> ds_rejected st1 = ds_rejected ?st \<and> ds_now st1 = ds_now ?st
    \<and> ds_producer st1 = ds_producer ?st \<and> ds_queue st1 = []"
    using inv ok signal_ok_fresh [OF _ cfg] ids distinct_strategy_range
    by (intro drain_all) (auto simp: demo_inv_def)
  then obtain st1 where st1: "drain_queue ms ?st = Inr st1"
    "gate_sync (ds_gate st1) (\<lambda>s. map_get 0 (sp_seq ?p) s + (if s \<in> sm_strategy_id ` set ms then 1 else 0))"
    "netting_inv (ds_netting st1)" "ds_accepted st1 = ds_accepted st + word_of_nat (length ms)"
    "ds_rejected st1 = ds_rejected st" "ds_now st1 = ?now" "ds_producer st1 = p'" "ds_queue st1 = []"
    by auto
  obtain ne orders where cyc: "compute_cycle prices (ds_netting st1) = (ne, orders)"
    by (cases "compute_cycle prices (ds_netting st1)")
  let ?st' = "st1\<lparr>ds_netting := fill_orders prices orders ne,
    ds_net_orders := ds_net_orders st1 + word_of_nat (length orders)\<rparr>"
  have "demo_cycle R prices st = Running ?st'"
    using prod tr st1(1) cyc by (simp add: demo_cycle_def Let_def)
  moreover have "set (strategy_range 1 (num_strategies cfg)) = sm_strategy_id ` set ms"
    using arg_cong [OF ids, of set] by simp
  then have sync: "gate_sync (ds_gate st1) (map_get 0 (sp_seq p'))"
    using st1(2) by (simp add: seq [abs_def] fun_eq_iff cong: if_cong)
  have len: "length ms = unat (num_strategies cfg)"
    using arg_cong [OF ids, of length] by (simp add: length_strategy_range)
  have "demo_inv cfg (Suc k) ?st'"
    using inv sync cycle_and_fill_inv [OF st1(3) cyc] now(2) p'
    by (simp add: demo_inv_def st1 len algebra_simps)
  ultimately show thesis by (rule that)
qed


lemma demo_boot_inv:
  assumes cfg: "demo_config_ok R cfg"
  obtains st where "demo_boot cfg = Running st" and "demo_inv cfg 0 st" and "boot_verdict cfg = Some RejectDNT"
proof -
  obtain p' ms where prod: "produce_cycle 1000000000 (producer_new cfg) = Some (p', ms)" and p': "sp_cfg p' = cfg"
    and ids: "map sm_strategy_id ms = strategy_range 1 (num_strategies cfg)"
  proof -
    have "sp_cfg (producer_new cfg) = cfg" by (simp add: producer_new_def)
    then show thesis by (rule produce_messages [OF cfg, of _ 1000000000]) (rule that)
  qed
  have "length ms = unat (num_strategies cfg)"
    using arg_cong [OF ids, of length] by (simp add: length_strategy_range)
  then obtain m ms' where ms: "ms = m # ms'"
    using cfg by (cases ms) (auto simp: demo_config_ok_def word_less_nat_alt)
  let ?g = "gate_new default_gate_config None"
  obtain g where g: "gate_check m 1000000000 ?g = Inr (RejectDNT, g)" "sg_producers g = Map.empty"
      "sg_cfg g = default_gate_config"
    by (simp add: gate_check_def gate_new_def)
  then have "gate_sync (enable_trading True g) (map_get 0 (sp_seq p'))"
    by (simp add: gate_sync_def enable_trading_def)
  then show thesis
    using that prod p' g by (simp add: demo_boot_def boot_verdict_def ms demo_inv_def netting_inv_new)
qed

text \<open>C34: The demo pipeline works as its main reports: for every producer configuration with fewer
  than 65535 strategies, sane target magnitudes and buffers that can be allocated, any number of
  cycles runs to the end, no codec round trip fails, the gate accepts every signal and rejects
  none, the netting invariant holds, and main prints the expected startup verdict and returns 0.\<close>

theorem demo_returns_zero:
  assumes "demo_config_ok R cfg" and "cycles \<le> 2 ^ 32"
  shows "\<exists>st. demo_run R prices cycles (demo_boot cfg) = Running st \<and> check_invariant (ds_netting st)
    \<and> ds_rejected st = 0 \<and> ds_accepted st = word_of_nat (cycles * unat (num_strategies cfg))
    \<and> signal_demo_main R cfg prices cycles = Some (startup_line RejectDNT @ demo_report cfg cycles st, 0)"
proof -
  obtain st0 where st0: "demo_boot cfg = Running st0" "demo_inv cfg 0 st0"
    and dnt: "boot_verdict cfg = Some RejectDNT" by (rule demo_boot_inv [OF assms(1)])
  have "\<exists>st. demo_run R prices cycles (demo_boot cfg) = Running st \<and> demo_inv cfg cycles st"
    using assms(2)
  proof (induction cycles)
    case 0
    then show ?case using st0 by simp
  next
    case (Suc n)
    then obtain st where "demo_run R prices n (demo_boot cfg) = Running st" "demo_inv cfg n st" by auto
    with demo_cycle_inv [OF _ assms(1), of n st prices] Suc.prems show ?case
      by auto
  qed
  then obtain st where st: "demo_run R prices cycles (demo_boot cfg) = Running st" "demo_inv cfg cycles st" by blast
  then have "check_invariant (ds_netting st)" by (auto simp: demo_inv_def dest: netting_inv_check)
  with st dnt show ?thesis by (simp add: demo_inv_def signal_demo_main_def)
qed

lemma demo_returns_zero_witness:
  "\<exists>st. demo_run 6 demo_prices 4 (demo_boot demo_config) = Running st \<and> check_invariant (ds_netting st)
     \<and> ds_rejected st = 0 \<and> ds_accepted st = 200
     \<and> signal_demo_main 6 demo_config demo_prices 4 = Some (startup_line RejectDNT @ demo_report demo_config 4 st, 0)"
proof -
  have "demo_config_ok 6 demo_config"
    by (simp add: demo_config_ok_def demo_config_def default_producer_config_def demo_universe_def targets_per_def)
  from demo_returns_zero [OF this, of 4 demo_prices] show ?thesis
    by (simp add: demo_config_def default_producer_config_def)
qed

end
