(* ===== verification/ExecutionAlgo.thy ===== *)
theory ExecutionAlgo
  imports OrderManager "HOL-Library.AList"
begin

text \<open>
  \<^verbatim>\<open>include/oms/ExecutionAlgo.h\<close>, \<^verbatim>\<open>src/ExecutionAlgo.cpp\<close>: the execution algos. \<^verbatim>\<open>TwapAlgo\<close>
  and \<^verbatim>\<open>PovAlgo\<close> derive from \<^verbatim>\<open>AlgoBase\<close>; their records extend its record, and the operations
  of the base work on any extension. The order manager an algo holds a pointer to is passed and
  returned (\<open>ac_om\<close> says whether the pointer is set), the market data source is the argument
  \<open>mds\<close>, what its two queries answer at the time of the call. The unordered map of children is
  the association list of its entries.
\<close>

section \<open>Data\<close>

record ParentOrder =
  po_instrument :: InstrumentId
  po_side :: Side
  po_qty :: Quantity
  po_start :: Timestamp
  po_end :: Timestamp
  po_limit :: Price
  po_strategy_id :: StrategyId

definition default_parent :: ParentOrder where
  "default_parent = \<lparr>po_instrument = 0, po_side = Buy, po_qty = 0, po_start = 0, po_end = 0,
     po_limit = 0, po_strategy_id = 0\<rparr>"

record AlgoStats =
  as_target_qty :: Quantity
  as_filled_qty :: Quantity
  as_market_volume :: Quantity
  as_child_orders :: u64
  as_idle_intervals :: u64
  as_degraded_to_twap :: bool
  as_incomplete_at_deadline :: bool

definition zero_stats :: AlgoStats where
  "zero_stats = \<lparr>as_target_qty = 0, as_filled_qty = 0, as_market_volume = 0, as_child_orders = 0,
     as_idle_intervals = 0, as_degraded_to_twap = False, as_incomplete_at_deadline = False\<rparr>"

record AlgoConfig =
  ac_om :: bool
  ac_worker_offset :: int
  ac_worker_index :: int
  ac_algo_tag :: AlgoTag
  ac_slices :: int
  ac_participation_rate :: double
  ac_min_volume_floor :: Quantity
  ac_catch_up_threshold :: Quantity
  ac_residual_twap_slices :: int

definition default_algo_config :: AlgoConfig where
  "default_algo_config = \<lparr>ac_om = False, ac_worker_offset = 0, ac_worker_index = 0, ac_algo_tag = 0,
     ac_slices = 10, ac_participation_rate = dbl (1 / 10), ac_min_volume_floor = 0,
     ac_catch_up_threshold = 0, ac_residual_twap_slices = 5\<rparr>"

record MarketDataSource =
  mds_top_of_book :: "InstrumentId \<Rightarrow> TopOfBook"
  mds_volume_since :: "InstrumentId \<Rightarrow> Timestamp \<Rightarrow> Quantity"

record AlgoBase =
  ab_config :: AlgoConfig
  ab_log :: log_sink
  ab_parent :: ParentOrder
  ab_filled :: Quantity
  ab_sent_total :: Quantity
  ab_children :: "(OrderIdRaw \<times> Quantity) list"
  ab_stats :: AlgoStats
  ab_done :: bool

record TwapAlgo = AlgoBase +
  tw_slice_dur :: Timestamp
  tw_n :: int
  tw_slices_done :: int
  tw_deadline_done :: bool

record PovAlgo = AlgoBase +
  pv_last_tick :: Timestamp
  pv_market_volume :: Quantity
  pv_degraded :: bool
  pv_deadline_done :: bool
  pv_twap :: "TwapAlgo option"

definition twap_new :: "AlgoConfig \<Rightarrow> log_sink \<Rightarrow> TwapAlgo" where
  "twap_new cfg sink = \<lparr>ab_config = cfg, ab_log = sink, ab_parent = default_parent, ab_filled = 0,
     ab_sent_total = 0, ab_children = [], ab_stats = zero_stats, ab_done = False,
     tw_slice_dur = 1, tw_n = 1, tw_slices_done = 0, tw_deadline_done = False\<rparr>"

definition pov_new :: "AlgoConfig \<Rightarrow> log_sink \<Rightarrow> PovAlgo" where
  "pov_new cfg sink = \<lparr>ab_config = cfg, ab_log = sink, ab_parent = default_parent, ab_filled = 0,
     ab_sent_total = 0, ab_children = [], ab_stats = zero_stats, ab_done = False,
     pv_last_tick = 0, pv_market_volume = 0, pv_degraded = False, pv_deadline_done = False,
     pv_twap = None\<rparr>"

section \<open>AlgoBase\<close>

definition child_request :: "Quantity \<Rightarrow> Price \<Rightarrow> OrderType \<Rightarrow> 'z AlgoBase_scheme \<Rightarrow> OrderRequest" where
  "child_request qty price ty a = default_request\<lparr>
     rq_instrument := po_instrument (ab_parent a), rq_side := po_side (ab_parent a), rq_size := qty,
     rq_price := price, rq_type := ty, rq_strategy_id := po_strategy_id (ab_parent a),
     rq_algo_tag := ac_algo_tag (ab_config a), rq_worker_index := ac_worker_index (ab_config a),
     rq_worker_offset := ac_worker_offset (ab_config a)\<rparr>"

definition send_child ::
  "'e ExchangeClient \<Rightarrow> Quantity \<Rightarrow> Price \<Rightarrow> OrderType \<Rightarrow> 'z AlgoBase_scheme \<Rightarrow> 'e OrderManager
     \<Rightarrow> (OrderIdRaw \<times> 'z AlgoBase_scheme \<times> 'e OrderManager) result" where
  "send_child ops qty price ty a om =
     (if qty \<le> 0 \<or> \<not> ac_om (ab_config a) then Inr (0, a, om)
      else case submit ops (child_request qty price ty a) om of
             Inl e \<Rightarrow> Inl e
           | Inr (i, om') \<Rightarrow>
               if i \<noteq> 0 then
                 Inr (i, a\<lparr>ab_children := AList.update i qty (ab_children a),
                           ab_sent_total := ab_sent_total a + qty,
                           ab_stats := (ab_stats a)\<lparr>as_child_orders := as_child_orders (ab_stats a) + 1\<rparr>\<rparr>,
                      om')
               else Inr (0, a, om'))"

definition record_fill :: "Order \<Rightarrow> Quantity \<Rightarrow> 'z AlgoBase_scheme \<Rightarrow> 'z AlgoBase_scheme" where
  "record_fill ord qty a =
     (let filled = ab_filled a + qty;
          a1 = a\<lparr>ab_filled := filled, ab_stats := (ab_stats a)\<lparr>as_filled_qty := filled\<rparr>\<rparr>
      in if map_of (ab_children a) (o_internal_id ord) = None then a1
         else if o_status ord = Filled
              then a1\<lparr>ab_children := AList.delete (o_internal_id ord) (ab_children a1)\<rparr>
              else a1\<lparr>ab_children := AList.update (o_internal_id ord) (remaining ord) (ab_children a1)\<rparr>)"

definition done_when_filled :: "'z AlgoBase_scheme \<Rightarrow> 'z AlgoBase_scheme" where
  "done_when_filled a =
     (if ab_filled a \<ge> po_qty (ab_parent a) then a\<lparr>ab_done := True\<rparr> else a)"

definition base_on_fill :: "Order \<Rightarrow> Quantity \<Rightarrow> Price \<Rightarrow> 'z AlgoBase_scheme \<Rightarrow> 'z AlgoBase_scheme" where
  "base_on_fill ord qty price a = done_when_filled (record_fill ord qty a)"

definition base_on_reject :: "Order \<Rightarrow> RejectReason \<Rightarrow> 'z AlgoBase_scheme \<Rightarrow> 'z AlgoBase_scheme" where
  "base_on_reject ord reason a = a\<lparr>ab_children := AList.delete (o_internal_id ord) (ab_children a)\<rparr>"

definition base_on_cancel :: "Order \<Rightarrow> 'z AlgoBase_scheme \<Rightarrow> 'z AlgoBase_scheme" where
  "base_on_cancel ord a = a\<lparr>ab_children := AList.delete (o_internal_id ord) (ab_children a)\<rparr>"

definition base_cancel :: "'e ExchangeClient \<Rightarrow> 'z AlgoBase_scheme \<Rightarrow> 'e OrderManager \<Rightarrow> 'e OrderManager" where
  "base_cancel ops a om =
     (if \<not> ac_om (ab_config a) then om
      else foldl (\<lambda>om i. snd (cancel ops i om)) om (map fst (ab_children a)))"

definition base_inflight :: "'z AlgoBase_scheme \<Rightarrow> Quantity" where
  "base_inflight a = foldl (\<lambda>n (i, rem). n + rem) 0 (ab_children a)"

text \<open>\<^verbatim>\<open>inflight\<close> is virtual; \<^verbatim>\<open>remaining_quantity\<close> calls the override of the class it runs in.\<close>

definition remaining_quantity :: "('z AlgoBase_scheme \<Rightarrow> Quantity) \<Rightarrow> 'z AlgoBase_scheme \<Rightarrow> Quantity" where
  "remaining_quantity inflight a =
     (let r = po_qty (ab_parent a) - ab_filled a - inflight a in if r > 0 then r else 0)"

definition cross_price :: "MarketDataSource option \<Rightarrow> 'z AlgoBase_scheme \<Rightarrow> Price" where
  "cross_price mds a =
     (case mds of
        None \<Rightarrow> po_limit (ab_parent a)
      | Some src \<Rightarrow>
          let b = mds_top_of_book src (po_instrument (ab_parent a));
              p = (if po_side (ab_parent a) = Buy then tob_ask b else tob_bid b)
          in if p > 0 then p else po_limit (ab_parent a))"

definition algo_log :: "string \<Rightarrow> 'z AlgoBase_scheme \<Rightarrow> 'z AlgoBase_scheme" where
  "algo_log line a = a\<lparr>ab_log := log_line Warn line (ab_log a)\<rparr>"

text \<open>The deadline test both algos end with.\<close>

definition finish_at_deadline :: "('z AlgoBase_scheme \<Rightarrow> Quantity) \<Rightarrow> 'z AlgoBase_scheme \<Rightarrow> 'z AlgoBase_scheme" where
  "finish_at_deadline inflight a =
     (if inflight a = 0 then
        (if ab_filled a < po_qty (ab_parent a)
         then a\<lparr>ab_stats := (ab_stats a)\<lparr>as_incomplete_at_deadline := True\<rparr>, ab_done := True\<rparr>
         else a\<lparr>ab_done := True\<rparr>)
      else a)"

section \<open>TWAP\<close>

definition twap_start :: "ParentOrder \<Rightarrow> TwapAlgo \<Rightarrow> TwapAlgo" where
  "twap_start p a =
     (let n = max 1 (ac_slices (ab_config a));
          span = (if po_end p > po_start p then po_end p - po_start p else 1)
      in a\<lparr>ab_parent := p, ab_stats := (ab_stats a)\<lparr>as_target_qty := po_qty p\<rparr>,
           tw_n := n, tw_slice_dur := max 1 (tdiv span n)\<rparr>)"

definition twap_deadline_cross ::
  "'e ExchangeClient \<Rightarrow> MarketDataSource option \<Rightarrow> TwapAlgo \<Rightarrow> 'e OrderManager
     \<Rightarrow> (TwapAlgo \<times> 'e OrderManager) result" where
  "twap_deadline_cross ops mds a om =
     (if tw_deadline_done a then Inr (a, om)
      else let a1 = a\<lparr>tw_deadline_done := True\<rparr>;
               om1 = base_cancel ops a1 om;
               residual = po_qty (ab_parent a1) - ab_filled a1 - base_inflight a1
           in if residual > 0 then
                let a2 = algo_log (''TWAP deadline: crossing residual='' @ to_string residual) a1
                in case send_child ops residual (cross_price mds a2) IOC a2 om1 of
                     Inl e \<Rightarrow> Inl e | Inr (i, a3, om2) \<Rightarrow> Inr (a3, om2)
              else Inr (a1, om1))"

definition slice_due :: "Timestamp \<Rightarrow> TwapAlgo \<Rightarrow> bool" where
  "slice_due now a \<longleftrightarrow> tw_slices_done a < tw_n a
     \<and> po_start (ab_parent a) + tw_slices_done a * tw_slice_dur a \<le> now"

text \<open>The quantity of the slice about to fire, and the loop that fires every due slice.\<close>

definition slice_quantity :: "TwapAlgo \<Rightarrow> Quantity" where
  "slice_quantity a =
     (let remaining_slices = tw_n a - tw_slices_done a;
          rem = remaining_quantity base_inflight a;
          q = (if remaining_slices \<le> 1 then rem else ceil_div rem remaining_slices)
      in if q > rem then rem else q)"

lemma send_child_twap:
  "send_child ops qty price ty (a :: TwapAlgo) om = Inr (i, a', om') \<Longrightarrow>
   tw_n a' = tw_n a \<and> tw_slices_done a' = tw_slices_done a"
  by (auto simp: send_child_def split: if_splits sum.splits)

function twap_slices ::
  "'e ExchangeClient \<Rightarrow> Timestamp \<Rightarrow> TwapAlgo \<Rightarrow> 'e OrderManager \<Rightarrow> (TwapAlgo \<times> 'e OrderManager) result" where
  "twap_slices ops now a om =
     (if slice_due now a then
        let q = slice_quantity a;
            a1 = a\<lparr>tw_slices_done := tw_slices_done a + 1\<rparr>
        in if q \<le> 0 then twap_slices ops now a1 om
           else case send_child ops q (po_limit (ab_parent a1)) Limit a1 om of
                  Inl e \<Rightarrow> Inl e
                | Inr (i, a2, om1) \<Rightarrow> twap_slices ops now a2 om1
      else Inr (a, om))"
  by pat_completeness auto
termination
  by (relation "measure (\<lambda>(ops, now, a, om). nat (tw_n a - tw_slices_done a))")
    (auto simp: slice_due_def dest!: send_child_twap)

declare twap_slices.simps [simp del]

definition twap_on_timer ::
  "'e ExchangeClient \<Rightarrow> MarketDataSource option \<Rightarrow> Timestamp \<Rightarrow> TwapAlgo \<Rightarrow> 'e OrderManager
     \<Rightarrow> (TwapAlgo \<times> 'e OrderManager) result" where
  "twap_on_timer ops mds now a om =
     (if ab_done a then Inr (a, om)
      else if now \<ge> po_end (ab_parent a) then
        (case twap_deadline_cross ops mds a om of
           Inl e \<Rightarrow> Inl e | Inr (a1, om1) \<Rightarrow> Inr (finish_at_deadline base_inflight a1, om1))
      else
        (case twap_slices ops now a om of
           Inl e \<Rightarrow> Inl e | Inr (a1, om1) \<Rightarrow> Inr (done_when_filled a1, om1)))"

section \<open>POV\<close>

definition pov_start :: "ParentOrder \<Rightarrow> PovAlgo \<Rightarrow> PovAlgo" where
  "pov_start p a = a\<lparr>ab_parent := p, ab_stats := (ab_stats a)\<lparr>as_target_qty := po_qty p\<rparr>,
     pv_last_tick := po_start p\<rparr>"

definition held_twap :: "PovAlgo \<Rightarrow> TwapAlgo option" where
  "held_twap a = (if pv_degraded a then pv_twap a else None)"

definition pov_inflight :: "PovAlgo \<Rightarrow> Quantity" where
  "pov_inflight a = base_inflight a + (case held_twap a of Some t \<Rightarrow> base_inflight t | None \<Rightarrow> 0)"

definition pov_on_fill :: "Order \<Rightarrow> Quantity \<Rightarrow> Price \<Rightarrow> PovAlgo \<Rightarrow> PovAlgo" where
  "pov_on_fill ord qty price a =
     (let a1 = record_fill ord qty a;
          a2 = (if map_of (ab_children a) (o_internal_id ord) \<noteq> None then a1
                else case held_twap a1 of
                       Some t \<Rightarrow> a1\<lparr>pv_twap := Some (base_on_fill ord qty price t)\<rparr> | None \<Rightarrow> a1)
      in done_when_filled a2)"

definition pov_on_reject :: "Order \<Rightarrow> RejectReason \<Rightarrow> PovAlgo \<Rightarrow> PovAlgo" where
  "pov_on_reject ord reason a =
     (if map_of (ab_children a) (o_internal_id ord) \<noteq> None then base_on_reject ord reason a
      else case held_twap a of
             Some t \<Rightarrow> a\<lparr>pv_twap := Some (base_on_reject ord reason t)\<rparr> | None \<Rightarrow> a)"

definition pov_on_cancel :: "Order \<Rightarrow> PovAlgo \<Rightarrow> PovAlgo" where
  "pov_on_cancel ord a =
     (if map_of (ab_children a) (o_internal_id ord) \<noteq> None then base_on_cancel ord a
      else case held_twap a of
             Some t \<Rightarrow> a\<lparr>pv_twap := Some (base_on_cancel ord t)\<rparr> | None \<Rightarrow> a)"

definition pov_cancel :: "'e ExchangeClient \<Rightarrow> PovAlgo \<Rightarrow> 'e OrderManager \<Rightarrow> 'e OrderManager" where
  "pov_cancel ops a om =
     (let om1 = base_cancel ops a om
      in case held_twap a of Some t \<Rightarrow> base_cancel ops t om1 | None \<Rightarrow> om1)"

definition degrade_to_twap :: "Timestamp \<Rightarrow> PovAlgo \<Rightarrow> PovAlgo" where
  "degrade_to_twap now a =
     (let a1 = algo_log ''POV degrading to TWAP over residual window''
                 (a\<lparr>pv_degraded := True, ab_stats := (ab_stats a)\<lparr>as_degraded_to_twap := True\<rparr>\<rparr>);
          tc = (ab_config a1)\<lparr>ac_slices := ac_residual_twap_slices (ab_config a1)\<rparr>;
          a2 = a1\<lparr>pv_twap := Some (twap_new tc (ab_log a1))\<rparr>;
          resid = (ab_parent a2)\<lparr>po_qty := remaining_quantity pov_inflight a2, po_start := now\<rparr>
      in a2\<lparr>pv_twap := Some (twap_start resid (twap_new tc (ab_log a1)))\<rparr>)"

text \<open>\<^verbatim>\<open>twap_->on_timer(now)\<close> on the held algo.\<close>

definition held_on_timer ::
  "'e ExchangeClient \<Rightarrow> MarketDataSource option \<Rightarrow> Timestamp \<Rightarrow> TwapAlgo \<Rightarrow> PovAlgo \<Rightarrow> 'e OrderManager
     \<Rightarrow> (PovAlgo \<times> 'e OrderManager) result" where
  "held_on_timer ops mds now t a om =
     (case twap_on_timer ops mds now t om of
        Inl e \<Rightarrow> Inl e | Inr (t', om') \<Rightarrow> Inr (a\<lparr>pv_twap := Some t'\<rparr>, om'))"

definition pov_deadline_cross ::
  "'e ExchangeClient \<Rightarrow> MarketDataSource option \<Rightarrow> Timestamp \<Rightarrow> PovAlgo \<Rightarrow> 'e OrderManager
     \<Rightarrow> (PovAlgo \<times> 'e OrderManager) result" where
  "pov_deadline_cross ops mds now a om =
     (if pv_deadline_done a then Inr (a, om)
      else let a1 = a\<lparr>pv_deadline_done := True\<rparr>
           in case held_twap a1 of
                Some t \<Rightarrow> held_on_timer ops mds now t a1 om
              | None \<Rightarrow>
                  let om1 = pov_cancel ops a1 om;
                      residual = po_qty (ab_parent a1) - ab_filled a1
                  in if residual > 0 then
                       let a2 = algo_log (''POV deadline: crossing residual='' @ to_string residual) a1
                       in case send_child ops residual (cross_price mds a2) IOC a2 om1 of
                            Inl e \<Rightarrow> Inl e | Inr (i, a3, om2) \<Rightarrow> Inr (a3, om2)
                     else Inr (a1, om1))"

definition rate_of :: "double \<Rightarrow> Quantity \<Rightarrow> Quantity" where
  "rate_of rate volume = to_i64 (d_mul rate (of_i64 volume))"

text \<open>The body of \<^verbatim>\<open>on_timer\<close> after the observation of the interval's volume.\<close>

definition pov_interval ::
  "'e ExchangeClient \<Rightarrow> MarketDataSource option \<Rightarrow> Timestamp \<Rightarrow> Quantity \<Rightarrow> PovAlgo \<Rightarrow> 'e OrderManager
     \<Rightarrow> (PovAlgo \<times> 'e OrderManager) result" where
  "pov_interval ops mds now vol a om =
     (let cfg = ab_config a in
      if vol < ac_min_volume_floor cfg \<or> vol \<le> 0 then
        Inr (a\<lparr>ab_stats := (ab_stats a)\<lparr>as_idle_intervals := as_idle_intervals (ab_stats a) + 1\<rparr>\<rparr>, om)
      else
        let expected = rate_of (ac_participation_rate cfg) (pv_market_volume a);
            shortfall = expected - ab_filled a
        in if ac_catch_up_threshold cfg > 0 \<and> shortfall > ac_catch_up_threshold cfg then
             (let a1 = degrade_to_twap now a
              in case pv_twap a1 of
                   Some t \<Rightarrow> held_on_timer ops mds now t a1 om | None \<Rightarrow> Inr (a1, om))
           else
             let want = rate_of (ac_participation_rate cfg) vol;
                 rem = remaining_quantity pov_inflight a;
                 child = (if want > rem then rem else want)
             in if child \<le> 0 then Inr (a, om)
                else case send_child ops child (po_limit (ab_parent a)) Limit a om of
                       Inl e \<Rightarrow> Inl e | Inr (i, a1, om1) \<Rightarrow> Inr (a1, om1))"

definition pov_on_timer ::
  "'e ExchangeClient \<Rightarrow> MarketDataSource option \<Rightarrow> Timestamp \<Rightarrow> PovAlgo \<Rightarrow> 'e OrderManager
     \<Rightarrow> (PovAlgo \<times> 'e OrderManager) result" where
  "pov_on_timer ops mds now a om =
     (if ab_done a then Inr (a, om)
      else if now \<ge> po_end (ab_parent a) then
        (case pov_deadline_cross ops mds now a om of
           Inl e \<Rightarrow> Inl e | Inr (a1, om1) \<Rightarrow> Inr (finish_at_deadline pov_inflight a1, om1))
      else case held_twap a of
        Some t \<Rightarrow>
          (case held_on_timer ops mds now t a om of
             Inl e \<Rightarrow> Inl e
           | Inr (a1, om1) \<Rightarrow>
               Inr (case pv_twap a1 of
                      Some t' \<Rightarrow> if ab_done t' then a1\<lparr>ab_done := True\<rparr> else a1 | None \<Rightarrow> a1, om1))
      | None \<Rightarrow>
          let vol = (case mds of Some src \<Rightarrow> mds_volume_since src (po_instrument (ab_parent a)) (pv_last_tick a)
                               | None \<Rightarrow> 0);
              a1 = a\<lparr>pv_last_tick := now, pv_market_volume := pv_market_volume a + vol,
                     ab_stats := (ab_stats a)\<lparr>as_market_volume := pv_market_volume a + vol\<rparr>\<rparr>
          in pov_interval ops mds now vol a1 om)"

section \<open>Factory and dispatcher\<close>

datatype Algo = Twap TwapAlgo | Pov PovAlgo

definition algo_create :: "string \<Rightarrow> AlgoConfig \<Rightarrow> log_sink \<Rightarrow> Algo" where
  "algo_create ty cfg sink =
     (if ty = ''twap'' then Twap (twap_new cfg sink)
      else if ty = ''pov'' then Pov (pov_new cfg sink)
      else Twap (twap_new cfg sink))"

text \<open>The virtual calls of the dispatcher.\<close>

fun algo_on_fill :: "Order \<Rightarrow> Quantity \<Rightarrow> Price \<Rightarrow> Algo \<Rightarrow> Algo" where
  "algo_on_fill ord qty price (Twap a) = Twap (base_on_fill ord qty price a)"
| "algo_on_fill ord qty price (Pov a) = Pov (pov_on_fill ord qty price a)"

fun algo_on_reject :: "Order \<Rightarrow> RejectReason \<Rightarrow> Algo \<Rightarrow> Algo" where
  "algo_on_reject ord reason (Twap a) = Twap (base_on_reject ord reason a)"
| "algo_on_reject ord reason (Pov a) = Pov (pov_on_reject ord reason a)"

fun algo_on_cancel :: "Order \<Rightarrow> Algo \<Rightarrow> Algo" where
  "algo_on_cancel ord (Twap a) = Twap (base_on_cancel ord a)"
| "algo_on_cancel ord (Pov a) = Pov (pov_on_cancel ord a)"

type_synonym Reg = "Algo \<times> int \<times> int"

definition register_algo :: "Algo \<Rightarrow> int \<Rightarrow> int \<Rightarrow> Reg list \<Rightarrow> Reg list" where
  "register_algo algo worker_offset worker_index regs = regs @ [(algo, worker_offset, worker_index)]"

definition deliver_to :: "OrderEvent \<Rightarrow> Order \<Rightarrow> Algo \<Rightarrow> Algo" where
  "deliver_to e ord algo =
     (case ev_kind e of
        EvPartialFill \<Rightarrow> algo_on_fill ord (ev_last_qty e) (ev_last_price e) algo
      | EvFill \<Rightarrow> algo_on_fill ord (ev_last_qty e) (ev_last_price e) algo
      | EvRejected \<Rightarrow> algo_on_reject ord (ev_reason e) algo
      | EvCancelled \<Rightarrow> algo_on_cancel ord algo
      | EvUnsolicitedCancel \<Rightarrow> algo_on_cancel ord algo
      | EvConfirmed \<Rightarrow> algo)"

fun dispatch_regs :: "OrderEvent \<Rightarrow> Order \<Rightarrow> Reg list \<Rightarrow> Reg list result" where
  "dispatch_regs e ord [] = Inr []"
| "dispatch_regs e ord ((algo, offset, index) # regs) =
     (case retrieve_int_data offset ord of
        Inl err \<Rightarrow> Inl err
      | Inr v \<Rightarrow>
          (case dispatch_regs e ord regs of
             Inl err \<Rightarrow> Inl err
           | Inr regs' \<Rightarrow>
               Inr ((if v \<noteq> index then algo else deliver_to e ord algo, offset, index) # regs')))"

text \<open>\<^verbatim>\<open>on_order_event\<close>, with the state of the manager the subscriber sees.\<close>

definition on_order_event :: "OrderEvent \<Rightarrow> 'e OrderManager \<Rightarrow> Reg list \<Rightarrow> Reg list result" where
  "on_order_event e om regs =
     (case find_order om (ev_internal_id e) of
        None \<Rightarrow> Inr regs | Some ord \<Rightarrow> dispatch_regs e ord regs)"

end
