(* ===== verification/AlgoProps.thy ===== *)
theory AlgoProps
  imports ExecutionAlgo OmLedger
begin

text \<open>
  The execution algos on the order manager. A TWAP algo and the manager step together: timer
  calls, events of the algo's children with the subscriber call the manager makes, and whatever
  else happens at the manager. Along every such run the algo never has more out than it was
  asked for. The POV algo has no such bound at its deadline.
\<close>

section \<open>Children and open orders\<close>

definition open_left :: "'e OrderManager \<Rightarrow> OrderIdRaw \<Rightarrow> Quantity option" where
  "open_left om i = (if i \<in> om_live om then Some (remaining (order_ref om i)) else None)"

lemma open_left_ledger:
  "open_left om i = map_option (\<lambda>(inst, sd, sz, filled). sz - filled) (lg_open (ledger_of om) i)"
  by (simp add: open_left_def ledger_of_def econ_def remaining_def)

lemma same_ledger_open_left: "ledger_of om' = ledger_of om \<Longrightarrow> open_left om' = open_left om"
  by (simp add: open_left_ledger fun_eq_iff)

lemma base_inflight_sum: "base_inflight a = sum_list (map snd (ab_children a))"
proof -
  have "foldl (\<lambda>n (i, rem). n + rem) k xs = k + sum_list (map snd xs)"
    for k :: int and xs :: "(OrderIdRaw \<times> int) list"
    by (induction xs arbitrary: k) auto
  then show ?thesis by (simp add: base_inflight_def)
qed

lemma sum_update_new:
  "i \<notin> fst ` set xs \<Longrightarrow> sum_list (map snd (AList.update i (q :: int) xs)) = sum_list (map snd xs) + q"
  by (induction xs) (auto simp: image_iff)

lemma sum_update_old:
  "distinct (map fst xs) \<Longrightarrow> map_of xs i = Some r \<Longrightarrow>
   sum_list (map snd (AList.update i (q :: int) xs)) = sum_list (map snd xs) - r + q"
  by (induction xs) (auto split: if_splits)

lemma sum_delete:
  "distinct (map fst xs) \<Longrightarrow> map_of xs i = Some (r :: int) \<Longrightarrow>
   sum_list (map snd (AList.delete i xs)) = sum_list (map snd xs) - r"
proof (induction xs)
  case (Cons x xs)
  have "fst x = i \<Longrightarrow> AList.delete i xs = xs"
    using Cons.prems(1) by (auto intro!: delete_id)
  then show ?case using Cons by (cases x) (auto simp: AList.delete_eq split: if_splits)
qed simp

text \<open>
  What keeps a TWAP algo safe: its children are open orders of the manager with the remainder it
  has noted, and what is filled plus what is in flight is within the parent quantity.
\<close>

definition twap_safe :: "ParentOrder \<Rightarrow> 'e OrderManager \<Rightarrow> TwapAlgo \<Rightarrow> bool" where
  "twap_safe p om a \<longleftrightarrow> om_inv om \<and> ab_parent a = p
     \<and> 0 \<le> ac_worker_offset (ab_config a) \<and> ac_worker_offset (ab_config a) < 4
     \<and> distinct (map fst (ab_children a))
     \<and> (\<forall>i r. map_of (ab_children a) i = Some r \<longrightarrow> open_left om i = Some r)
     \<and> ab_filled a + base_inflight a \<le> po_qty p"

lemma twap_safe_frame:
  assumes "twap_safe p om a" and "om_inv om'"
    and "\<And>i r. map_of (ab_children a) i = Some r \<Longrightarrow> open_left om i = Some r \<Longrightarrow> open_left om' i = Some r"
    and "ab_parent a' = ab_parent a" and "ab_config a' = ab_config a" and "ab_children a' = ab_children a"
    and "ab_filled a' = ab_filled a"
  shows "twap_safe p om' a'"
  using assms by (simp add: twap_safe_def base_inflight_def)

lemma inflight_nonneg:
  assumes "twap_safe p om a"
  shows "0 \<le> base_inflight a"
proof -
  have "0 \<le> r" if "(i, r) \<in> set (ab_children a)" for i r
  proof -
    have "open_left om i = Some r" using that assms by (auto simp: twap_safe_def)
    then have "i \<in> om_live om" "r = remaining (order_ref om i)" by (auto simp: open_left_def split: if_splits)
    then show ?thesis using om_inv_good [of om i] assms
      by (auto simp: twap_safe_def good_order_def remaining_def)
  qed
  then show ?thesis unfolding base_inflight_sum by (intro sum_list_nonneg) auto
qed

section \<open>Sending and cancelling\<close>

lemma submit_open_left:
  assumes "om_inv om" and "valid_request req" and "submit ops req om = Inr (j, om')"
  shows "om_inv om'" and "\<And>i r. open_left om i = Some r \<Longrightarrow> open_left om' i = Some r"
    and "j \<in> om_live om' \<Longrightarrow> j \<notin> om_live om \<Longrightarrow> open_left om' j = Some (rq_size req)"
proof -
  show "om_inv om'" using submit_ok [OF assms(1,2), of ops] assms(3) by (metis Inr_inject prod.inject)
  consider "ledger_of om' = ledger_of om" "om_live om' = om_live om"
    | "j \<notin> om_live om" "ledger_of om' = ledger_open j (rq_instrument req) (rq_side req) (rq_size req) (ledger_of om)"
    using submit_ledger [OF assms] by blast
  note cases = this
  show "open_left om i = Some r \<Longrightarrow> open_left om' i = Some r" for i r
    using cases
  proof cases
    case 1
    show "open_left om i = Some r \<Longrightarrow> open_left om' i = Some r"
      unfolding same_ledger_open_left [OF 1(1)] .
  next
    case 2
    then have "j \<noteq> i" if "open_left om i = Some r" using that by (auto simp: open_left_def)
    with 2 show "open_left om i = Some r \<Longrightarrow> open_left om' i = Some r"
      by (auto simp: open_left_ledger ledger_open_def)
  qed
  show "j \<in> om_live om' \<Longrightarrow> j \<notin> om_live om \<Longrightarrow> open_left om' j = Some (rq_size req)"
    using cases by cases (auto simp: open_left_ledger ledger_open_def)
qed

text \<open>A nonzero id is the id of a fresh open order.\<close>

lemma submit_nonzero:
  assumes "om_inv om" and "valid_request req" and "submit ops req om = Inr (j, om')" and "j \<noteq> 0"
  shows "j \<notin> om_live om \<and> j \<in> om_live om'"
proof -
  have zero: "submit ops req om = Inr (0, x) \<Longrightarrow> j \<notin> om_live om \<and> j \<in> om_live om'" for x
    using assms(3,4) by simp
  show ?thesis
proof (rule submit_cases [OF assms(1,2), of ops])
  fix venue ex i s1 r ex'
  assume a: "reserve_order req venue om = Inr (i, s1)" "ec_place_order ops (order_ref s1 i) ex = (r, ex')"
    "place_reserved ops req venue ex i s1 = submit ops req om"
    "\<not> pool_full (om_pool om)" "venue \<in> hm_registered (om_health om)"
  show ?thesis
  proof (rule reserve_order_ok [OF assms(1) a(4) assms(2) a(5)], goal_cases)
    case (1 i' s1' ord)
    with a(1) have eq: "i' = i" "s1' = s1" by auto
    note b = 1 [unfolded eq]
    have i: "i \<in> om_live s1" using b(5) by simp
    note pl = place_reserved_ok [OF b(2) i assms(2) _ _ _ _ b(13) a(2)]
    show ?thesis
    proof (rule pl)
      fix t assume "place_reserved ops req venue ex i s1 = Inr (i, t)" "om_live t = om_live s1"
      then show ?thesis using a(3) assms(3) b(3,5) by auto
    next
      fix t assume "place_reserved ops req venue ex i s1 = Inr (0, t)"
      then show ?thesis using a(3) assms(3,4) by simp
    qed (use b in simp_all)
  qed
qed (erule zero)+
qed

lemma child_request_valid:
  "0 \<le> qty \<Longrightarrow> 0 \<le> ac_worker_offset (ab_config a) \<Longrightarrow> ac_worker_offset (ab_config a) < 4
     \<Longrightarrow> valid_request (child_request qty price ty a)"
  by (simp add: valid_request_def child_request_def)

lemma child_request_size [simp]: "rq_size (child_request qty price ty a) = qty"
  by (simp add: child_request_def)

lemma send_child_cases:
  fixes a :: "'z AlgoBase_scheme"
  assumes "om_inv om" and "0 \<le> ac_worker_offset (ab_config a)" and "ac_worker_offset (ab_config a) < 4"
    and "send_child ops qty price ty a om = Inr (i, a', om')"
    and "\<And>j r. map_of (ab_children a) j = Some r \<Longrightarrow> open_left om j = Some r"
  shows "om_inv om' \<and> (\<forall>j r. open_left om j = Some r \<longrightarrow> open_left om' j = Some r)
    \<and> (a' = a \<or> (i \<noteq> 0 \<and> i \<notin> fst ` set (ab_children a) \<and> open_left om' i = Some qty
         \<and> ab_children a' = AList.update i qty (ab_children a) \<and> ab_parent a' = ab_parent a
         \<and> ab_config a' = ab_config a \<and> ab_filled a' = ab_filled a \<and> ab_log a' = ab_log a
         \<and> AlgoBase.more a' = AlgoBase.more a))"
proof (cases "qty \<le> 0 \<or> \<not> ac_om (ab_config a)")
  case True
  then show ?thesis using assms(1,4) by (auto simp: send_child_def)
next
  case False
  let ?req = "child_request qty price ty a"
  have req: "valid_request ?req" using False assms(2,3) by (intro child_request_valid) auto
  obtain j om1 where sub: "submit ops ?req om = Inr (j, om1)"
    using False assms(4) by (auto simp: send_child_def split: sum.splits)
  note op = submit_open_left [OF assms(1) req sub]
  show ?thesis
  proof (cases "j = 0")
    case True
    then show ?thesis using False assms(4) sub op by (auto simp: send_child_def)
  next
    case nz: False
    note fresh = submit_nonzero [OF assms(1) req sub nz]
    have "j \<notin> fst ` set (ab_children a)"
    proof
      assume "j \<in> fst ` set (ab_children a)"
      then obtain r where "map_of (ab_children a) j = Some r"
        by (metis domD dom_map_of_conv_image_fst)
      from assms(5) [OF this] fresh show False by (simp add: open_left_def)
    qed
    moreover have "open_left om1 j = Some qty" using op(3) fresh by simp
    moreover have "i = j" "om' = om1" "a' = a\<lparr>ab_children := AList.update j qty (ab_children a),
        ab_sent_total := ab_sent_total a + qty,
        ab_stats := (ab_stats a)\<lparr>as_child_orders := as_child_orders (ab_stats a) + 1\<rparr>\<rparr>"
      using False assms(4) sub nz by (auto simp: send_child_def)
    ultimately show ?thesis using op(1,2) nz by simp
  qed
qed

lemma send_child_safe:
  assumes "twap_safe p om a" and "qty \<le> po_qty p - ab_filled a - base_inflight a"
    and "send_child ops qty price ty a om = Inr (i, a', om')"
  shows "twap_safe p om' a'"
proof -
  have pre: "om_inv om" "0 \<le> ac_worker_offset (ab_config a)" "ac_worker_offset (ab_config a) < 4"
    "\<And>j r. map_of (ab_children a) j = Some r \<Longrightarrow> open_left om j = Some r"
    using assms(1) by (auto simp: twap_safe_def)
  from send_child_cases [OF pre(1-3) assms(3) pre(4)]
  consider "a' = a" "om_inv om'" "\<And>j r. open_left om j = Some r \<Longrightarrow> open_left om' j = Some r"
    | "i \<notin> fst ` set (ab_children a)" "open_left om' i = Some qty"
      "ab_children a' = AList.update i qty (ab_children a)" "ab_parent a' = ab_parent a"
      "ab_config a' = ab_config a" "ab_filled a' = ab_filled a" "om_inv om'"
      "\<And>j r. open_left om j = Some r \<Longrightarrow> open_left om' j = Some r" by blast
  then show ?thesis
  proof cases
    case 1
    then show ?thesis using twap_safe_frame [OF assms(1), of om' a'] by simp
  next
    case 2
    have "base_inflight a' = base_inflight a + qty"
      using 2(1) by (simp add: base_inflight_sum 2(3) sum_update_new)
    then show ?thesis
      using assms(1,2) 2 by (auto simp: twap_safe_def update_conv' distinct_update split: if_splits)
  qed
qed

lemma cancel_open_left:
  assumes "om_inv om" and "i \<in> om_live om"
  shows "om_inv (snd (cancel ops i om))" and "open_left (snd (cancel ops i om)) = open_left om"
    and "om_live (snd (cancel ops i om)) = om_live om"
proof -
  have gen: "genuine om i" by (rule om_live_genuine [OF assms])
  show "om_inv (snd (cancel ops i om))" using cancel_inv [OF assms(1) gen] by blast
  note same = same_econ_cancel [OF assms(1) gen, of ops]
  show "open_left (snd (cancel ops i om)) = open_left om"
    by (rule same_ledger_open_left [OF same_econ_ledger [OF same]])
  show "om_live (snd (cancel ops i om)) = om_live om" using same by (simp add: same_econ_def)
qed

lemma base_cancel_open_left:
  assumes "om_inv om" and "\<And>i. i \<in> fst ` set (ab_children a) \<Longrightarrow> i \<in> om_live om"
  shows "om_inv (base_cancel ops a om) \<and> open_left (base_cancel ops a om) = open_left om"
proof -
  have "om_inv t \<and> open_left t = open_left om \<and> om_live t = om_live om"
    if "t = foldl (\<lambda>om i. snd (cancel ops i om)) om is" "set is \<subseteq> om_live om" for t "is"
    using that
  proof (induction "is" arbitrary: t rule: rev_induct)
    case (snoc i "is")
    let ?u = "foldl (\<lambda>om i. snd (cancel ops i om)) om is"
    have u: "om_inv ?u" "open_left ?u = open_left om" "om_live ?u = om_live om" using snoc by auto
    have "i \<in> om_live ?u" using snoc.prems(2) u(3) by simp
    with cancel_open_left [OF u(1) this, of ops] u snoc.prems(1) show ?case by simp
  qed (use assms(1) in simp)
  from this [OF refl, of "map fst (ab_children a)"] assms show ?thesis
    by (auto simp: base_cancel_def)
qed


section \<open>The timer\<close>

lemma remaining_quantity_le:
  "0 < remaining_quantity inflight a \<Longrightarrow> remaining_quantity inflight a = po_qty (ab_parent a) - ab_filled a - inflight a"
  by (simp add: remaining_quantity_def Let_def split: if_splits)

lemma slice_quantity_le: "slice_quantity a \<le> remaining_quantity base_inflight a"
  by (simp add: slice_quantity_def Let_def)

lemma twap_slices_safe:
  assumes "twap_safe p om a" and "twap_slices ops now a om = Inr (a', om')"
  shows "twap_safe p om' a'"
  using assms
proof (induction ops now a om arbitrary: a' om' rule: twap_slices.induct)
  case (1 ops now a om)
  let ?q = "slice_quantity a"
  let ?a1 = "a\<lparr>tw_slices_done := tw_slices_done a + 1\<rparr>"
  have a1: "twap_safe p om ?a1"
    using "1.prems"(1) by (rule twap_safe_frame) (use "1.prems"(1) in \<open>simp_all add: twap_safe_def\<close>)
  note eq = "1.prems"(2) [unfolded twap_slices.simps [of ops now a om] Let_def]
  show ?case
  proof (cases "slice_due now a")
    case False
    then show ?thesis using eq "1.prems"(1) by simp
  next
    case due: True
    show ?thesis
    proof (cases "?q \<le> 0")
      case True
      then show ?thesis using "1.IH"(1) [OF due refl refl _ a1] eq due by simp
    next
      case False
      have "?q \<le> po_qty p - ab_filled ?a1 - base_inflight ?a1"
        using False slice_quantity_le [of a] remaining_quantity_le [of base_inflight a] "1.prems"(1)
        by (simp add: twap_safe_def base_inflight_def)
      moreover obtain i a2 om1 where s: "send_child ops ?q (po_limit (ab_parent ?a1)) Limit ?a1 om = Inr (i, a2, om1)"
        using eq due False by (auto split: sum.splits)
      ultimately have "twap_safe p om1 a2" by (rule send_child_safe [OF a1])
      moreover have "twap_slices ops now a2 om1 = Inr (a', om')" using eq due False s by simp
      ultimately show ?thesis using "1.IH"(2) [OF due refl refl False s refl refl] by blast
    qed
  qed
qed

lemma twap_deadline_safe:
  assumes "twap_safe p om a" and "twap_deadline_cross ops mds a om = Inr (a', om')"
  shows "twap_safe p om' a'"
proof (cases "tw_deadline_done a")
  case True
  then show ?thesis using assms by (simp add: twap_deadline_cross_def)
next
  case False
  let ?a1 = "a\<lparr>tw_deadline_done := True\<rparr>"
  let ?om1 = "base_cancel ops ?a1 om"
  have "i \<in> om_live om" if "i \<in> fst ` set (ab_children ?a1)" for i
  proof -
    have "i \<in> dom (map_of (ab_children a))" using that by (simp add: dom_map_of_conv_image_fst)
    then obtain r where "map_of (ab_children a) i = Some r" by blast
    then have "open_left om i = Some r" using assms(1) by (simp add: twap_safe_def)
    then show ?thesis by (simp add: open_left_def split: if_splits)
  qed
  with base_cancel_open_left [of om ?a1 ops] assms(1)
  have c: "om_inv ?om1" "open_left ?om1 = open_left om" by (auto simp: twap_safe_def)
  define residual where "residual = po_qty (ab_parent ?a1) - ab_filled ?a1 - base_inflight ?a1"
  show ?thesis
  proof (cases "residual > 0")
    case False
    then have "a' = ?a1" "om' = ?om1"
      using assms(2) \<open>\<not> tw_deadline_done a\<close> by (auto simp: twap_deadline_cross_def Let_def residual_def)
    then show ?thesis using twap_safe_frame [OF assms(1) c(1), of ?a1] c(2) by simp
  next
    case True
    let ?a2 = "algo_log (''TWAP deadline: crossing residual='' @ to_string residual) ?a1"
    have a2: "twap_safe p ?om1 ?a2"
      using assms(1) c(1) by (rule twap_safe_frame) (simp_all add: c(2) algo_log_def)
    have "residual \<le> po_qty p - ab_filled ?a2 - base_inflight ?a2"
      using assms(1) by (simp add: residual_def twap_safe_def algo_log_def base_inflight_def)
    moreover have "twap_deadline_cross ops mds a om
        = (case send_child ops residual (cross_price mds ?a2) IOC ?a2 ?om1 of
             Inl e \<Rightarrow> Inl e | Inr (i, a3, om2) \<Rightarrow> Inr (a3, om2))"
      using \<open>\<not> tw_deadline_done a\<close> True
      unfolding twap_deadline_cross_def Let_def residual_def [symmetric] by (simp only: if_True if_False)
    then obtain i where "send_child ops residual (cross_price mds ?a2) IOC ?a2 ?om1 = Inr (i, a', om')"
      using assms(2) by (auto split: sum.splits)
    ultimately show ?thesis by (rule send_child_safe [OF a2])
  qed
qed

lemma done_when_filled_safe: "twap_safe p om a \<Longrightarrow> twap_safe p om (done_when_filled a)"
  by (auto simp: done_when_filled_def twap_safe_def base_inflight_def)

lemma finish_at_deadline_safe: "twap_safe p om a \<Longrightarrow> twap_safe p om (finish_at_deadline f a)"
  by (auto simp: finish_at_deadline_def twap_safe_def base_inflight_def)

lemma twap_on_timer_safe:
  assumes "twap_safe p om a" and "twap_on_timer ops mds now a om = Inr (a', om')"
  shows "twap_safe p om' a'"
proof -
  consider "a' = a" "om' = om"
    | a1 where "twap_deadline_cross ops mds a om = Inr (a1, om')" "a' = finish_at_deadline base_inflight a1"
    | a1 where "twap_slices ops now a om = Inr (a1, om')" "a' = done_when_filled a1"
    using assms(2) by (auto simp: twap_on_timer_def split: if_splits sum.splits)
  then show ?thesis
  proof cases
    case 2
    then show ?thesis using finish_at_deadline_safe [OF twap_deadline_safe [OF assms(1)]] by blast
  next
    case 3
    then show ?thesis using done_when_filled_safe [OF twap_slices_safe [OF assms(1)]] by blast
  qed (use assms(1) in simp)
qed


section \<open>Events\<close>

text \<open>
  The subscriber call of the dispatcher for one registered TWAP algo whose tag the order carries:
  it looks the order up in the state it sees and calls the algo.
\<close>

definition twap_hears :: "'e published \<Rightarrow> TwapAlgo \<Rightarrow> TwapAlgo" where
  "twap_hears evs a =
     foldl (\<lambda>a (e, seen). case find_order seen (ev_internal_id e) of
         None \<Rightarrow> a
       | Some ord \<Rightarrow> (case deliver_to e ord (Twap a) of Twap a' \<Rightarrow> a' | Pov _ \<Rightarrow> a)) a evs"

lemma with_health_pool: "with_health f s = Inr s' \<Longrightarrow> om_pool s' = om_pool s"
  by (auto simp: with_health_def elim!: ebind_InrE)

lemma validate_current: "validate i cx s = ValidOk \<Longrightarrow> is_current i (om_pool s)"
  by (simp add: validate_def split: if_splits)

lemma put_order_current [simp]: "is_current i (om_pool (put_order j ord s)) = is_current i (om_pool s)"
  by (simp add: put_order_def)

lemma published_fill_current:
  assumes "on_fill i qty price trade ts s = Inr (s', evs)" and "(e, seen) \<in> set evs"
  shows "is_current i (om_pool seen)"
proof -
  have ok: "validate i \<lparr>cx_kind = KFill, cx_trade_id = trade, cx_qty = qty, cx_price = price\<rparr> s = ValidOk"
    using assms by (auto simp: on_fill_def Let_def split: if_splits)
  obtain s1 where h: "with_health (health_on_fill (venue_of i)) (book_fill i qty price trade ts s) = Inr s1"
    and "seen = s1"
    using assms ok by (auto simp: on_fill_def Let_def elim!: ebind_InrE split: if_splits)
  then show ?thesis using with_health_pool [OF h] validate_current [OF ok] by simp
qed

lemma published_cancel_current:
  assumes "finish_cancel i ts kind pub uns s = Inr (s', evs)" and "(e, seen) \<in> set evs"
  shows "is_current i (om_pool seen)"
proof -
  have ok: "validate i (plain_context kind) s = ValidOk"
    using assms by (auto simp: finish_cancel_def Let_def split: if_splits)
  have "om_pool seen = om_pool (put_order i ord s)" if "ord = (order_ref s i)\<lparr>o_pending_cancel := False,
      o_status := Cancelled, o_ts := (o_ts (order_ref s i))\<lparr>ts_terminal := ts\<rparr>\<rparr>" for ord
    using assms ok that by (auto simp: finish_cancel_def Let_def elim!: ebind_InrE simp del: append.simps)
  then show ?thesis using validate_current [OF ok] by simp
qed

lemma published_reject_current:
  assumes "on_reject i reason ts s = Inr (s', evs)" and "(e, seen) \<in> set evs"
  shows "is_current i (om_pool seen)"
proof -
  have nc: "reason \<noteq> CancelRejectedReason" and ok: "validate i (plain_context KReject) s = ValidOk"
    using assms by (auto simp: on_reject_def Let_def elim!: ebind_InrE split: if_splits simp del: append.simps)
  obtain s1 ord where h: "with_health (health_on_reject (venue_of i) False)
      ((put_order i ord s)\<lparr>om_reject_count := om_reject_count s + 1\<rparr>) = Inr s1" and "seen = s1"
    using assms nc ok by (auto simp: on_reject_def Let_def elim!: ebind_InrE)
  then show ?thesis using with_health_pool [OF h] validate_current [OF ok] by simp
qed

text \<open>What the algo does with one event about its child.\<close>

lemma twap_hears_one:
  assumes "is_current i (om_pool seen)" and "order_ref seen i = ord" and "ev_internal_id e = i"
  shows "twap_hears [(e, seen)] a = (case deliver_to e ord (Twap a) of Twap a' \<Rightarrow> a' | Pov _ \<Rightarrow> a)"
  using assms by (simp add: twap_hears_def find_order_def)

lemma mk_event_id [simp]: "ev_internal_id (mk_event k i ord q p r ts) = i" "ev_kind (mk_event k i ord q p r ts) = k"
  "ev_last_qty (mk_event k i ord q p r ts) = q" "ev_last_price (mk_event k i ord q p r ts) = p"
  by (simp_all add: mk_event_def)

lemma twap_fill_safe:
  assumes safe: "twap_safe p om a" and child: "map_of (ab_children a) i = Some r"
    and fill: "on_fill i qty price trade ts om = Inr (om', evs)"
  shows "twap_safe p om' (twap_hears evs a)"
proof -
  have inv: "om_inv om" and left: "open_left om i = Some r" using safe child by (auto simp: twap_safe_def)
  then have i: "i \<in> om_live om" and r: "r = remaining (order_ref om i)"
    by (auto simp: open_left_def split: if_splits)
  have gen: "genuine om i" by (rule om_live_genuine [OF inv i])
  let ?ord = "filled_order qty price ts (order_ref om i)"
  have oid: "o_internal_id ?ord = i"
    using om_inv_good [OF inv i] by (simp add: good_order_def filled_order_def Let_def)
  have dist: "distinct (map fst (ab_children a))" using safe by (simp add: twap_safe_def)
  show ?thesis
  proof (cases rule: on_fill_cases [OF inv gen, where qty = qty and price = price and ts = ts and trade = trade])
    case (1 vr)
    with fill have eq: "om' = reject_fill i vr ts om" "evs = []" by auto
    have "om_inv om'" using inv by (simp add: eq)
    moreover have "open_left om' = open_left om" by (simp add: eq open_left_def fun_eq_iff order_ref_def)
    ultimately show ?thesis using twap_safe_frame [OF safe, of om' a] by (simp add: eq(2) twap_hears_def)
  next
    case (2 s1)
    with fill have eq: "om' = s1" "evs = [(mk_event EvPartialFill i ?ord qty price ReasonUnknown ts, s1)]" by auto
    have st: "o_status ?ord \<noteq> Filled" "remaining ?ord = r - qty"
      using 2(4) by (simp_all add: filled_order_def Let_def remaining_def r)
    have cur: "is_current i (om_pool s1)" using published_fill_current [OF fill] eq(2) by simp
    have heard: "twap_hears evs a = base_on_fill ?ord qty price a"
      using twap_hears_one [OF cur 2(8)] by (simp add: eq(2) deliver_to_def)
    let ?a' = "base_on_fill ?ord qty price a"
    have ch: "ab_children ?a' = AList.update i (r - qty) (ab_children a)"
      "ab_filled ?a' = ab_filled a + qty" "ab_parent ?a' = ab_parent a" "ab_config ?a' = ab_config a"
      using st child oid by (simp_all add: base_on_fill_def record_fill_def done_when_filled_def Let_def)
    have infl: "base_inflight ?a' = base_inflight a - qty"
      using sum_update_old [OF dist child, of "r - qty"] by (simp add: base_inflight_sum ch)
    have "open_left om' j = Some q" if "map_of (ab_children ?a') j = Some q" for j q
    proof (cases "j = i")
      case True
      then have "q = r - qty" using that by (simp add: ch update_conv')
      then show ?thesis using True i 2(8,9) st by (simp add: eq open_left_def)
    next
      case False
      then have "map_of (ab_children a) j = Some q" using that by (simp add: ch update_conv')
      then have "open_left om j = Some q" using safe by (simp add: twap_safe_def)
      then show ?thesis using 2(9) 2(13) [of j] False by (simp add: eq open_left_def split: if_splits)
    qed
    then show ?thesis
      using safe 2(7) infl unfolding heard by (simp add: twap_safe_def ch eq(1) distinct_update)
  next
    case (3 s1 s2)
    with fill have eq: "om' = s2" "evs = [(mk_event EvFill i ?ord qty price ReasonUnknown ts, s1)]" by auto
    have st: "o_status ?ord = Filled" "qty = r"
      using 3(4) by (simp_all add: filled_order_def Let_def remaining_def r)
    have cur: "is_current i (om_pool s1)" using published_fill_current [OF fill] eq(2) by simp
    have heard: "twap_hears evs a = base_on_fill ?ord qty price a"
      using twap_hears_one [OF cur 3(8)] by (simp add: eq(2) deliver_to_def)
    let ?a' = "base_on_fill ?ord qty price a"
    have ch: "ab_children ?a' = AList.delete i (ab_children a)"
      "ab_filled ?a' = ab_filled a + qty" "ab_parent ?a' = ab_parent a" "ab_config ?a' = ab_config a"
      using st child oid by (simp_all add: base_on_fill_def record_fill_def done_when_filled_def Let_def)
    have infl: "base_inflight ?a' = base_inflight a - qty"
      unfolding base_inflight_sum ch(1) using sum_delete [OF dist child] st(2) by simp
    have "open_left om' j = Some q" if "map_of (ab_children ?a') j = Some q" for j q
    proof -
      have j: "j \<noteq> i" "map_of (ab_children a) j = Some q" using that by (auto simp: ch delete_conv' split: if_splits)
      then have "open_left om j = Some q" using safe by (simp add: twap_safe_def)
      then show ?thesis using 3(9) 3(14) [of j] j(1) by (simp add: eq open_left_def split: if_splits)
    qed
    then show ?thesis
      using safe 3(7) infl unfolding heard by (simp add: twap_safe_def ch eq(1) distinct_delete)
  qed
qed

text \<open>An event that closes a child.\<close>

lemma twap_closed_safe:
  assumes safe: "twap_safe p om a" and child: "map_of (ab_children a) i = Some r"
    and "om_inv om'" and "om_live om' = om_live om - {i}"
    and "\<And>j. j \<in> om_live om \<Longrightarrow> j \<noteq> i \<Longrightarrow> order_ref om' j = order_ref om j"
  shows "twap_safe p om' (a\<lparr>ab_children := AList.delete i (ab_children a)\<rparr>)"
proof -
  let ?a' = "a\<lparr>ab_children := AList.delete i (ab_children a)\<rparr>"
  have dist: "distinct (map fst (ab_children a))" using safe by (simp add: twap_safe_def)
  have "0 \<le> r"
  proof -
    have "open_left om i = Some r" "om_inv om" using safe child by (auto simp: twap_safe_def)
    then show ?thesis using om_inv_good [of om i]
      by (auto simp: open_left_def good_order_def remaining_def split: if_splits)
  qed
  then have infl: "base_inflight ?a' \<le> base_inflight a"
    using sum_delete [OF dist child] by (simp add: base_inflight_sum)
  have "open_left om' j = Some q" if "map_of (ab_children ?a') j = Some q" for j q
  proof -
    have j: "j \<noteq> i" "map_of (ab_children a) j = Some q" using that by (auto simp: delete_conv' split: if_splits)
    then have "open_left om j = Some q" using safe by (simp add: twap_safe_def)
    then show ?thesis using assms(4) assms(5) [of j] j(1) by (simp add: open_left_def split: if_splits)
  qed
  then show ?thesis using safe assms(3) infl by (simp add: twap_safe_def distinct_delete)
qed

text \<open>The published order of a cancel or a reject carries its own id.\<close>

lemma put_order_id:
  "om_inv s \<Longrightarrow> i \<in> om_live s \<Longrightarrow> o_internal_id ord = o_internal_id (order_ref s i) \<Longrightarrow>
   om_pool t = om_pool (put_order i ord s) \<Longrightarrow> o_internal_id (order_ref t i) = i"
  using order_ref_put [of s i ord] om_inv_good [of s i] order_ref_pool [of t "put_order i ord s" i]
  by (simp add: good_order_def)

lemma published_cancel_id:
  assumes "om_inv s" and "i \<in> om_live s"
    and "finish_cancel i ts kind pub uns s = Inr (s', evs)" and "(e, seen) \<in> set evs"
  shows "o_internal_id (order_ref seen i) = i"
proof (rule put_order_id [OF assms(1,2), of "(order_ref s i)\<lparr>o_pending_cancel := False,
      o_status := Cancelled, o_ts := (o_ts (order_ref s i))\<lparr>ts_terminal := ts\<rparr>\<rparr>"])
  show "om_pool seen = om_pool (put_order i ((order_ref s i)\<lparr>o_pending_cancel := False,
      o_status := Cancelled, o_ts := (o_ts (order_ref s i))\<lparr>ts_terminal := ts\<rparr>\<rparr>) s)"
    using assms(3,4)
    by (auto simp: finish_cancel_def Let_def elim!: ebind_InrE split: if_splits simp del: append.simps)
qed simp

lemma published_reject_id:
  assumes "om_inv s" and "i \<in> om_live s"
    and "on_reject i reason ts s = Inr (s', evs)" and "(e, seen) \<in> set evs"
  shows "o_internal_id (order_ref seen i) = i"
proof (rule put_order_id [OF assms(1,2), of "(order_ref s i)\<lparr>o_status := Rejected,
      o_ts := (o_ts (order_ref s i))\<lparr>ts_terminal := ts\<rparr>\<rparr>"])
  show "om_pool seen = om_pool (put_order i ((order_ref s i)\<lparr>o_status := Rejected,
      o_ts := (o_ts (order_ref s i))\<lparr>ts_terminal := ts\<rparr>\<rparr>) s)"
    using assms(3,4)
    by (auto simp: on_reject_def Let_def elim!: ebind_InrE dest!: with_health_pool split: if_splits
        simp del: append.simps)
qed simp

lemma twap_child_live:
  assumes "twap_safe p om a" and "map_of (ab_children a) i = Some r"
  shows "om_inv om" and "i \<in> om_live om" and "genuine om i"
proof -
  show inv: "om_inv om" using assms by (simp add: twap_safe_def)
  have "open_left om i = Some r" using assms by (simp add: twap_safe_def)
  then show i: "i \<in> om_live om" by (simp add: open_left_def split: if_splits)
  show "genuine om i" by (rule om_live_genuine [OF inv i])
qed

lemma twap_deaf_safe:
  assumes "twap_safe p om a" and "om_inv om'" and "open_left om' = open_left om"
  shows "twap_safe p om' (twap_hears [] a)"
  using twap_safe_frame [OF assms(1,2), of a] assms(3) by (simp add: twap_hears_def)

lemma drop_open_left: "open_left (drop_event i k vr ts s) = open_left s"
  by (rule same_ledger_open_left) (simp add: ledger_frame)

lemma twap_cancel_safe:
  assumes safe: "twap_safe p om a" and child: "map_of (ab_children a) i = Some r"
    and cxl: "finish_cancel i ts kind pub uns om = Inr (om', evs)" and pub: "pub \<in> {EvCancelled, EvUnsolicitedCancel}"
  shows "twap_safe p om' (twap_hears evs a)"
proof -
  note c = twap_child_live [OF safe child]
  show ?thesis
  proof (cases rule: finish_cancel_cases [OF c(1,3), where kind = kind and ts = ts and pub = pub and uns = uns])
    case (1 vr)
    with cxl have eq: "om' = drop_event i kind vr ts om" "evs = []" by auto
    show ?thesis unfolding eq
      by (rule twap_deaf_safe [OF safe]) (simp_all add: c(1) drop_open_left)
  next
    case (2 ord' s1 s2)
    with cxl have eq: "om' = s2" "evs = [(mk_event pub i ord' 0 0 ReasonUnknown ts, s1)]" by auto
    have cur: "is_current i (om_pool s1)" using published_cancel_current [OF cxl] eq(2) by simp
    have oid: "o_internal_id ord' = i"
      using published_cancel_id [OF c(1,2) cxl] eq(2) 2(12) by simp
    have "twap_hears evs a = base_on_cancel ord' a"
      using twap_hears_one [OF cur 2(12)] pub by (auto simp: eq(2) deliver_to_def)
    then show ?thesis
      using twap_closed_safe [OF safe child 2(2,6,9)] by (simp add: eq(1) base_on_cancel_def oid)
  qed
qed

lemma twap_reject_safe:
  assumes safe: "twap_safe p om a" and child: "map_of (ab_children a) i = Some r"
    and rej: "on_reject i reason ts om = Inr (om', evs)"
  shows "twap_safe p om' (twap_hears evs a)"
proof -
  note c = twap_child_live [OF safe child]
  show ?thesis
  proof (cases rule: on_reject_cases [OF c(1,3), where reason = reason and ts = ts])
    case (1 h)
    have "i \<in> om_expected_fcr om \<Longrightarrow> False" using om_inv_core [OF c(1)] c(2) by (auto simp: core_inv_def)
    with 1(2) show ?thesis by simp
  next
    case (2 vr)
    with rej have eq: "om' = drop_event i KReject vr ts om" "evs = []" by auto
    show ?thesis unfolding eq
      by (rule twap_deaf_safe [OF safe]) (simp_all add: c(1) drop_open_left)
  next
    case (3 s1)
    with rej have eq: "om' = s1" "evs = []" by auto
    have "open_left s1 j = open_left om j" for j
      using 3(6,7) 3(11) [of j] by (cases "j = i") (simp_all add: open_left_def remaining_def)
    then show ?thesis unfolding eq by (intro twap_deaf_safe [OF safe 3(4)]) auto
  next
    case (4 ord' s1 s2)
    with rej have eq: "om' = s2" "evs = [(mk_event EvRejected i ord' 0 0 reason ts, s1)]" by auto
    have cur: "is_current i (om_pool s1)" using published_reject_current [OF rej] eq(2) by simp
    have oid: "o_internal_id ord' = i"
      using published_reject_id [OF c(1,2) rej] eq(2) 4(12) by simp
    have "twap_hears evs a = base_on_reject ord' (ev_reason (mk_event EvRejected i ord' 0 0 reason ts)) a"
      using twap_hears_one [OF cur 4(12)] by (simp add: eq(2) deliver_to_def)
    then show ?thesis
      using twap_closed_safe [OF safe child 4(3,6,9)] by (simp add: eq(1) base_on_reject_def oid)
  qed
qed

section \<open>The algo and the manager together\<close>

text \<open>What the dispatcher does for one registered TWAP algo is what \<open>twap_hears\<close> does.\<close>

lemma twap_hears_dispatch:
  assumes "find_order seen (ev_internal_id e) = Some ord" and "retrieve_int_data offset ord = Inr index"
  shows "on_order_event e seen [(Twap a, offset, index)] = Inr [(Twap (twap_hears [(e, seen)] a), offset, index)]"
  using assms by (auto simp: on_order_event_def twap_hears_def deliver_to_def split: OrderEventKind.split)

inductive twap_step ::
  "'e ExchangeClient \<Rightarrow> 'e OrderManager \<times> TwapAlgo \<Rightarrow> 'e OrderManager \<times> TwapAlgo \<Rightarrow> bool" for ops where
  tw_timer: "twap_on_timer ops mds now a om = Inr (a', om') \<Longrightarrow> twap_step ops (om, a) (om', a')"
| tw_fill: "i \<in> fst ` set (ab_children a) \<Longrightarrow> on_fill i qty price trade ts om = Inr (om', evs)
     \<Longrightarrow> twap_step ops (om, a) (om', twap_hears evs a)"
| tw_reject: "i \<in> fst ` set (ab_children a) \<Longrightarrow> on_reject i reason ts om = Inr (om', evs)
     \<Longrightarrow> twap_step ops (om, a) (om', twap_hears evs a)"
| tw_cancel_ack: "i \<in> fst ` set (ab_children a) \<Longrightarrow> on_cancel_ack i ts om = Inr (om', evs)
     \<Longrightarrow> twap_step ops (om, a) (om', twap_hears evs a)"
| tw_unsolicited: "i \<in> fst ` set (ab_children a) \<Longrightarrow> on_unsolicited_cancel i ts om = Inr (om', evs)
     \<Longrightarrow> twap_step ops (om, a) (om', twap_hears evs a)"
| tw_elsewhere: "om_step ops om om'
     \<Longrightarrow> (\<And>i. i \<in> fst ` set (ab_children a) \<Longrightarrow> open_left om' i = open_left om i)
     \<Longrightarrow> twap_step ops (om, a) (om', a)"

inductive_cases twap_stepE: "twap_step ops (om, a) t"

lemma children_map_of: "i \<in> fst ` set xs \<Longrightarrow> \<exists>r. map_of xs i = Some r"
  by (metis domD dom_map_of_conv_image_fst)

lemma twap_step_safe:
  assumes "twap_step ops (om, a) (om', a')" and "twap_safe p om a"
  shows "twap_safe p om' a'"
  using assms(1)
proof cases
  case (tw_timer mds now)
  then show ?thesis using twap_on_timer_safe [OF assms(2)] by blast
next
  case (tw_fill i qty price trade ts evs)
  then show ?thesis using twap_fill_safe [OF assms(2)] children_map_of [of i] by blast
next
  case (tw_reject i reason ts evs)
  then show ?thesis using twap_reject_safe [OF assms(2)] children_map_of [of i] by blast
next
  case (tw_cancel_ack i ts evs)
  then show ?thesis using twap_cancel_safe [OF assms(2)] children_map_of [of i]
    unfolding on_cancel_ack_def by blast
next
  case (tw_unsolicited i ts evs)
  then show ?thesis using twap_cancel_safe [OF assms(2)] children_map_of [of i]
    unfolding on_unsolicited_cancel_def by blast
next
  case tw_elsewhere
  have "om_inv om'" using om_step_inv [OF tw_elsewhere(2)] assms(2) by (simp add: twap_safe_def)
  moreover have "i \<in> fst ` set (ab_children a)" if "map_of (ab_children a) i = Some r" for i r
    using that by (metis domI dom_map_of_conv_image_fst)
  ultimately show ?thesis using twap_safe_frame [OF assms(2), of om' a] tw_elsewhere by metis
qed

lemma twap_run_safe:
  assumes "(twap_step ops)\<^sup>*\<^sup>* (om0, a0) (om, a)" and "twap_safe p om0 a0"
  shows "twap_safe p om a"
  using assms
proof (induction "(om, a)" arbitrary: om a rule: rtranclp_induct)
  case (step t)
  then show ?case by (cases t) (metis twap_step_safe)
qed simp

lemma twap_started_safe:
  assumes "om_inv om" and "0 \<le> po_qty p" and "0 \<le> ac_worker_offset cfg" and "ac_worker_offset cfg < 4"
  shows "twap_safe p om (twap_start p (twap_new cfg sink))"
  using assms by (simp add: twap_safe_def twap_start_def twap_new_def base_inflight_def Let_def)

text \<open>C7: a TWAP algo never oversends. From its start on, whatever the timer, the market data, the
  venue's events about its children and the rest of the manager's activity do, and at the deadline
  too, what it has filled plus what it has in flight stays within the parent quantity.\<close>

theorem twap_never_oversends:
  assumes "(twap_step ops)\<^sup>*\<^sup>* (om0, twap_start p (twap_new cfg sink)) (om, a)" and "om_inv om0"
    and "0 \<le> po_qty p" and "0 \<le> ac_worker_offset cfg" and "ac_worker_offset cfg < 4"
  shows "0 \<le> base_inflight a \<and> ab_filled a + base_inflight a \<le> po_qty p"
proof -
  have "twap_safe p om a" using twap_run_safe [OF assms(1)] twap_started_safe [OF assms(2-5)] by blast
  then show ?thesis using inflight_nonneg by (auto simp: twap_safe_def)
qed

text \<open>A concrete run: one slice for the whole parent of 10, sent to the example manager, and a fill of 4.\<close>

definition ex_config :: AlgoConfig where
  "ex_config = default_algo_config\<lparr>ac_om := True, ac_slices := 1\<rparr>"

definition ex_parent :: ParentOrder where
  "ex_parent = default_parent\<lparr>po_instrument := 7, po_qty := 10, po_start := 100, po_end := 200, po_limit := 50\<rparr>"

definition ex_twap :: TwapAlgo where
  "ex_twap = twap_start ex_parent (twap_new ex_config None)"

definition ex_twap_sent :: TwapAlgo where
  "ex_twap_sent = ex_twap\<lparr>tw_slices_done := 1, ab_children := [(ex_id, 10)], ab_sent_total := 10,
     ab_stats := (ab_stats ex_twap)\<lparr>as_child_orders := 1\<rparr>\<rparr>"

lemma ex_twap_fires: "twap_on_timer (ex_client SendOk) None 120 ex_twap ex_om = Inr (ex_twap_sent, ex_placed)"
proof -
  have fields: "\<not> ab_done ex_twap" "po_end (ab_parent ex_twap) = 200" "slice_due 120 ex_twap"
    "slice_quantity ex_twap = 10" "ac_om (ab_config ex_twap)" "ab_children ex_twap = []"
    "ab_sent_total ex_twap = 0" "tw_slices_done ex_twap = 0"
    "as_child_orders (ab_stats ex_twap) = 0" "ab_filled ex_twap = 0" "po_qty (ab_parent ex_twap) = 10"
    "child_request 10 (po_limit (ab_parent ex_twap)) Limit ex_twap = ex_request"
    "tw_n ex_twap = 1"
    by code_simp+
  have "ex_id \<noteq> 0" by code_simp
  have req: "child_request q pr ty (ex_twap\<lparr>tw_slices_done := 1\<rparr>) = child_request q pr ty ex_twap" for q pr ty
    by (simp add: child_request_def)
  have "send_child (ex_client SendOk) 10 (po_limit (ab_parent ex_twap)) Limit (ex_twap\<lparr>tw_slices_done := 1\<rparr>) ex_om
      = Inr (ex_id, ex_twap_sent, ex_placed)"
    using \<open>ex_id \<noteq> 0\<close> by (simp add: send_child_def fields req ex_submit ex_twap_sent_def)
  moreover have "\<not> slice_due 120 ex_twap_sent" by (simp add: slice_due_def ex_twap_sent_def fields)
  ultimately have "twap_slices (ex_client SendOk) 120 ex_twap ex_om = Inr (ex_twap_sent, ex_placed)"
    using fields by (simp add: twap_slices.simps)
  then show ?thesis using fields by (simp add: twap_on_timer_def done_when_filled_def ex_twap_sent_def)
qed

theorem twap_never_oversends_witness:
  "\<exists>a. (twap_step (ex_client SendOk))\<^sup>*\<^sup>* (ex_om, twap_start ex_parent (twap_new ex_config None)) (ex_partial, a)
     \<and> ab_filled a = 4 \<and> base_inflight a = 6 \<and> ab_filled a + base_inflight a \<le> po_qty ex_parent"
proof -
  obtain ev where f: "on_fill ex_id 4 50 900 120 ex_placed = Inr (ex_partial, [(ev, ex_partial)])"
      "ev = mk_event EvPartialFill ex_id (filled_order 4 50 120 (order_ref ex_placed ex_id)) 4 50 ReasonUnknown 120"
  proof (cases rule: on_fill_cases [OF ex_placed_inv ex_placed_genuine, where qty = 4 and price = 50
        and ts = 120 and trade = 900])
    case (1 vr)
    then show ?thesis using ex_fill_partial by auto
  next
    case (2 s1)
    then show ?thesis using ex_fill_partial that by auto
  next
    case (3 s1 s2)
    then show ?thesis by (simp add: ex_placed_facts remaining_def ex_order_fields)
  qed
  have order: "order_ref ex_partial ex_id = filled_order 4 50 120 (order_ref ex_placed ex_id)"
    by (rule ex_partial_order)
  have cur: "is_current ex_id (om_pool ex_partial)" using published_fill_current [OF f(1)] by simp
  let ?a = "twap_hears [(ev, ex_partial)] ex_twap_sent"
  have "?a = base_on_fill (order_ref ex_partial ex_id) 4 50 ex_twap_sent"
    using twap_hears_one [OF cur refl] f(2) by (simp add: deliver_to_def)
  moreover have "ab_filled ex_twap_sent = 0" "ab_children ex_twap_sent = [(ex_id, 10)]"
    "o_internal_id (order_ref ex_partial ex_id) = ex_id" "o_status (order_ref ex_partial ex_id) \<noteq> Filled"
    "remaining (order_ref ex_partial ex_id) = 6"
    unfolding order ex_placed_facts(2) by code_simp+
  ultimately have a: "ab_filled ?a = 4" "base_inflight ?a = 6"
    by (simp_all add: base_on_fill_def record_fill_def done_when_filled_def base_inflight_def Let_def)
  have "twap_step (ex_client SendOk) (ex_om, ex_twap) (ex_placed, ex_twap_sent)"
    by (rule tw_timer [OF ex_twap_fires])
  moreover have "twap_step (ex_client SendOk) (ex_placed, ex_twap_sent) (ex_partial, ?a)"
    using f(1) by (intro tw_fill [of ex_id]) (simp_all add: ex_twap_sent_def)
  ultimately have run: "(twap_step (ex_client SendOk))\<^sup>*\<^sup>* (ex_om, twap_start ex_parent (twap_new ex_config None))
      (ex_partial, ?a)" by (simp add: ex_twap_def)
  have "0 \<le> po_qty ex_parent" "0 \<le> ac_worker_offset ex_config" "ac_worker_offset ex_config < 4" by code_simp+
  from twap_never_oversends [OF run ex_om_inv this] run a show ?thesis by auto
qed

section \<open>POV at the deadline\<close>

lemma held_twap_more: "AlgoBase.more x = AlgoBase.more y \<Longrightarrow> held_twap x = held_twap y"
  by (cases x; cases y) (simp add: held_twap_def)

text \<open>C35: at its deadline a POV algo that still runs its own children asks the manager to cancel them
  and sends everything unfilled again, without deducting what is in flight: once the residual is
  accepted, filled plus in flight exceeds the parent quantity by exactly what was in flight, and
  cancels being asynchronous all of it can still fill.\<close>

theorem pov_deadline_ignores_inflight:
  assumes "pov_on_timer ops mds now a om = Inr (a', om')" and "ab_children a' \<noteq> ab_children a"
    and "po_end (ab_parent a) \<le> now" and "held_twap a = None" and "om_inv om"
    and "0 \<le> ac_worker_offset (ab_config a)" and "ac_worker_offset (ab_config a) < 4"
    and "\<forall>j r. map_of (ab_children a) j = Some r \<longrightarrow> open_left om j = Some r"
  shows "ab_filled a' + pov_inflight a' = po_qty (ab_parent a) + pov_inflight a"
proof -
  define a1 where "a1 = a\<lparr>pv_deadline_done := True\<rparr>"
  have a1: "held_twap a1 = None" "ab_children a1 = ab_children a" "ab_filled a1 = ab_filled a"
    "ab_config a1 = ab_config a" "ab_parent a1 = ab_parent a"
    using assms(4) by (auto simp: a1_def held_twap_def split: if_splits)
  define residual where "residual = po_qty (ab_parent a) - ab_filled a"
  define a2 where "a2 = algo_log (''POV deadline: crossing residual='' @ to_string residual) a1"
  have a2: "held_twap a2 = None" "ab_children a2 = ab_children a" "ab_filled a2 = ab_filled a"
    "ab_config a2 = ab_config a" "ab_parent a2 = ab_parent a"
    using a1 by (auto simp: a2_def held_twap_def algo_log_def split: if_splits)
  let ?om1 = "pov_cancel ops a1 om"
  have fin: "ab_children (finish_at_deadline f x) = ab_children x" "ab_filled (finish_at_deadline f x) = ab_filled x"
    "held_twap (finish_at_deadline f x) = held_twap x" for f and x :: PovAlgo
    by (simp_all add: finish_at_deadline_def held_twap_def)
  obtain x where x: "pov_deadline_cross ops mds now a om = Inr (x, om')"
      "a' = finish_at_deadline pov_inflight x"
    using assms(1,2,3) by (auto simp: pov_on_timer_def split: if_splits sum.splits)
  have "\<not> pv_deadline_done a" "residual > 0"
    using x assms(2) fin a1
    by (auto simp: pov_deadline_cross_def Let_def residual_def a1_def [symmetric] split: if_splits)
  with x(1) a1 have "(case send_child ops residual (cross_price mds a2) IOC a2 ?om1 of
      Inl e \<Rightarrow> Inl e | Inr (i, a3, om2) \<Rightarrow> Inr (a3, om2)) = Inr (x, om')"
    unfolding pov_deadline_cross_def Let_def a1_def [symmetric]
    by (simp add: residual_def [symmetric] a2_def [symmetric] del: append.simps)
  then obtain i where s: "send_child ops residual (cross_price mds a2) IOC a2 ?om1 = Inr (i, x, om')"
    by (auto split: sum.splits)
  have "j \<in> om_live om" if "j \<in> fst ` set (ab_children a1)" for j
    using children_map_of [OF that] assms(8) a1(2) by (auto simp: open_left_def split: if_splits)
  then have c: "om_inv ?om1" "open_left ?om1 = open_left om"
    using base_cancel_open_left [OF assms(5), of a1 ops] a1(1) by (simp_all add: pov_cancel_def)
  have "x = a2 \<or> (i \<notin> fst ` set (ab_children a2) \<and> ab_children x = AList.update i residual (ab_children a2)
      \<and> ab_filled x = ab_filled a2 \<and> AlgoBase.more x = AlgoBase.more a2)"
    using send_child_cases [OF c(1) _ _ s] assms(6-8) a2 c(2) by fastforce
  moreover have "x \<noteq> a2" using assms(2) x(2) fin a2(2) by auto
  ultimately have r: "i \<notin> fst ` set (ab_children a)" "ab_children x = AList.update i residual (ab_children a)"
      "ab_filled x = ab_filled a" "held_twap x = None"
    using a2 held_twap_more [of x a2] by auto
  have "pov_inflight a' = pov_inflight a + residual"
    using r assms(4) sum_update_new [OF r(1), of residual] unfolding x(2) pov_inflight_def base_inflight_sum fin
    by simp
  then show ?thesis using r(3) by (simp add: x(2) fin residual_def)
qed

definition ex_pov :: PovAlgo where
  "ex_pov = (pov_start ex_parent (pov_new ex_config None))\<lparr>ab_children := [(ex_id, 10)]\<rparr>"

theorem pov_deadline_ignores_inflight_witness:
  "\<exists>a' om'. pov_on_timer (ex_client SendOk) None 200 ex_pov ex_placed = Inr (a', om')
     \<and> ab_filled a' + pov_inflight a' = 20 \<and> po_qty (ab_parent ex_pov) = 10"
proof -
  have "(case pov_on_timer (ex_client SendOk) None 200 ex_pov ex_placed of Inl e \<Rightarrow> False
      | Inr (a', om') \<Rightarrow> ab_children a' \<noteq> ab_children ex_pov)" by code_simp
  then obtain a' om' where t: "pov_on_timer (ex_client SendOk) None 200 ex_pov ex_placed = Inr (a', om')"
      "ab_children a' \<noteq> ab_children ex_pov" by (auto split: sum.splits)
  have f: "po_end (ab_parent ex_pov) \<le> 200" "held_twap ex_pov = None" "0 \<le> ac_worker_offset (ab_config ex_pov)"
    "ac_worker_offset (ab_config ex_pov) < 4" "pov_inflight ex_pov = 10" "po_qty (ab_parent ex_pov) = 10"
    "ab_children ex_pov = [(ex_id, 10)]" "remaining (order_ref ex_placed ex_id) = 10"
    unfolding ex_placed_facts(2) by code_simp+
  have "\<forall>j r. map_of (ab_children ex_pov) j = Some r \<longrightarrow> open_left ex_placed j = Some r"
    using f(7,8) by (simp add: open_left_def ex_placed_live)
  from pov_deadline_ignores_inflight [OF t f(1,2) ex_placed_inv f(3,4) this] t f show ?thesis by auto
qed

end
