(* ===== verification/Reconciliation.thy ===== *)
theory Reconciliation
  imports OrderManager
begin

text \<open>
  \<^verbatim>\<open>include/oms/Reconciliation.h\<close>, \<^verbatim>\<open>src/Reconciliation.cpp\<close>: the startup reconciliation of
  persisted against exchange positions, and the periodic reconciliation of the running manager.
  The unordered maps are maps; a \<^verbatim>\<open>std::set\<close> of instruments is iterated in ascending order, so
  the loops run over the sorted list of the set. The periodic reconciler refers to the manager
  and to the registry the manager uses, which is a field of the manager here.
\<close>

section \<open>Startup\<close>

datatype ReconAction = Proceed | AdoptColdStart | AdoptAutoHeal | HardStop

record ReconLine =
  rl_instrument :: InstrumentId
  rl_local :: Quantity
  rl_exchange :: Quantity
  rl_action :: ReconAction
  rl_why :: string

record StartupReport =
  sr_can_start :: bool
  sr_lines :: "ReconLine list"
  sr_adopted :: "InstrumentId \<rightharpoonup> Quantity"

definition empty_report :: StartupReport where
  "empty_report = \<lparr>sr_can_start = False, sr_lines = [], sr_adopted = Map.empty\<rparr>"

record StartupReconciler =
  sc_auto_heal_threshold :: Quantity
  sc_log :: log_sink

text \<open>One instrument of the loop: the report, the hard-stop flag and the log so far.\<close>

definition startup_inst ::
  "StartupReconciler \<Rightarrow> (InstrumentId \<rightharpoonup> Quantity) \<Rightarrow> bool \<Rightarrow> (InstrumentId \<rightharpoonup> Quantity)
     \<Rightarrow> StartupReport \<times> bool \<times> log_sink \<Rightarrow> InstrumentId \<Rightarrow> StartupReport \<times> bool \<times> log_sink" where
  "startup_inst rc local_pos persisted exch acc inst =
     (let (rep, stop, lg) = acc;
          l = map_get 0 local_pos inst;
          e = map_get 0 exch inst;
          line = \<lparr>rl_instrument = inst, rl_local = l, rl_exchange = e, rl_action = Proceed, rl_why = []\<rparr>;
          add = (\<lambda>ln r. r\<lparr>sr_lines := sr_lines r @ [ln]\<rparr>);
          adopt = (\<lambda>q r. r\<lparr>sr_adopted := (sr_adopted r)(inst \<mapsto> q)\<rparr>)
      in if \<not> persisted then
           (add (line\<lparr>rl_action := AdoptColdStart,
                      rl_why := ''cold start: exchange is the only truth available''\<rparr>) (adopt e rep),
            stop,
            log_line Warn (''startup recon COLD START inst='' @ to_string (uint inst)
              @ '' adopt exchange='' @ to_string e) lg)
         else if l = e then
           (add (line\<lparr>rl_action := Proceed, rl_why := ''match''\<rparr>) (adopt l rep), stop, lg)
         else
           let drift = (if l - e < 0 then e - l else l - e);
               tail = '' inst='' @ to_string (uint inst) @ '' local='' @ to_string l
                 @ '' exch='' @ to_string e @ '' drift='' @ to_string drift
           in if drift \<le> sc_auto_heal_threshold rc then
                (add (line\<lparr>rl_action := AdoptAutoHeal,
                       rl_why := ''drift<=threshold: missed fill while down; exchange authoritative''\<rparr>)
                   (adopt e rep), stop, log_line Warn (''startup recon AUTO-HEAL'' @ tail) lg)
              else
                (add (line\<lparr>rl_action := HardStop,
                       rl_why := ''drift>threshold: cannot distinguish missed fill from corruption''\<rparr>) rep,
                 True, log_line LogError (''startup recon HARD STOP'' @ tail) lg))"

definition startup_reconcile ::
  "(InstrumentId \<rightharpoonup> Quantity) \<Rightarrow> bool \<Rightarrow> bool \<Rightarrow> (InstrumentId \<rightharpoonup> Quantity)
     \<Rightarrow> StartupReconciler \<Rightarrow> StartupReport \<times> StartupReconciler" where
  "startup_reconcile local_pos persisted reachable exch rc =
     (if \<not> reachable then
        (empty_report\<lparr>sr_can_start := False,
           sr_lines := [\<lparr>rl_instrument = 0, rl_local = 0, rl_exchange = 0, rl_action = HardStop,
                         rl_why = ''exchange unreachable''\<rparr>]\<rparr>,
         rc\<lparr>sc_log := log_line LogError ''startup recon: exchange unreachable -> HARD STOP'' (sc_log rc)\<rparr>)
      else
        let insts = sorted_list_of_set (dom local_pos \<union> dom exch);
            (rep, stop, lg) = foldl (startup_inst rc local_pos persisted exch) (empty_report, False, sc_log rc) insts;
            rep1 = rep\<lparr>sr_can_start := \<not> stop\<rparr>
        in (if stop then rep1\<lparr>sr_adopted := Map.empty\<rparr> else rep1, rc\<lparr>sc_log := lg\<rparr>))"

section \<open>Periodic reconciliation\<close>

datatype DriftAction = InSync | PendingConfirm | AutoHealed | Halted

record DriftRecord =
  dr_inst :: InstrumentId
  dr_exchange :: Quantity
  dr_oms :: Quantity
  dr_drift :: Quantity
  dr_action :: DriftAction
  dr_ts :: Timestamp

record PeriodicReconConfig =
  pc_threshold :: Quantity
  pc_heal_band :: Quantity
  pc_persist_cycles :: int

definition default_recon_config :: PeriodicReconConfig where
  "default_recon_config = \<lparr>pc_threshold = 0, pc_heal_band = 0, pc_persist_cycles = 2\<rparr>"

record PeriodicReconciler =
  pr_cfg :: PeriodicReconConfig
  pr_log :: log_sink
  pr_halted :: bool
  pr_corrective_orders :: u64
  pr_halts :: u64
  pr_persist :: "InstrumentId \<rightharpoonup> int"

definition recon_new :: "PeriodicReconConfig \<Rightarrow> log_sink \<Rightarrow> PeriodicReconciler" where
  "recon_new cfg sink = \<lparr>pr_cfg = cfg, pr_log = sink, pr_halted = False, pr_corrective_orders = 0,
     pr_halts = 0, pr_persist = Map.empty\<rparr>"

definition rearm :: "PeriodicReconciler \<Rightarrow> PeriodicReconciler" where
  "rearm pr = pr\<lparr>pr_halted := False\<rparr>"

definition recon_log :: "LogLevel \<Rightarrow> string \<Rightarrow> PeriodicReconciler \<Rightarrow> PeriodicReconciler" where
  "recon_log lvl line pr = pr\<lparr>pr_log := log_line lvl line (pr_log pr)\<rparr>"

text \<open>\<^verbatim>\<open>ex_pos[inst] += q\<close> for every entry of one client's positions, then for every venue.\<close>

definition add_positions ::
  "(InstrumentId \<rightharpoonup> Quantity) \<Rightarrow> (InstrumentId \<rightharpoonup> Quantity) \<Rightarrow> (InstrumentId \<rightharpoonup> Quantity)" where
  "add_positions m f = (\<lambda>inst. case f inst of None \<Rightarrow> m inst | Some q \<Rightarrow> Some (map_get 0 m inst + q))"

definition snapshot_positions ::
  "'e ExchangeClient \<Rightarrow> 'e ExchangeRegistry \<Rightarrow> (InstrumentId \<rightharpoonup> Quantity)" where
  "snapshot_positions ops r =
     foldl (\<lambda>m v. case registry_get r v of
         None \<Rightarrow> m
       | Some ex \<Rightarrow> if \<not> ec_is_connected ops ex then m else add_positions m (ec_get_positions ops ex))
       Map.empty (registry_venues r)"

definition corrective_request :: "'e ExchangeClient \<Rightarrow> InstrumentId \<Rightarrow> Quantity \<Rightarrow> 'e OrderManager \<Rightarrow> OrderRequest" where
  "corrective_request ops inst drift om =
     (let price = (case registry_get (om_registry om) 0 of
                     Some ex \<Rightarrow> tob_mid (ec_get_order_book ops inst ex) | None \<Rightarrow> 0)
      in default_request\<lparr>rq_instrument := inst, rq_side := (if drift > 0 then Buy else Sell),
           rq_size := (if drift < 0 then - drift else drift), rq_type := IOC, rq_reconciliation := True,
           rq_price := (if price \<le> 0 then 1 else price)\<rparr>)"

text \<open>The log lines, and the body of the loop: the record of one instrument.\<close>

definition recon_shown :: "InstrumentId \<Rightarrow> Quantity \<Rightarrow> Quantity \<Rightarrow> string" where
  "recon_shown inst ex oms_pos =
     '' inst='' @ to_string (uint inst) @ '' exch='' @ to_string ex @ '' oms='' @ to_string oms_pos"

definition resolved_line :: "InstrumentId \<Rightarrow> string" where
  "resolved_line inst = ''['' @ ''[RESOLVED]'' @ ''] reconcile inst='' @ to_string (uint inst)"

definition pending_line :: "InstrumentId \<Rightarrow> Quantity \<Rightarrow> Quantity \<Rightarrow> Quantity \<Rightarrow> int \<Rightarrow> string" where
  "pending_line inst ex oms_pos drift c = ''reconcile drift pending confirm'' @ recon_shown inst ex oms_pos
     @ '' drift='' @ to_string drift @ '' cycle='' @ to_string c"

definition heal_line :: "InstrumentId \<Rightarrow> Quantity \<Rightarrow> Quantity \<Rightarrow> Quantity \<Rightarrow> string" where
  "heal_line inst ex oms_pos corrective = ''reconcile AUTO-HEAL'' @ recon_shown inst ex oms_pos
     @ '' corrective='' @ to_string corrective"

definition halt_line :: "InstrumentId \<Rightarrow> Quantity \<Rightarrow> Quantity \<Rightarrow> Quantity \<Rightarrow> string" where
  "halt_line inst ex oms_pos drift = ''reconcile HALT'' @ recon_shown inst ex oms_pos
     @ '' drift='' @ to_string drift @ '' (manual re-arm required)''"

definition recon_inst ::
  "'e ExchangeClient \<Rightarrow> Timestamp \<Rightarrow> (InstrumentId \<rightharpoonup> Quantity) \<Rightarrow> InstrumentId \<Rightarrow> PeriodicReconciler
     \<Rightarrow> 'e OrderManager \<Rightarrow> (DriftRecord \<times> PeriodicReconciler \<times> 'e OrderManager) result" where
  "recon_inst ops now ex_pos inst pr om =
     (let oms_pos = pos_net (position om inst);
          ex = map_get 0 ex_pos inst;
          drift = ex - oms_pos;
          adrift = (if drift < 0 then - drift else drift);
          rec = \<lparr>dr_inst = inst, dr_exchange = ex, dr_oms = oms_pos, dr_drift = drift,
                 dr_action = InSync, dr_ts = now\<rparr>
      in if adrift \<le> pc_threshold (pr_cfg pr) then
           (let pr1 = pr\<lparr>pr_persist := (pr_persist pr)(inst \<mapsto> 0)\<rparr>
            in Inr (rec\<lparr>dr_action := InSync\<rparr>,
                    if adrift = 0 then recon_log Info (resolved_line inst) pr1 else pr1, om))
         else
           let c = map_get 0 (pr_persist pr) inst + 1;
               pr1 = pr\<lparr>pr_persist := (pr_persist pr)(inst \<mapsto> c)\<rparr>
           in if c < pc_persist_cycles (pr_cfg pr) then
                Inr (rec\<lparr>dr_action := PendingConfirm\<rparr>,
                     recon_log Warn (pending_line inst ex oms_pos drift c) pr1, om)
              else
                let pr2 = pr1\<lparr>pr_persist := (pr_persist pr1)(inst \<mapsto> 0)\<rparr>
                in if adrift \<le> pc_heal_band (pr_cfg pr) then
                     (let req = corrective_request ops inst drift om
                      in ebind (submit ops req om) (\<lambda>(i, om1).
                        Inr (rec\<lparr>dr_action := AutoHealed\<rparr>,
                             recon_log Warn (heal_line inst ex oms_pos (signed_qty (rq_side req) (rq_size req)))
                               (pr2\<lparr>pr_corrective_orders := pr_corrective_orders pr2 + 1\<rparr>), om1)))
                   else
                     Inr (rec\<lparr>dr_action := Halted\<rparr>,
                          recon_log LogError (halt_line inst ex oms_pos drift)
                            (pr2\<lparr>pr_halted := True, pr_halts := pr_halts pr2 + 1\<rparr>), om))"

fun recon_insts ::
  "'e ExchangeClient \<Rightarrow> Timestamp \<Rightarrow> (InstrumentId \<rightharpoonup> Quantity) \<Rightarrow> InstrumentId list \<Rightarrow> DriftRecord list
     \<Rightarrow> PeriodicReconciler \<Rightarrow> 'e OrderManager
     \<Rightarrow> (DriftRecord list \<times> PeriodicReconciler \<times> 'e OrderManager) result" where
  "recon_insts ops now ex_pos [] out pr om = Inr (out, pr, om)"
| "recon_insts ops now ex_pos (inst # insts) out pr om =
     ebind (recon_inst ops now ex_pos inst pr om) (\<lambda>(rec, pr1, om1).
       if dr_action rec = Halted then Inr (out @ [rec], pr1, om1)
       else recon_insts ops now ex_pos insts (out @ [rec]) pr1 om1)"

definition recon_universe :: "(InstrumentId \<rightharpoonup> Quantity) \<Rightarrow> 'e OrderManager \<Rightarrow> InstrumentId list" where
  "recon_universe ex_pos om = sorted_list_of_set (dom ex_pos \<union> om_instruments om)"

definition reconcile ::
  "'e ExchangeClient \<Rightarrow> Timestamp \<Rightarrow> PeriodicReconciler \<Rightarrow> 'e OrderManager
     \<Rightarrow> (DriftRecord list \<times> PeriodicReconciler \<times> 'e OrderManager) result" where
  "reconcile ops now pr om =
     (if pr_halted pr then Inr ([], pr, om)
      else let ex_pos = snapshot_positions ops (om_registry om)
           in recon_insts ops now ex_pos (recon_universe ex_pos om) [] pr om)"

end
