(* ===== verification/ReconProps.thy ===== *)
theory ReconProps
  imports Reconciliation OmLedger
begin

text \<open>
  What reconciliation decides and when it acts. The startup report is compared with a condition on
  the two position maps; the periodic reconciler is run over any sequence of cycles, with the
  manager changing freely in between, and its records are the observable history.
\<close>

section \<open>Startup\<close>

definition startup_tolerates :: "Quantity \<Rightarrow> (InstrumentId \<rightharpoonup> Quantity) \<Rightarrow> (InstrumentId \<rightharpoonup> Quantity) \<Rightarrow> InstrumentId \<Rightarrow> bool" where
  "startup_tolerates thr local_pos exch inst \<longleftrightarrow> map_get 0 local_pos inst = map_get 0 exch inst
     \<or> \<bar>map_get 0 local_pos inst - map_get 0 exch inst\<bar> \<le> thr"

lemma startup_inst_step:
  fixes local_pos exch :: "InstrumentId \<rightharpoonup> Quantity"
  defines "ok \<equiv> \<lambda>persisted rc inst. \<not> persisted \<or> startup_tolerates (sc_auto_heal_threshold rc) local_pos exch inst"
  shows "\<exists>rep' lg'. startup_inst rc local_pos persisted exch (rep, stop, lg) inst
      = (rep', stop \<or> \<not> ok persisted rc inst, lg')
    \<and> sr_adopted rep' = (if ok persisted rc inst then (sr_adopted rep)(inst \<mapsto> map_get 0 exch inst) else sr_adopted rep)
    \<and> map rl_instrument (sr_lines rep') = map rl_instrument (sr_lines rep) @ [inst]"
  by (auto simp: startup_inst_def Let_def ok_def startup_tolerates_def simp del: append.simps)

lemma startup_fold:
  fixes local_pos exch :: "InstrumentId \<rightharpoonup> Quantity"
  defines "ok \<equiv> \<lambda>persisted rc inst. \<not> persisted \<or> startup_tolerates (sc_auto_heal_threshold rc) local_pos exch inst"
  shows "\<exists>rep' lg'. foldl (startup_inst rc local_pos persisted exch) (rep, stop, lg) insts
      = (rep', stop \<or> \<not> list_all (ok persisted rc) insts, lg')
    \<and> sr_adopted rep' = (\<lambda>i. if i \<in> set insts \<and> ok persisted rc i then Some (map_get 0 exch i) else sr_adopted rep i)
    \<and> map rl_instrument (sr_lines rep') = map rl_instrument (sr_lines rep) @ insts"
proof (induction insts arbitrary: rep stop lg)
  case (Cons inst insts)
  obtain rep1 lg1 where s: "startup_inst rc local_pos persisted exch (rep, stop, lg) inst
      = (rep1, stop \<or> \<not> ok persisted rc inst, lg1)"
    "sr_adopted rep1 = (if ok persisted rc inst then (sr_adopted rep)(inst \<mapsto> map_get 0 exch inst) else sr_adopted rep)"
    "map rl_instrument (sr_lines rep1) = map rl_instrument (sr_lines rep) @ [inst]"
    using startup_inst_step [of rc local_pos persisted exch rep stop lg inst] unfolding ok_def by blast
  obtain rep' lg' where r: "foldl (startup_inst rc local_pos persisted exch) (rep1, stop \<or> \<not> ok persisted rc inst, lg1) insts
      = (rep', (stop \<or> \<not> ok persisted rc inst) \<or> \<not> list_all (ok persisted rc) insts, lg')"
    "sr_adopted rep' = (\<lambda>i. if i \<in> set insts \<and> ok persisted rc i then Some (map_get 0 exch i) else sr_adopted rep1 i)"
    "map rl_instrument (sr_lines rep') = map rl_instrument (sr_lines rep1) @ insts"
    using Cons.IH by blast
  have "sr_adopted rep' = (\<lambda>i. if i \<in> set (inst # insts) \<and> ok persisted rc i then Some (map_get 0 exch i) else sr_adopted rep i)"
    unfolding r(2) s(2) by (auto simp: fun_eq_iff)
  with r(1,3) s show ?case by auto
qed simp

text \<open>C36: startup reconciliation. Trading may start exactly if the exchange is reachable and, when
  there is persisted state, every instrument either side knows is within the auto-heal threshold;
  what is then adopted is the exchange's position for every such instrument, and otherwise nothing.\<close>

theorem startup_adopts_exchange:
  fixes local_pos exch :: "InstrumentId \<rightharpoonup> Quantity"
  shows "(sr_can_start (fst (startup_reconcile local_pos persisted reachable exch rc)) \<longleftrightarrow>
      reachable \<and> (\<not> persisted \<or> (\<forall>inst \<in> dom local_pos \<union> dom exch.
        startup_tolerates (sc_auto_heal_threshold rc) local_pos exch inst)))
    \<and> sr_adopted (fst (startup_reconcile local_pos persisted reachable exch rc)) =
      (if sr_can_start (fst (startup_reconcile local_pos persisted reachable exch rc))
       then (\<lambda>i. if i \<in> dom local_pos \<union> dom exch then Some (map_get 0 exch i) else None)
       else Map.empty)"
proof -
  let ?U = "dom local_pos \<union> dom exch"
  let ?insts = "sorted_list_of_set ?U"
  let ?ok = "\<lambda>inst. \<not> persisted \<or> startup_tolerates (sc_auto_heal_threshold rc) local_pos exch inst"
  have set_is: "set ?insts = ?U" by simp
  have all: "list_all ?ok ?insts \<longleftrightarrow> \<not> persisted \<or> (\<forall>inst \<in> ?U.
        startup_tolerates (sc_auto_heal_threshold rc) local_pos exch inst)"
    unfolding list_all_iff set_is by blast
  have none: "sr_adopted empty_report = Map.empty" by (simp add: empty_report_def)
  define stop where "stop = (\<not> list_all ?ok ?insts)"
  obtain rep lg where "foldl (startup_inst rc local_pos persisted exch) (empty_report, False, sc_log rc) ?insts
      = (rep, stop, lg)"
    and adopted: "sr_adopted rep = (\<lambda>i. if i \<in> ?U \<and> ?ok i then Some (map_get 0 exch i) else None)"
    using startup_fold [of rc local_pos persisted exch empty_report False "sc_log rc" ?insts]
    unfolding none by (auto simp: stop_def set_is)
  then have res: "fst (startup_reconcile local_pos persisted reachable exch rc)
      = (if reachable then (if stop then rep\<lparr>sr_can_start := False, sr_adopted := Map.empty\<rparr>
           else rep\<lparr>sr_can_start := True\<rparr>) else fst (startup_reconcile local_pos persisted False exch rc))"
    by (simp add: startup_reconcile_def Let_def)
  have off: "\<not> sr_can_start (fst (startup_reconcile local_pos persisted False exch rc))"
    "sr_adopted (fst (startup_reconcile local_pos persisted False exch rc)) = Map.empty"
    by (simp_all add: startup_reconcile_def empty_report_def)
  have "\<not> stop \<Longrightarrow> sr_adopted rep = (\<lambda>i. if i \<in> ?U then Some (map_get 0 exch i) else None)"
    using all unfolding adopted stop_def by (auto simp: fun_eq_iff)
  with off all show ?thesis unfolding res by (auto simp: stop_def)
qed

definition ex_startup :: StartupReconciler where
  "ex_startup = \<lparr>sc_auto_heal_threshold = 5, sc_log = None\<rparr>"

theorem startup_adopts_exchange_witness:
  "sr_adopted (fst (startup_reconcile [7 \<mapsto> 10] True True [7 \<mapsto> 12] ex_startup)) 7 = Some 12
    \<and> \<not> sr_can_start (fst (startup_reconcile [7 \<mapsto> 10] True True [7 \<mapsto> 20] ex_startup))"
proof -
  have "startup_tolerates (sc_auto_heal_threshold ex_startup) [7 \<mapsto> 10] [7 \<mapsto> 12] 7"
    "\<not> startup_tolerates (sc_auto_heal_threshold ex_startup) [7 \<mapsto> 10] [7 \<mapsto> 20] 7"
    by (simp_all add: startup_tolerates_def ex_startup_def map_get_def)
  then show ?thesis
    using startup_adopts_exchange [of "[7 \<mapsto> 10]" True True "[7 \<mapsto> 12]" ex_startup]
      startup_adopts_exchange [of "[7 \<mapsto> 10]" True True "[7 \<mapsto> 20]" ex_startup]
    by (simp add: map_get_def)
qed

section \<open>One instrument\<close>

lemma recon_instE:
  assumes "recon_inst ops now ex_pos inst pr om = Inr (r, pr', om')"
  obtains "dr_inst r = inst" and "dr_exchange r = map_get 0 ex_pos inst"
    and "dr_oms r = pos_net (position om inst)" and "dr_drift r = dr_exchange r - dr_oms r" and "dr_ts r = now"
    and "pr_cfg pr' = pr_cfg pr"
    and "dr_action r = InSync \<longleftrightarrow> \<bar>dr_drift r\<bar> \<le> pc_threshold (pr_cfg pr)"
    and "dr_action r = PendingConfirm \<longleftrightarrow> pc_threshold (pr_cfg pr) < \<bar>dr_drift r\<bar>
           \<and> map_get 0 (pr_persist pr) inst + 1 < pc_persist_cycles (pr_cfg pr)"
    and "dr_action r = AutoHealed \<or> dr_action r = Halted \<longrightarrow>
           (dr_action r = AutoHealed \<longleftrightarrow> \<bar>dr_drift r\<bar> \<le> pc_heal_band (pr_cfg pr))"
    and "pr_persist pr' = (pr_persist pr)(inst \<mapsto>
           (if dr_action r = PendingConfirm then map_get 0 (pr_persist pr) inst + 1 else 0))"
    and "pr_halted pr' \<longleftrightarrow> pr_halted pr \<or> dr_action r = Halted"
    and "pr_corrective_orders pr' = pr_corrective_orders pr + (if dr_action r = AutoHealed then 1 else 0)"
    and "pr_halts pr' = pr_halts pr + (if dr_action r = Halted then 1 else 0)"
    and "if dr_action r = AutoHealed
           then \<exists>i. submit ops (corrective_request ops inst (dr_drift r) om) om = Inr (i, om') else om' = om"
proof -
  let ?net = "pos_net (position om inst)" and ?ex = "map_get 0 ex_pos inst"
  let ?d = "?ex - ?net" and ?c = "map_get 0 (pr_persist pr) inst + 1"
  let ?rec = "\<lambda>act. \<lparr>dr_inst = inst, dr_exchange = ?ex, dr_oms = ?net, dr_drift = ?d, dr_action = act, dr_ts = now\<rparr>"
  have ad: "(if x < 0 then - x else x) = \<bar>x\<bar>" for x :: int by simp
  note eq = assms [unfolded recon_inst_def Let_def ad]
  consider "\<bar>?d\<bar> \<le> pc_threshold (pr_cfg pr)"
    | "pc_threshold (pr_cfg pr) < \<bar>?d\<bar>" "?c < pc_persist_cycles (pr_cfg pr)"
    | "pc_threshold (pr_cfg pr) < \<bar>?d\<bar>" "pc_persist_cycles (pr_cfg pr) \<le> ?c" "\<bar>?d\<bar> \<le> pc_heal_band (pr_cfg pr)"
    | "pc_threshold (pr_cfg pr) < \<bar>?d\<bar>" "pc_persist_cycles (pr_cfg pr) \<le> ?c" "pc_heal_band (pr_cfg pr) < \<bar>?d\<bar>"
    by linarith
  then show thesis
  proof cases
    case 1
    then have "r = ?rec InSync" "om' = om"
      "pr' = (if \<bar>?d\<bar> = 0 then recon_log Info (resolved_line inst) (pr\<lparr>pr_persist := (pr_persist pr)(inst \<mapsto> 0)\<rparr>)
              else pr\<lparr>pr_persist := (pr_persist pr)(inst \<mapsto> 0)\<rparr>)"
      using eq by auto
    then show thesis using 1 by (intro that) (simp_all add: recon_log_def)
  next
    case 2
    then have "r = ?rec PendingConfirm" "om' = om"
      "pr' = recon_log Warn (pending_line inst ?ex ?net ?d ?c) (pr\<lparr>pr_persist := (pr_persist pr)(inst \<mapsto> ?c)\<rparr>)"
      using eq by auto
    then show thesis using 2 by (intro that) (simp_all add: recon_log_def)
  next
    case 3
    let ?req = "corrective_request ops inst ?d om"
    obtain i where i: "submit ops ?req om = Inr (i, om')" "r = ?rec AutoHealed"
      "pr' = recon_log Warn (heal_line inst ?ex ?net (signed_qty (rq_side ?req) (rq_size ?req)))
         (pr\<lparr>pr_persist := (pr_persist pr)(inst \<mapsto> ?c, inst \<mapsto> 0),
             pr_corrective_orders := pr_corrective_orders pr + 1\<rparr>)"
      using eq 3 by (auto simp: ebind_Inr_iff)
    then show thesis using 3 by (intro that) (simp_all add: recon_log_def)
  next
    case 4
    then have "r = ?rec Halted" "om' = om"
      "pr' = recon_log LogError (halt_line inst ?ex ?net ?d)
         (pr\<lparr>pr_persist := (pr_persist pr)(inst \<mapsto> ?c, inst \<mapsto> 0), pr_halted := True,
             pr_halts := pr_halts pr + 1\<rparr>)"
      using eq by auto
    then show thesis using 4 by (intro that) (simp_all add: recon_log_def)
  qed
qed

section \<open>Persistence\<close>

text \<open>
  The history of a reconciler: the records of all its cycles so far, whatever manager state each
  cycle met and however often it was re-armed in between.
\<close>

inductive recon_reach ::
  "'e ExchangeClient \<Rightarrow> PeriodicReconConfig \<Rightarrow> PeriodicReconciler \<Rightarrow> DriftRecord list \<Rightarrow> bool" for ops cfg where
  rr_new: "recon_reach ops cfg (recon_new cfg sink) []"
| rr_cycle: "recon_reach ops cfg pr h \<Longrightarrow> reconcile ops now pr om = Inr (out, pr', om')
     \<Longrightarrow> recon_reach ops cfg pr' (h @ out)"
| rr_rearm: "recon_reach ops cfg pr h \<Longrightarrow> recon_reach ops cfg (rearm pr) h"

definition pending_streak :: "InstrumentId \<Rightarrow> DriftRecord list \<Rightarrow> nat" where
  "pending_streak inst h =
     length (takeWhile (\<lambda>r. dr_action r = PendingConfirm) (rev (filter (\<lambda>r. dr_inst r = inst) h)))"

lemma pending_streak_snoc:
  "pending_streak inst (h @ [r]) =
     (if dr_inst r = inst then (if dr_action r = PendingConfirm then pending_streak inst h + 1 else 0)
      else pending_streak inst h)"
  by (simp add: pending_streak_def)

text \<open>A record is backed by the history before it.\<close>

definition backed :: "PeriodicReconConfig \<Rightarrow> DriftRecord list \<Rightarrow> DriftRecord \<Rightarrow> bool" where
  "backed cfg h r \<longleftrightarrow> (dr_action r = InSync \<longleftrightarrow> \<bar>dr_drift r\<bar> \<le> pc_threshold cfg)
     \<and> (dr_action r = AutoHealed \<or> dr_action r = Halted \<longrightarrow>
          pc_persist_cycles cfg \<le> int (pending_streak (dr_inst r) h) + 1
          \<and> (dr_action r = AutoHealed \<longleftrightarrow> \<bar>dr_drift r\<bar> \<le> pc_heal_band cfg))"

definition recon_ok :: "PeriodicReconConfig \<Rightarrow> PeriodicReconciler \<Rightarrow> DriftRecord list \<Rightarrow> bool" where
  "recon_ok cfg pr h \<longleftrightarrow> pr_cfg pr = cfg
     \<and> (\<forall>inst. map_get 0 (pr_persist pr) inst = int (pending_streak inst h))
     \<and> (\<forall>n < length h. backed cfg (take n h) (h ! n))"

lemma recon_inst_ok:
  assumes "recon_ok cfg pr h" and "recon_inst ops now ex_pos inst pr om = Inr (r, pr', om')"
  shows "recon_ok cfg pr' (h @ [r])"
  using assms(2)
proof (rule recon_instE)
  assume f: "dr_inst r = inst" "pr_cfg pr' = pr_cfg pr"
    "dr_action r = InSync \<longleftrightarrow> \<bar>dr_drift r\<bar> \<le> pc_threshold (pr_cfg pr)"
    "dr_action r = PendingConfirm \<longleftrightarrow> pc_threshold (pr_cfg pr) < \<bar>dr_drift r\<bar>
           \<and> map_get 0 (pr_persist pr) inst + 1 < pc_persist_cycles (pr_cfg pr)"
    "dr_action r = AutoHealed \<or> dr_action r = Halted \<longrightarrow>
           (dr_action r = AutoHealed \<longleftrightarrow> \<bar>dr_drift r\<bar> \<le> pc_heal_band (pr_cfg pr))"
    "pr_persist pr' = (pr_persist pr)(inst \<mapsto>
           (if dr_action r = PendingConfirm then map_get 0 (pr_persist pr) inst + 1 else 0))"
  have ok: "pr_cfg pr = cfg" "\<And>i. map_get 0 (pr_persist pr) i = int (pending_streak i h)"
    "\<And>n. n < length h \<Longrightarrow> backed cfg (take n h) (h ! n)"
    using assms(1) by (simp_all add: recon_ok_def)
  have "pc_persist_cycles cfg \<le> int (pending_streak inst h) + 1"
    if "dr_action r = AutoHealed \<or> dr_action r = Halted"
    using that f(3,4) by (auto simp: ok)
  then have "backed cfg h r" using f(1,3,5) by (auto simp: backed_def ok)
  then have "backed cfg (take n (h @ [r])) ((h @ [r]) ! n)" if "n < Suc (length h)" for n
    using that ok(3) by (cases "n = length h") (simp_all add: nth_append)
  then show ?thesis using f(1,2,6) ok(1,2) by (simp add: recon_ok_def pending_streak_snoc)
qed

lemma recon_insts_ok:
  assumes "recon_ok cfg pr (h @ out)" and "recon_insts ops now ex_pos insts out pr om = Inr (out', pr', om')"
  shows "recon_ok cfg pr' (h @ out')"
  using assms
proof (induction insts arbitrary: out pr om)
  case (Cons inst insts)
  obtain r pr1 om1 where s: "recon_inst ops now ex_pos inst pr om = Inr (r, pr1, om1)"
    "(if dr_action r = Halted then Inr (out @ [r], pr1, om1)
      else recon_insts ops now ex_pos insts (out @ [r]) pr1 om1) = Inr (out', pr', om')"
    using Cons.prems(2) by (auto simp: ebind_Inr_iff)
  have "recon_ok cfg pr1 (h @ (out @ [r]))" using recon_inst_ok [OF Cons.prems(1) s(1)] by simp
  then show ?case using Cons.IH s(2) by (auto split: if_splits)
qed simp

lemma recon_reach_ok: "recon_reach ops cfg pr h \<Longrightarrow> recon_ok cfg pr h"
proof (induction rule: recon_reach.induct)
  case (rr_new sink)
  then show ?case by (simp add: recon_ok_def recon_new_def pending_streak_def)
next
  case (rr_cycle pr h now om out pr' om')
  show ?case
  proof (cases "pr_halted pr")
    case True
    then show ?thesis using rr_cycle by (simp add: reconcile_def)
  next
    case False
    then show ?thesis using rr_cycle recon_insts_ok [of cfg pr h "[]"] by (auto simp: reconcile_def Let_def)
  qed
next
  case (rr_rearm pr h)
  then show ?case by (simp add: recon_ok_def rearm_def)
qed

text \<open>C11: the periodic reconciler acts on persistent drift only. Whenever, over any number of cycles
  and re-arms, a record reports a corrective order or a halt, its drift exceeds the threshold, the
  instrument's records just before it are at least \<open>persist_cycles - 1\<close> unconfirmed drifts in a row,
  each over the threshold too, and the heal band decides which of the two it is.\<close>

theorem recon_acts_on_persistent_drift:
  assumes "recon_reach ops cfg pr (h1 @ r # h2)" and "dr_action r \<in> {AutoHealed, Halted}"
  shows "pc_threshold cfg < \<bar>dr_drift r\<bar>
    \<and> pc_persist_cycles cfg - 1 \<le> int (pending_streak (dr_inst r) h1)
    \<and> (\<forall>p \<in> set h1. dr_action p = PendingConfirm \<longrightarrow> pc_threshold cfg < \<bar>dr_drift p\<bar>)
    \<and> (dr_action r = AutoHealed \<longleftrightarrow> \<bar>dr_drift r\<bar> \<le> pc_heal_band cfg)"
proof -
  let ?h = "h1 @ r # h2"
  have ok: "backed cfg (take n ?h) (?h ! n)" if "n < length ?h" for n
    using recon_reach_ok [OF assms(1)] that by (simp add: recon_ok_def)
  from ok [of "length h1"] have r: "backed cfg h1 r" by simp
  have "pc_threshold cfg < \<bar>dr_drift p\<bar>" if p: "p \<in> set h1" "dr_action p = PendingConfirm" for p
  proof -
    obtain n where "n < length h1" "p = h1 ! n" using p(1) by (auto simp: in_set_conv_nth)
    with ok [of n] have "backed cfg (take n h1) p" by (simp add: nth_append)
    then show ?thesis using p(2) by (simp add: backed_def)
  qed
  with r assms(2) show ?thesis by (auto simp: backed_def)
qed

text \<open>A manager that holds 4 of an instrument its only venue reports nothing of.\<close>

definition ex_drifted :: "nat OrderManager" where
  "ex_drifted = ex_om\<lparr>om_positions := [7 \<mapsto> empty_position\<lparr>pos_net := 4\<rparr>]\<rparr>"

definition ex_recon_config :: PeriodicReconConfig where
  "ex_recon_config = \<lparr>pc_threshold = 0, pc_heal_band = 3, pc_persist_cycles = 2\<rparr>"

definition ex_drift :: "DriftAction \<Rightarrow> Timestamp \<Rightarrow> DriftRecord" where
  "ex_drift act now = \<lparr>dr_inst = 7, dr_exchange = 0, dr_oms = 4, dr_drift = -4, dr_action = act, dr_ts = now\<rparr>"

lemma ex_drifted_cycle:
  "\<not> pr_halted pr \<Longrightarrow> reconcile (ex_client r) now pr ex_drifted
     = recon_insts (ex_client r) now Map.empty [7] [] pr ex_drifted"
proof -
  have "snapshot_positions (ex_client r) (om_registry ex_drifted) = Map.empty"
    by (simp add: snapshot_positions_def registry_venues_def registry_get_def ex_drifted_def ex_om_def
        ex_client_def add_positions_def)
  moreover have "om_instruments ex_drifted = {7}" by (simp add: om_instruments_def ex_drifted_def)
  ultimately show "\<not> pr_halted pr \<Longrightarrow> ?thesis" by (simp add: reconcile_def recon_universe_def Let_def)
qed

lemma ex_drifted_position: "pos_net (position ex_drifted 7) = 4"
  by (simp add: position_def ex_drifted_def)

theorem recon_acts_on_persistent_drift_witness:
  "\<exists>pr. recon_reach (ex_client SendOk) ex_recon_config pr [ex_drift PendingConfirm 1, ex_drift Halted 2]
     \<and> pending_streak 7 [ex_drift PendingConfirm 1] = 1
     \<and> \<not> \<bar>dr_drift (ex_drift Halted 2)\<bar> \<le> pc_heal_band ex_recon_config"
proof -
  let ?ops = "ex_client SendOk" and ?p0 = "recon_new ex_recon_config None"
  obtain p1 where "recon_inst ?ops 1 Map.empty 7 ?p0 ex_drifted = Inr (ex_drift PendingConfirm 1, p1, ex_drifted)"
      and p1: "\<not> pr_halted p1" "pr_cfg p1 = ex_recon_config" "pr_persist p1 = [7 \<mapsto> 1]"
    by (simp add: recon_inst_def Let_def ex_drifted_position recon_new_def ex_recon_config_def ex_drift_def recon_log_def)
  then have c1: "reconcile ?ops 1 ?p0 ex_drifted = Inr ([ex_drift PendingConfirm 1], p1, ex_drifted)"
    by (simp add: ex_drifted_cycle recon_new_def ex_drift_def)
  obtain p2 where "recon_inst ?ops 2 Map.empty 7 p1 ex_drifted = Inr (ex_drift Halted 2, p2, ex_drifted)"
    using p1 by (simp add: recon_inst_def Let_def ex_drifted_position ex_recon_config_def ex_drift_def recon_log_def)
  then have c2: "reconcile ?ops 2 p1 ex_drifted = Inr ([ex_drift Halted 2], p2, ex_drifted)"
    using p1(1) by (simp add: ex_drifted_cycle ex_drift_def)
  have run: "recon_reach ?ops ex_recon_config p2 ([] @ [ex_drift PendingConfirm 1] @ [ex_drift Halted 2])"
    using rr_cycle [OF rr_cycle [OF rr_new c1] c2] by simp
  then have "recon_reach ?ops ex_recon_config p2 ([ex_drift PendingConfirm 1] @ ex_drift Halted 2 # [])" by simp
  from recon_acts_on_persistent_drift [OF this] run show ?thesis
    by (auto simp: ex_drift_def pending_streak_def)
qed

section \<open>What a cycle compares, and what it changes\<close>

text \<open>The reference for the snapshot: the sum over the connected venues.\<close>

definition connected_position :: "'e ExchangeClient \<Rightarrow> 'e ExchangeRegistry \<Rightarrow> InstrumentId \<Rightarrow> Quantity" where
  "connected_position ops r inst = (\<Sum>v \<in> UNIV. case registry_get r v of
       None \<Rightarrow> 0
     | Some ex \<Rightarrow> if ec_is_connected ops ex then map_get 0 (ec_get_positions ops ex) inst else 0)"

lemma map_get_add_positions: "map_get 0 (add_positions m f) inst = map_get 0 m inst + map_get 0 f inst"
  by (simp add: add_positions_def map_get_def split: option.split)

lemma snapshot_sum:
  assumes "registry_inv r"
  shows "map_get 0 (snapshot_positions ops r) inst = connected_position ops r inst"
proof -
  let ?q = "\<lambda>v. case registry_get r v of None \<Rightarrow> 0
     | Some ex \<Rightarrow> if ec_is_connected ops ex then map_get 0 (ec_get_positions ops ex) inst else 0"
  let ?f = "\<lambda>m v. case registry_get r v of None \<Rightarrow> m
     | Some ex \<Rightarrow> if \<not> ec_is_connected ops ex then m else add_positions m (ec_get_positions ops ex)"
  have fold: "map_get 0 (foldl ?f m vs) inst = map_get 0 m inst + sum_list (map ?q vs)" for m vs
    by (induction vs arbitrary: m) (auto simp: map_get_add_positions split: option.split)
  have "distinct (registry_venues r)"
    using registry_venues_sorted [OF assms] by (simp add: strict_sorted_iff sorted_wrt_iff_nth_less distinct_conv_nth)
      (metis linorder_neqE_nat order_less_irrefl)
  then have "sum_list (map ?q (registry_venues r)) = sum ?q (set (registry_venues r))"
    by (rule sum_list_distinct_conv_sum_set)
  also have "\<dots> = sum ?q UNIV"
    using registry_venues_iff [OF assms] by (intro sum.mono_neutral_left) auto
  finally show ?thesis using fold [of Map.empty] by (simp add: snapshot_positions_def connected_position_def)
qed

lemma corrective_request_valid: "valid_request (corrective_request ops inst drift om)"
  by (simp add: valid_request_def corrective_request_def default_request_def Let_def)

lemma submit_keeps_positions:
  assumes "om_inv s" and "valid_request req" and "submit ops req s = Inr (j, s')"
  shows "pos_net (position s' k) = pos_net (position s k)"
proof -
  have "lg_net (ledger_of s') = lg_net (ledger_of s)"
    using submit_ledger [OF assms] by (auto simp: ledger_open_def)
  then show ?thesis by (simp add: ledger_of_def fun_eq_iff)
qed

lemma recon_insts_step:
  assumes "om_inv om"
  obtains r pr1 om1 where "recon_inst ops now ex_pos inst pr om = Inr (r, pr1, om1)" and "om_inv om1"
    and "\<forall>k. pos_net (position om1 k) = pos_net (position om k)"
proof -
  have res: "\<exists>r pr1 om1. recon_inst ops now ex_pos inst pr om = Inr (r, pr1, om1)"
  proof -
    obtain j om1 where "submit ops (corrective_request ops inst (map_get 0 ex_pos inst - pos_net (position om inst)) om) om
        = Inr (j, om1)" using submit_ok [OF assms corrective_request_valid] by metis
    then show ?thesis by (simp add: recon_inst_def Let_def)
  qed
  then obtain r pr1 om1 where r: "recon_inst ops now ex_pos inst pr om = Inr (r, pr1, om1)" by blast
  then have "om1 = om \<or> (\<exists>j. submit ops (corrective_request ops inst (dr_drift r) om) om = Inr (j, om1))"
    by (rule recon_instE) (auto split: if_splits)
  moreover have "om_inv om1 \<and> (\<forall>k. pos_net (position om1 k) = pos_net (position om k))"
    if "submit ops (corrective_request ops inst (dr_drift r) om) om = Inr (j, om1)" for j
    using submit_ok [OF assms corrective_request_valid, of ops ops inst "dr_drift r" om] that
      submit_keeps_positions [OF assms corrective_request_valid that] by (metis Inr_inject prod.inject)
  ultimately show thesis using that [OF r] assms by blast
qed

lemma recon_insts_total:
  assumes "om_inv om"
  obtains rs pr' om' where "recon_insts ops now ex_pos insts out pr om = Inr (out @ rs, pr', om')" and "om_inv om'"
    and "\<forall>k. pos_net (position om' k) = pos_net (position om k)"
    and "\<forall>r \<in> set rs. dr_inst r \<in> set insts \<and> dr_exchange r = map_get 0 ex_pos (dr_inst r)
           \<and> dr_oms r = pos_net (position om (dr_inst r)) \<and> dr_drift r = dr_exchange r - dr_oms r"
    and "\<exists>rest. insts = map dr_inst rs @ rest \<and> (rest \<noteq> [] \<longrightarrow> rs \<noteq> [] \<and> dr_action (last rs) = Halted)"
  using assms
proof (induction insts arbitrary: out pr om thesis)
  case Nil
  show ?case by (rule Nil(1) [of "[]" pr om]) (use Nil(2) in auto)
next
  case (Cons inst insts)
  obtain r pr1 om1 where s: "recon_inst ops now ex_pos inst pr om = Inr (r, pr1, om1)" "om_inv om1"
    "\<forall>k. pos_net (position om1 k) = pos_net (position om k)" by (rule recon_insts_step
        [OF Cons.prems(2), where ops = ops and now = now and ex_pos = ex_pos and inst = inst and pr = pr])
  have f: "dr_inst r = inst" "dr_exchange r = map_get 0 ex_pos inst" "dr_oms r = pos_net (position om inst)"
    "dr_drift r = dr_exchange r - dr_oms r" using s(1) by (auto elim: recon_instE)
  show ?case
  proof (cases "dr_action r = Halted")
    case True
    then show ?thesis using Cons.prems(1) [of "[r]" pr1 om1] s f by simp
  next
    case False
    obtain rs pr' om' where h: "recon_insts ops now ex_pos insts (out @ [r]) pr1 om1 = Inr ((out @ [r]) @ rs, pr', om')"
      "om_inv om'" "\<forall>k. pos_net (position om' k) = pos_net (position om1 k)"
      "\<forall>x \<in> set rs. dr_inst x \<in> set insts \<and> dr_exchange x = map_get 0 ex_pos (dr_inst x)
           \<and> dr_oms x = pos_net (position om1 (dr_inst x)) \<and> dr_drift x = dr_exchange x - dr_oms x"
      "\<exists>rest. insts = map dr_inst rs @ rest \<and> (rest \<noteq> [] \<longrightarrow> rs \<noteq> [] \<and> dr_action (last rs) = Halted)"
      by (rule Cons.IH [OF _ s(2)])
    show ?thesis
    proof (rule Cons.prems(1) [of "r # rs" pr' om'])
      show "recon_insts ops now ex_pos (inst # insts) out pr om = Inr (out @ r # rs, pr', om')"
        using s(1) h(1) False by simp
      show "\<exists>rest. inst # insts = map dr_inst (r # rs) @ rest
          \<and> (rest \<noteq> [] \<longrightarrow> r # rs \<noteq> [] \<and> dr_action (last (r # rs)) = Halted)"
        using h(5) f(1) by auto
    qed (use h f s(3) in auto)
  qed
qed

text \<open>The records of a cycle account for what it did.\<close>

lemma recon_insts_counts:
  assumes "recon_insts ops now ex_pos insts out pr om = Inr (out @ rs, pr', om')"
  shows "pr_corrective_orders pr' = pr_corrective_orders pr
           + of_nat (length (filter (\<lambda>r. dr_action r = AutoHealed) rs))
    \<and> pr_halts pr' = pr_halts pr + of_nat (length (filter (\<lambda>r. dr_action r = Halted) rs))
    \<and> (pr_halted pr' \<longleftrightarrow> pr_halted pr \<or> (\<exists>r \<in> set rs. dr_action r = Halted))
    \<and> length (filter (\<lambda>r. dr_action r = Halted) rs) \<le> 1"
  using assms
proof (induction insts arbitrary: out rs pr om)
  case (Cons inst insts)
  obtain r pr1 om1 where s: "recon_inst ops now ex_pos inst pr om = Inr (r, pr1, om1)"
    "(if dr_action r = Halted then Inr (out @ [r], pr1, om1)
      else recon_insts ops now ex_pos insts (out @ [r]) pr1 om1) = Inr (out @ rs, pr', om')"
    using Cons.prems by (auto simp: ebind_Inr_iff)
  have f: "pr_halted pr1 \<longleftrightarrow> pr_halted pr \<or> dr_action r = Halted"
    "pr_corrective_orders pr1 = pr_corrective_orders pr + (if dr_action r = AutoHealed then 1 else 0)"
    "pr_halts pr1 = pr_halts pr + (if dr_action r = Halted then 1 else 0)" using s(1) by (auto elim: recon_instE)
  show ?case
  proof (cases "dr_action r = Halted")
    case True
    then show ?thesis using s(2) f by auto
  next
    case False
    have ext: "\<exists>rs1. res = ot @ rs1" if "recon_insts ops now ex_pos is ot p m = Inr (res, p', m')"
      for "is" res ot p m p' m'
      using that by (induction "is" arbitrary: ot p m) (fastforce simp: ebind_Inr_iff split: if_splits)+
    from False s(2) obtain rs1 where "recon_insts ops now ex_pos insts (out @ [r]) pr1 om1 = Inr ((out @ [r]) @ rs1, pr', om')"
      "rs = r # rs1" using ext [of insts "out @ [r]" pr1 om1 "out @ rs"] by auto
    with Cons.IH [of "out @ [r]" pr1 om1 rs1] f False show ?thesis by auto
  qed
qed simp

text \<open>C37: one reconciliation cycle. On a well-formed manager it always completes and keeps the manager
  well formed; it changes no position; it examines the instruments in ascending order, all of them
  unless it halts; every record compares the manager's filled position with the sum over the venues
  connected at that moment, so that a disconnected venue counts as flat; and the reconciler counts
  the corrective orders and halts its records report (an order the manager refused included).\<close>

theorem recon_cycle_compares_connected:
  assumes "om_inv om" and "registry_inv (om_registry om)" and "\<not> pr_halted pr"
  shows "\<exists>out pr' om'. reconcile ops now pr om = Inr (out, pr', om') \<and> om_inv om'
    \<and> (\<forall>k. pos_net (position om' k) = pos_net (position om k))
    \<and> (\<forall>r \<in> set out. dr_exchange r = connected_position ops (om_registry om) (dr_inst r)
         \<and> dr_oms r = pos_net (position om (dr_inst r)) \<and> dr_drift r = dr_exchange r - dr_oms r)
    \<and> (\<exists>rest. sorted_list_of_set (dom (snapshot_positions ops (om_registry om)) \<union> om_instruments om)
            = map dr_inst out @ rest
         \<and> (rest = [] \<or> out \<noteq> [] \<and> dr_action (last out) = Halted))
    \<and> pr_corrective_orders pr' = pr_corrective_orders pr
         + of_nat (length (filter (\<lambda>r. dr_action r = AutoHealed) out))
    \<and> (pr_halted pr' \<longleftrightarrow> (\<exists>r \<in> set out. dr_action r = Halted))"
proof -
  let ?ex = "snapshot_positions ops (om_registry om)"
  obtain rs pr' om' where r: "recon_insts ops now ?ex (recon_universe ?ex om) [] pr om = Inr ([] @ rs, pr', om')"
    "om_inv om'" "\<forall>k. pos_net (position om' k) = pos_net (position om k)"
    "\<forall>x \<in> set rs. dr_inst x \<in> set (recon_universe ?ex om) \<and> dr_exchange x = map_get 0 ?ex (dr_inst x)
       \<and> dr_oms x = pos_net (position om (dr_inst x)) \<and> dr_drift x = dr_exchange x - dr_oms x"
    "\<exists>rest. recon_universe ?ex om = map dr_inst rs @ rest
       \<and> (rest \<noteq> [] \<longrightarrow> rs \<noteq> [] \<and> dr_action (last rs) = Halted)"
    by (rule recon_insts_total [OF assms(1), where ops = ops and now = now and ex_pos = ?ex
        and insts = "recon_universe ?ex om" and out = "[]" and pr = pr])
  have "reconcile ops now pr om = Inr (rs, pr', om')" using r(1) assms(3) by (simp add: reconcile_def Let_def)
  moreover have "\<forall>x \<in> set rs. dr_exchange x = connected_position ops (om_registry om) (dr_inst x)
         \<and> dr_oms x = pos_net (position om (dr_inst x)) \<and> dr_drift x = dr_exchange x - dr_oms x"
    using r(4) snapshot_sum [OF assms(2)] by simp
  moreover have "pr_corrective_orders pr' = pr_corrective_orders pr
         + of_nat (length (filter (\<lambda>r. dr_action r = AutoHealed) rs))"
    "pr_halted pr' \<longleftrightarrow> (\<exists>r \<in> set rs. dr_action r = Halted)"
    using recon_insts_counts [OF r(1)] assms(3) by auto
  ultimately show ?thesis using r(2,3,5) unfolding recon_universe_def by blast
qed

theorem recon_cycle_compares_connected_witness:
  "\<exists>out pr' om'. reconcile (ex_client SendOk) 1 (recon_new default_recon_config None) ex_drifted = Inr (out, pr', om')
     \<and> om_inv om' \<and> pos_net (position om' 7) = 4 \<and> pr_corrective_orders pr' = 0 \<and> \<not> pr_halted pr'"
proof -
  let ?pr = "recon_new default_recon_config None"
  have inv: "om_inv ex_drifted" using ex_om_inv by (simp add: ex_drifted_def om_inv_def)
  have reg: "registry_inv (om_registry ex_drifted)" by (simp add: registry_inv_def ex_drifted_def ex_om_def)
  have run: "\<not> pr_halted ?pr" "pr_corrective_orders ?pr = 0" by (simp_all add: recon_new_def)
  obtain p1 where "recon_inst (ex_client SendOk) 1 Map.empty 7 ?pr ex_drifted
      = Inr (ex_drift PendingConfirm 1, p1, ex_drifted)"
    by (simp add: recon_inst_def Let_def ex_drifted_position recon_new_def default_recon_config_def ex_drift_def)
  then have "reconcile (ex_client SendOk) 1 ?pr ex_drifted = Inr ([ex_drift PendingConfirm 1], p1, ex_drifted)"
    using run by (simp add: ex_drifted_cycle ex_drift_def)
  with recon_cycle_compares_connected [OF inv reg run(1), of "ex_client SendOk" 1] run(2) show ?thesis
    by (auto simp: ex_drift_def ex_drifted_position)
qed

end
