(* ===== verification/SimExchange.thy ===== *)
theory SimExchange
  imports Exchange Double "HOL-Library.Product_Lexorder" "HOL-Library.Multiset"
begin

text \<open>
  \<^verbatim>\<open>sim/SimulatedExchange.h\<close>, \<^verbatim>\<open>sim/SimulatedExchange.cpp\<close>: the deterministic venue the tests and
  the benchmark run on. Time is logical: \<^verbatim>\<open>poll()\<close> advances it and delivers every due event.

  The priority queue with \<^verbatim>\<open>EventGreater\<close> is the list of its events in the order \<^verbatim>\<open>top()\<close>/\<^verbatim>\<open>pop()\<close>
  yields them. The random numbers are the library's: \<^verbatim>\<open>std::bernoulli_distribution\<close> leaves open
  how it draws from the generator, so the generator state is a type \<open>'g\<close> and a draw with a
  probability is the parameter \<open>draw\<close>. The sink is called with \<open>SinkCall\<close>s; the handlers behind it
  never call the venue back.
\<close>

section \<open>Data\<close>

record SimConfig =
  sc_seed :: u64
  sc_step_ns :: Timestamp
  sc_ack_latency_ns :: Timestamp
  sc_fill_latency_ns :: Timestamp
  sc_fill_gap_ns :: Timestamp
  sc_partial_chunks :: int
  sc_reject_prob :: double
  sc_unsolicited_cancel_prob :: double
  sc_duplicate_fill_prob :: double
  sc_reorder_fill_before_ack :: bool
  sc_start_connected :: bool

definition default_sim_config :: SimConfig where
  "default_sim_config = \<lparr>sc_seed = 0, sc_step_ns = 1000000, sc_ack_latency_ns = 1000000,
     sc_fill_latency_ns = 2000000, sc_fill_gap_ns = 1000000, sc_partial_chunks = 1,
     sc_reject_prob = 0, sc_unsolicited_cancel_prob = 0, sc_duplicate_fill_prob = 0,
     sc_reorder_fill_before_ack = False, sc_start_connected = True\<rparr>"

datatype EvType = SimConfirm | SimFill | SimReject | SimCancelAck | SimCancelReject | SimUnsolicited

record SimEvent =
  se_at :: Timestamp
  se_seq :: u64
  se_type :: EvType
  se_id :: OrderIdRaw
  se_qty :: Quantity
  se_price :: Price
  se_trade :: TradeId
  se_final :: bool
  se_reason :: RejectReason

definition sim_event :: "Timestamp \<Rightarrow> EvType \<Rightarrow> OrderIdRaw \<Rightarrow> SimEvent" where
  "sim_event t ty i = \<lparr>se_at = t, se_seq = 0, se_type = ty, se_id = i, se_qty = 0, se_price = 0,
     se_trade = 0, se_final = False, se_reason = ReasonUnknown\<rparr>"

text \<open>\<^verbatim>\<open>EventGreater\<close>: by time, then by sequence number.\<close>

definition event_key :: "SimEvent \<Rightarrow> Timestamp \<times> u64" where
  "event_key ev = (se_at ev, se_seq ev)"

record Working =
  wk_instrument :: InstrumentId
  wk_side :: Side
  wk_size :: Quantity
  wk_remaining :: Quantity
  wk_price :: Price
  wk_exchange_id :: ExchangeOrderId
  wk_alive :: bool
  wk_seen_trades :: "TradeId set"

record 'g SimulatedExchange =
  sx_venue :: VenueId
  sx_cfg :: SimConfig
  sx_rng :: 'g
  sx_sink :: bool
  sx_connected :: bool
  sx_now :: Timestamp
  sx_seq_counter :: u64
  sx_exch_counter :: u64
  sx_trade_counter :: TradeId
  sx_queue :: "SimEvent list"
  sx_working :: "OrderIdRaw \<rightharpoonup> Working"
  sx_working_iter :: "OrderIdRaw set \<Rightarrow> OrderIdRaw list"
  sx_positions :: "InstrumentId \<rightharpoonup> Quantity"
  sx_books :: "InstrumentId \<rightharpoonup> TopOfBook"

text \<open>
  The constructor; \<open>seed_rng\<close> is the generator seeded, \<open>iter\<close> the iteration order of the map of
  working orders, which the standard leaves open.
\<close>

definition sim_new :: "(u64 \<Rightarrow> 'g) \<Rightarrow> (OrderIdRaw set \<Rightarrow> OrderIdRaw list) \<Rightarrow> VenueId \<Rightarrow> SimConfig
     \<Rightarrow> 'g SimulatedExchange" where
  "sim_new seed_rng iter venue cfg = \<lparr>sx_venue = venue, sx_cfg = cfg, sx_rng = seed_rng (sc_seed cfg),
     sx_sink = False, sx_connected = sc_start_connected cfg, sx_now = 0, sx_seq_counter = 0,
     sx_exch_counter = 0, sx_trade_counter = 0, sx_queue = [], sx_working = Map.empty,
     sx_working_iter = iter, sx_positions = Map.empty, sx_books = Map.empty\<rparr>"

section \<open>Scheduling\<close>

definition queue_push_event :: "SimEvent \<Rightarrow> SimEvent list \<Rightarrow> SimEvent list" where
  "queue_push_event ev q = insort_key event_key ev q"

definition schedule :: "SimEvent \<Rightarrow> 'g SimulatedExchange \<Rightarrow> 'g SimulatedExchange" where
  "schedule ev x = x\<lparr>sx_seq_counter := sx_seq_counter x + 1,
     sx_queue := queue_push_event (ev\<lparr>se_seq := sx_seq_counter x\<rparr>) (sx_queue x)\<rparr>"

definition sim_set_sink :: "bool \<Rightarrow> 'g SimulatedExchange \<Rightarrow> 'g SimulatedExchange" where
  "sim_set_sink b x = x\<lparr>sx_sink := b\<rparr>"

definition sim_set_connected :: "bool \<Rightarrow> 'g SimulatedExchange \<Rightarrow> 'g SimulatedExchange" where
  "sim_set_connected c x = x\<lparr>sx_connected := c\<rparr>"

definition sim_set_book :: "InstrumentId \<Rightarrow> TopOfBook \<Rightarrow> 'g SimulatedExchange \<Rightarrow> 'g SimulatedExchange" where
  "sim_set_book inst b x = x\<lparr>sx_books := (sx_books x)(inst \<mapsto> b)\<rparr>"

definition sim_set_position :: "InstrumentId \<Rightarrow> Quantity \<Rightarrow> 'g SimulatedExchange \<Rightarrow> 'g SimulatedExchange" where
  "sim_set_position inst q x = x\<lparr>sx_positions := (sx_positions x)(inst \<mapsto> q)\<rparr>"

definition sim_get_order_book :: "InstrumentId \<Rightarrow> 'g SimulatedExchange \<Rightarrow> TopOfBook" where
  "sim_get_order_book inst x = map_get empty_book (sx_books x) inst"

definition sim_draw :: "(double \<Rightarrow> 'g \<Rightarrow> bool \<times> 'g) \<Rightarrow> double \<Rightarrow> 'g SimulatedExchange \<Rightarrow> bool \<times> 'g SimulatedExchange" where
  "sim_draw draw p x = (let (b, g) = draw p (sx_rng x) in (b, x\<lparr>sx_rng := g\<rparr>))"

section \<open>Placing and cancelling\<close>

text \<open>
  The partial fills, chunk \<open>i\<close> to the last one: \<open>k\<close> chunks are left, \<open>assigned\<close> is handed out.
\<close>

fun schedule_fills ::
  "(double \<Rightarrow> 'g \<Rightarrow> bool \<times> 'g) \<Rightarrow> OrderIdRaw \<Rightarrow> Quantity \<Rightarrow> Price \<Rightarrow> Quantity \<Rightarrow> Timestamp
     \<Rightarrow> nat \<Rightarrow> int \<Rightarrow> Quantity \<Rightarrow> 'g SimulatedExchange \<Rightarrow> 'g SimulatedExchange" where
  "schedule_fills draw oid whole price base confirm_at 0 i assigned x = x"
| "schedule_fills draw oid whole price base confirm_at (Suc k) i assigned x =
     (let final = (k = 0);
          q = (if final then whole - assigned else base);
          assigned' = assigned + q
      in if q \<le> 0 then schedule_fills draw oid whole price base confirm_at k (i + 1) assigned' x
         else
           let t = (if sc_reorder_fill_before_ack (sx_cfg x) \<and> i = 0 then confirm_at - 1
                    else sx_now x + sc_fill_latency_ns (sx_cfg x) + i * sc_fill_gap_ns (sx_cfg x));
               trade = sx_trade_counter x + 1;
               ev = (sim_event t SimFill oid)\<lparr>se_qty := q, se_price := price, se_trade := trade, se_final := final\<rparr>;
               x1 = schedule ev (x\<lparr>sx_trade_counter := trade\<rparr>);
               (dup, x2) = sim_draw draw (sc_duplicate_fill_prob (sx_cfg x1)) x1;
               x3 = (if dup then schedule (ev\<lparr>se_at := t + 1\<rparr>) x2 else x2)
           in schedule_fills draw oid whole price base confirm_at k (i + 1) assigned' x3)"

text \<open>The order as the venue books it, and the events it schedules for it.\<close>

definition sim_book_order :: "Order \<Rightarrow> 'g SimulatedExchange \<Rightarrow> 'g SimulatedExchange" where
  "sim_book_order ord x =
     (let n = sx_exch_counter x + 1;
          w = \<lparr>wk_instrument = o_instrument ord, wk_side = o_side ord, wk_size = o_size ord,
               wk_remaining = o_size ord, wk_price = o_limit_price ord,
               wk_exchange_id = ''SIM-'' @ to_string (uint n), wk_alive = True, wk_seen_trades = {}\<rparr>
      in x\<lparr>sx_exch_counter := n, sx_working := (sx_working x)(o_internal_id ord \<mapsto> w)\<rparr>)"

definition sim_schedule_order ::
  "(double \<Rightarrow> 'g \<Rightarrow> bool \<times> 'g) \<Rightarrow> Order \<Rightarrow> 'g SimulatedExchange \<Rightarrow> 'g SimulatedExchange" where
  "sim_schedule_order draw ord x1 =
     (let oid = o_internal_id ord;
          cfg = sx_cfg x1;
          confirm_at = sx_now x1 + sc_ack_latency_ns cfg;
          (rejected, x2) = sim_draw draw (sc_reject_prob cfg) x1
      in if rejected then schedule ((sim_event confirm_at SimReject oid)\<lparr>se_reason := RiskLimit\<rparr>) x2
         else
           let x3 = schedule (sim_event confirm_at SimConfirm oid) x2;
               (unsol, x4) = sim_draw draw (sc_unsolicited_cancel_prob cfg) x3
           in if unsol then schedule (sim_event (confirm_at + sc_fill_latency_ns cfg) SimUnsolicited oid) x4
              else
                let chunks = (if sc_partial_chunks cfg < 1 then 1 else sc_partial_chunks cfg);
                    base = tdiv (o_size ord) chunks
                in schedule_fills draw oid (o_size ord) (o_limit_price ord) base confirm_at (nat chunks) 0 0 x4)"

definition sim_place_order ::
  "(double \<Rightarrow> 'g \<Rightarrow> bool \<times> 'g) \<Rightarrow> Order \<Rightarrow> 'g SimulatedExchange \<Rightarrow> SendResult \<times> 'g SimulatedExchange" where
  "sim_place_order draw ord x =
     (if \<not> sx_connected x then (TransportDown, x)
      else (SendOk, sim_schedule_order draw ord (sim_book_order ord x)))"

definition sim_cancel_order ::
  "OrderIdRaw \<Rightarrow> ExchangeOrderId \<Rightarrow> 'g SimulatedExchange \<Rightarrow> SendResult \<times> 'g SimulatedExchange" where
  "sim_cancel_order i xid x =
     (if \<not> sx_connected x then (TransportDown, x)
      else
        let t = sx_now x + sc_ack_latency_ns (sx_cfg x);
            gone = (case sx_working x i of None \<Rightarrow> True | Some w \<Rightarrow> \<not> wk_alive w)
        in if gone then (SendOk, schedule ((sim_event t SimCancelReject i)\<lparr>se_reason := CancelRejectedReason\<rparr>) x)
           else (SendOk, schedule (sim_event t SimCancelAck i) x))"

definition sim_mass_cancel ::
  "InstrumentId \<Rightarrow> 'g SimulatedExchange \<Rightarrow> SendResult \<times> 'g SimulatedExchange" where
  "sim_mass_cancel inst x =
     (if \<not> sx_connected x then (TransportDown, x)
      else (SendOk, foldl (\<lambda>y i. case sx_working x i of
               None \<Rightarrow> y
             | Some w \<Rightarrow>
                 if wk_alive w \<and> wk_instrument w = inst
                 then schedule (sim_event (sx_now x + sc_ack_latency_ns (sx_cfg x)) SimCancelAck i) y else y)
             x (sx_working_iter x (dom (sx_working x)))))"

section \<open>Delivery\<close>

datatype SinkCall =
    CallConfirm OrderIdRaw ExchangeOrderId Timestamp
  | CallFill OrderIdRaw Quantity Price TradeId Timestamp
  | CallReject OrderIdRaw RejectReason Timestamp
  | CallCancelAck OrderIdRaw Timestamp
  | CallUnsolicited OrderIdRaw Timestamp

definition sim_kill :: "OrderIdRaw \<Rightarrow> 'g SimulatedExchange \<Rightarrow> 'g SimulatedExchange" where
  "sim_kill i x =
     (case sx_working x i of
        None \<Rightarrow> x | Some w \<Rightarrow> x\<lparr>sx_working := (sx_working x)(i \<mapsto> w\<lparr>wk_alive := False\<rparr>)\<rparr>)"

text \<open>The venue's own book at a fill.\<close>

definition sim_book_fill :: "SimEvent \<Rightarrow> 'g SimulatedExchange \<Rightarrow> 'g SimulatedExchange" where
  "sim_book_fill ev x =
     (case sx_working x (se_id ev) of
        None \<Rightarrow> x
      | Some w \<Rightarrow>
          let dup = (se_trade ev \<in> wk_seen_trades w);
              w1 = w\<lparr>wk_seen_trades := insert (se_trade ev) (wk_seen_trades w)\<rparr>
          in if \<not> dup \<and> wk_alive w1 then
               let w2 = w1\<lparr>wk_remaining := wk_remaining w1 - se_qty ev\<rparr>;
                   w3 = (if se_final ev \<or> wk_remaining w2 \<le> 0 then w2\<lparr>wk_alive := False\<rparr> else w2)
               in x\<lparr>sx_working := (sx_working x)(se_id ev \<mapsto> w3),
                    sx_positions := map_upd 0 (\<lambda>p. p + signed_qty (wk_side w) (se_qty ev))
                                      (sx_positions x) (wk_instrument w)\<rparr>
             else x\<lparr>sx_working := (sx_working x)(se_id ev \<mapsto> w1)\<rparr>)"

definition sim_deliver :: "SimEvent \<Rightarrow> 'g SimulatedExchange \<Rightarrow> SinkCall list \<times> 'g SimulatedExchange" where
  "sim_deliver ev x =
     (if \<not> sx_sink x then ([], x)
      else case se_type ev of
          SimConfirm \<Rightarrow>
            ([CallConfirm (se_id ev)
                (case sx_working x (se_id ev) of Some w \<Rightarrow> wk_exchange_id w | None \<Rightarrow> []) (se_at ev)], x)
        | SimFill \<Rightarrow>
            ([CallFill (se_id ev) (se_qty ev) (se_price ev) (se_trade ev) (se_at ev)], sim_book_fill ev x)
        | SimReject \<Rightarrow> ([CallReject (se_id ev) (se_reason ev) (se_at ev)], sim_kill (se_id ev) x)
        | SimCancelAck \<Rightarrow> ([CallCancelAck (se_id ev) (se_at ev)], sim_kill (se_id ev) x)
        | SimCancelReject \<Rightarrow> ([CallReject (se_id ev) CancelRejectedReason (se_at ev)], x)
        | SimUnsolicited \<Rightarrow> ([CallUnsolicited (se_id ev) (se_at ev)], sim_kill (se_id ev) x))"

lemma sim_deliver_frame:
  "sim_deliver ev x = (calls, x') \<Longrightarrow> sx_queue x' = sx_queue x \<and> sx_now x' = sx_now x \<and> sx_sink x' = sx_sink x
     \<and> sx_cfg x' = sx_cfg x \<and> sx_connected x' = sx_connected x"
  by (auto simp: sim_deliver_def sim_book_fill_def sim_kill_def Let_def split: if_splits EvType.splits option.splits)

function sim_drain :: "'g SimulatedExchange \<Rightarrow> SinkCall list \<times> 'g SimulatedExchange" where
  "sim_drain x =
     (case sx_queue x of
        [] \<Rightarrow> ([], x)
      | ev # rest \<Rightarrow>
          if se_at ev \<le> sx_now x then
            (let (calls, x1) = sim_deliver ev (x\<lparr>sx_queue := rest\<rparr>);
                 (more, x2) = sim_drain x1
             in (calls @ more, x2))
          else ([], x))"
  by pat_completeness auto
termination
  by (relation "measure (\<lambda>x. length (sx_queue x))") (auto dest: sim_deliver_frame [OF sym])

declare sim_drain.simps [simp del]

definition sim_poll :: "'g SimulatedExchange \<Rightarrow> SinkCall list \<times> 'g SimulatedExchange" where
  "sim_poll x = sim_drain (x\<lparr>sx_now := sx_now x + sc_step_ns (sx_cfg x)\<rparr>)"

section \<open>Injectors\<close>

definition inject_confirm :: "OrderIdRaw \<Rightarrow> 'g SimulatedExchange \<Rightarrow> 'g SimulatedExchange" where
  "inject_confirm i x = schedule (sim_event (sx_now x + 1) SimConfirm i) x"

definition inject_fill :: "OrderIdRaw \<Rightarrow> Quantity \<Rightarrow> Price \<Rightarrow> TradeId \<Rightarrow> bool
     \<Rightarrow> 'g SimulatedExchange \<Rightarrow> 'g SimulatedExchange" where
  "inject_fill i q p t final x = schedule ((sim_event (sx_now x + 1) SimFill i)
     \<lparr>se_qty := q, se_price := p, se_trade := t, se_final := final\<rparr>) x"

definition inject_reject :: "OrderIdRaw \<Rightarrow> RejectReason \<Rightarrow> 'g SimulatedExchange \<Rightarrow> 'g SimulatedExchange" where
  "inject_reject i r x = schedule ((sim_event (sx_now x + 1) SimReject i)\<lparr>se_reason := r\<rparr>) x"

definition inject_cancel_ack :: "OrderIdRaw \<Rightarrow> 'g SimulatedExchange \<Rightarrow> 'g SimulatedExchange" where
  "inject_cancel_ack i x = schedule (sim_event (sx_now x + 1) SimCancelAck i) x"

definition inject_cancel_reject :: "OrderIdRaw \<Rightarrow> 'g SimulatedExchange \<Rightarrow> 'g SimulatedExchange" where
  "inject_cancel_reject i x = schedule ((sim_event (sx_now x + 1) SimCancelReject i)
     \<lparr>se_reason := CancelRejectedReason\<rparr>) x"

definition inject_unsolicited_cancel :: "OrderIdRaw \<Rightarrow> 'g SimulatedExchange \<Rightarrow> 'g SimulatedExchange" where
  "inject_unsolicited_cancel i x = schedule (sim_event (sx_now x + 1) SimUnsolicited i) x"

section \<open>The client interface and the factory\<close>

definition sim_client :: "(double \<Rightarrow> 'g \<Rightarrow> bool \<times> 'g) \<Rightarrow> 'g SimulatedExchange ExchangeClient" where
  "sim_client draw = \<lparr>ec_venue_id = sx_venue, ec_place_order = sim_place_order draw,
     ec_cancel_order = sim_cancel_order, ec_get_positions = sx_positions,
     ec_get_order_book = sim_get_order_book, ec_is_connected = sx_connected,
     ec_supports_mass_cancel = True, ec_mass_cancel = sim_mass_cancel\<rparr>"

definition register_simulated_exchange_factory ::
  "(u64 \<Rightarrow> 'g) \<Rightarrow> (OrderIdRaw set \<Rightarrow> OrderIdRaw list)
     \<Rightarrow> 'g SimulatedExchange factory_table \<Rightarrow> 'g SimulatedExchange factory_table" where
  "register_simulated_exchange_factory seed_rng iter table =
     register_factory ''sim''
       (\<lambda>cfg. Some (sim_new seed_rng iter (cfg_venue_id cfg) (default_sim_config\<lparr>sc_seed := cfg_seed cfg\<rparr>))) table"

end
