(* ===== verification/SimProps.thy ===== *)
theory SimProps
  imports SimExchange
begin

text \<open>
  The simulated venue: the contract of its event queue, what a poll delivers, what placing an order
  schedules, and how the venue's own positions follow its fills.
\<close>

section \<open>The event queue\<close>

text \<open>A priority queue by what it holds: pushing adds, popping removes an element of least key.\<close>

locale event_queue =
  fixes invar :: "'q \<Rightarrow> bool"
    and push :: "'e \<Rightarrow> 'q \<Rightarrow> 'q"
    and pop :: "'q \<Rightarrow> ('e \<times> 'q) option"
    and contents :: "'q \<Rightarrow> 'e multiset"
    and key :: "'e \<Rightarrow> 'k :: linorder"
  assumes push_contents: "invar q \<Longrightarrow> invar (push e q) \<and> contents (push e q) = add_mset e (contents q)"
    and pop_none: "invar q \<Longrightarrow> pop q = None \<longleftrightarrow> contents q = {#}"
    and pop_least: "invar q \<Longrightarrow> pop q = Some (e, q') \<Longrightarrow>
          invar q' \<and> contents q = add_mset e (contents q') \<and> (\<forall>f \<in># contents q'. key e \<le> key f)"
begin

text \<open>Popping while the first element is due.\<close>

fun pop_due :: "nat \<Rightarrow> ('e \<Rightarrow> bool) \<Rightarrow> 'q \<Rightarrow> 'e list \<times> 'q" where
  "pop_due 0 due q = ([], q)"
| "pop_due (Suc n) due q =
     (case pop q of
        None \<Rightarrow> ([], q)
      | Some (e, q') \<Rightarrow> if due e then (case pop_due n due q' of (es, r) \<Rightarrow> (e # es, r)) else ([], q))"

lemma pop_due_all:
  assumes "invar q" and "size (contents q) \<le> n" and "pop_due n due q = (es, r)"
    and closed: "\<And>e f. due f \<Longrightarrow> key e \<le> key f \<Longrightarrow> due e"
  shows "invar r \<and> mset es = filter_mset due (contents q) \<and> sorted (map key es)
    \<and> contents r = filter_mset (\<lambda>e. \<not> due e) (contents q)"
  using assms(1-3)
proof (induction n arbitrary: q es r)
  case 0
  then show ?case by simp
next
  case (Suc n)
  show ?case
  proof (cases "pop q")
    case None
    then have "contents q = {#}" using pop_none [OF Suc.prems(1)] by simp
    then show ?thesis using Suc.prems None by simp
  next
    case (Some p)
    then obtain e q' where p: "pop q = Some (e, q')" by (cases p) auto
    note l = pop_least [OF Suc.prems(1) p]
    show ?thesis
    proof (cases "due e")
      case True
      obtain es' where r: "pop_due n due q' = (es', r)" "es = e # es'"
        using Suc.prems(3) p True by (auto split: prod.splits)
      have ih: "invar r \<and> mset es' = filter_mset due (contents q') \<and> sorted (map key es')
          \<and> contents r = filter_mset (\<lambda>e. \<not> due e) (contents q')"
        using Suc.IH [OF _ _ r(1)] l Suc.prems(2) by simp
      have "key e \<le> key f" if "f \<in> set es'" for f
        using that ih l by (metis (no_types) filter_mset_eq_conv mset_subset_eqD set_mset_mset multiset_filter_subset)
      then show ?thesis using ih l True r(2) by simp
    next
      case False
      then have "\<not> due f" if "f \<in># contents q" for f using that l closed [of f e] by auto
      then have "filter_mset due (contents q) = filter_mset (\<lambda>_. False) (contents q)"
        by (intro filter_mset_cong) simp_all
      then have none: "filter_mset due (contents q) = {#}" by (simp only: filter_mset_False)
      have "contents q = filter_mset due (contents q) + filter_mset (\<lambda>e. \<not> due e) (contents q)"
        by (rule multiset_partition)
      then have "filter_mset (\<lambda>e. \<not> due e) (contents q) = contents q" unfolding none by (simp only: add_0)
      with none show ?thesis using Suc.prems p False by simp
    qed
  qed
qed

end

definition queue_pop_event :: "SimEvent list \<Rightarrow> (SimEvent \<times> SimEvent list) option" where
  "queue_pop_event q = (case q of [] \<Rightarrow> None | ev # rest \<Rightarrow> Some (ev, rest))"

lemma queue_pop_event_simps [simp]:
  "queue_pop_event [] = None" "queue_pop_event (ev # q) = Some (ev, q)"
  by (simp_all add: queue_pop_event_def)

definition queue_sorted :: "SimEvent list \<Rightarrow> bool" where
  "queue_sorted q \<longleftrightarrow> sorted (map event_key q)"

interpretation simq: event_queue queue_sorted queue_push_event queue_pop_event mset event_key
  by unfold_locales
    (auto simp: queue_sorted_def queue_push_event_def queue_pop_event_def sorted_insort_key split: list.splits)

lemma schedule_queue:
  "mset (sx_queue (schedule ev x)) = add_mset (ev\<lparr>se_seq := sx_seq_counter x\<rparr>) (mset (sx_queue x))"
  "queue_sorted (sx_queue x) \<Longrightarrow> queue_sorted (sx_queue (schedule ev x))"
  by (simp_all add: schedule_def queue_push_event_def queue_sorted_def sorted_insort_key)

lemma schedule_fields [simp]:
  "sx_cfg (schedule ev x) = sx_cfg x" "sx_now (schedule ev x) = sx_now x"
  "sx_trade_counter (schedule ev x) = sx_trade_counter x" "sx_working (schedule ev x) = sx_working x"
  "sx_positions (schedule ev x) = sx_positions x" "sx_connected (schedule ev x) = sx_connected x"
  "sx_sink (schedule ev x) = sx_sink x" "sx_rng (schedule ev x) = sx_rng x"
  by (simp_all add: schedule_def)

lemma sim_draw_fields:
  "sim_draw draw p x = (b, y) \<Longrightarrow> sx_queue y = sx_queue x \<and> sx_cfg y = sx_cfg x \<and> sx_now y = sx_now x
     \<and> sx_trade_counter y = sx_trade_counter x \<and> sx_working y = sx_working x \<and> sx_positions y = sx_positions x
     \<and> sx_seq_counter y = sx_seq_counter x \<and> sx_sink y = sx_sink x \<and> sx_connected y = sx_connected x"
  by (auto simp: sim_draw_def split: prod.splits)

section \<open>A poll delivers everything due, in order\<close>

text \<open>The call an event makes, in a state of the venue.\<close>

definition sim_call :: "'g SimulatedExchange \<Rightarrow> SimEvent \<Rightarrow> SinkCall" where
  "sim_call x ev =
     (case se_type ev of
        SimConfirm \<Rightarrow> CallConfirm (se_id ev)
          (case sx_working x (se_id ev) of Some w \<Rightarrow> wk_exchange_id w | None \<Rightarrow> []) (se_at ev)
      | SimFill \<Rightarrow> CallFill (se_id ev) (se_qty ev) (se_price ev) (se_trade ev) (se_at ev)
      | SimReject \<Rightarrow> CallReject (se_id ev) (se_reason ev) (se_at ev)
      | SimCancelAck \<Rightarrow> CallCancelAck (se_id ev) (se_at ev)
      | SimCancelReject \<Rightarrow> CallReject (se_id ev) CancelRejectedReason (se_at ev)
      | SimUnsolicited \<Rightarrow> CallUnsolicited (se_id ev) (se_at ev))"

lemma deliver_keeps_ids:
  "sim_deliver ev x = (calls, x') \<Longrightarrow> map_option wk_exchange_id (sx_working x' i) = map_option wk_exchange_id (sx_working x i)"
  by (auto simp: sim_deliver_def sim_book_fill_def sim_kill_def Let_def split: if_splits EvType.splits option.splits)

lemma sim_call_cong:
  "(\<And>i. map_option wk_exchange_id (sx_working x' i) = map_option wk_exchange_id (sx_working x i)) \<Longrightarrow>
   sim_call x' ev = sim_call x ev"
proof -
  assume "\<And>i. map_option wk_exchange_id (sx_working x' i) = map_option wk_exchange_id (sx_working x i)"
  from this [of "se_id ev"] show ?thesis
    by (auto simp: sim_call_def split: EvType.splits option.splits)
qed

lemma sim_deliver_call: "sx_sink x \<Longrightarrow> fst (sim_deliver ev x) = [sim_call x ev]"
  by (simp add: sim_deliver_def sim_call_def split: EvType.splits)

lemma sim_drain_pops:
  assumes "sx_sink x" and "length (sx_queue x) \<le> n"
    and "simq.pop_due n (\<lambda>ev. se_at ev \<le> sx_now x) (sx_queue x) = (evs, rest)"
  shows "fst (sim_drain x) = map (sim_call x) evs \<and> sx_queue (snd (sim_drain x)) = rest"
  using assms
proof (induction n arbitrary: x evs)
  case 0
  then show ?case by (simp add: sim_drain.simps)
next
  case (Suc n)
  show ?case
  proof (cases "sx_queue x")
    case Nil
    then show ?thesis using Suc.prems by (simp add: sim_drain.simps)
  next
    case (Cons ev q)
    show ?thesis
    proof (cases "se_at ev \<le> sx_now x")
      case False
      then have "sim_drain x = ([], x)" using Cons by (subst sim_drain.simps) simp
      then show ?thesis using Suc.prems Cons False by auto
    next
      case True
      let ?x0 = "x\<lparr>sx_queue := q\<rparr>"
      obtain calls x1 where d: "sim_deliver ev ?x0 = (calls, x1)" by (cases "sim_deliver ev ?x0")
      note fr = sim_deliver_frame [OF d]
      have calls: "calls = [sim_call x ev]"
        using sim_deliver_call [of ?x0 ev] d Suc.prems(1) sim_call_cong [of ?x0 x ev] by simp
      obtain es where es: "simq.pop_due n (\<lambda>ev. se_at ev \<le> sx_now x) q = (es, rest)" "evs = ev # es"
        using Suc.prems(3) Cons True by (auto split: prod.splits)
      have "fst (sim_drain x1) = map (sim_call x1) es \<and> sx_queue (snd (sim_drain x1)) = rest"
        using Suc.IH [of x1 es] es(1) Suc.prems(1,2) Cons fr by simp
      moreover have "sim_call x1 = sim_call x"
        using deliver_keeps_ids [OF d] by (intro ext sim_call_cong) simp
      ultimately show ?thesis
        using Cons True d calls es(2) by (simp add: sim_drain.simps [of x] split_beta)
    qed
  qed
qed

text \<open>C38: a poll of the venue returns, and delivers exactly the events that are due at the advanced
  clock, each once, in the total order of time and sequence number; what is not due stays queued.\<close>

theorem poll_delivers_due_in_order:
  assumes "queue_sorted (sx_queue x)" and "sx_sink x"
  shows "\<exists>evs. fst (sim_poll x) = map (sim_call x) evs \<and> sorted (map event_key evs)
    \<and> mset evs = filter_mset (\<lambda>ev. se_at ev \<le> sx_now x + sc_step_ns (sx_cfg x)) (mset (sx_queue x))
    \<and> mset (sx_queue (snd (sim_poll x)))
        = filter_mset (\<lambda>ev. sx_now x + sc_step_ns (sx_cfg x) < se_at ev) (mset (sx_queue x))
    \<and> queue_sorted (sx_queue (snd (sim_poll x)))"
proof -
  let ?x = "x\<lparr>sx_now := sx_now x + sc_step_ns (sx_cfg x)\<rparr>"
  let ?due = "\<lambda>ev. se_at ev \<le> sx_now ?x"
  obtain evs rest where p: "simq.pop_due (length (sx_queue x)) ?due (sx_queue x) = (evs, rest)"
    by (cases "simq.pop_due (length (sx_queue x)) ?due (sx_queue x)")
  have "event_key e \<le> event_key f \<Longrightarrow> ?due f \<Longrightarrow> ?due e" for e f
    by (auto simp: event_key_def less_eq_prod_def)
  with simq.pop_due_all [OF assms(1) _ p]
  have q: "queue_sorted rest" "mset evs = filter_mset ?due (mset (sx_queue x))" "sorted (map event_key evs)"
    "mset rest = filter_mset (\<lambda>e. \<not> ?due e) (mset (sx_queue x))" by auto
  have "fst (sim_drain ?x) = map (sim_call ?x) evs \<and> sx_queue (snd (sim_drain ?x)) = rest"
    using sim_drain_pops [of ?x "length (sx_queue x)"] assms(2) p by simp
  moreover have "sim_call ?x = sim_call x" by (intro ext sim_call_cong) simp
  ultimately show ?thesis using q by (auto simp: sim_poll_def not_le)
qed

definition ex_sim :: "unit SimulatedExchange" where
  "ex_sim = sim_set_sink True (sim_new (\<lambda>_. ()) sorted_list_of_set 0 default_sim_config)"

theorem poll_delivers_due_in_order_witness:
  "\<exists>evs. fst (sim_poll (inject_reject 5 RiskLimit ex_sim)) = map (sim_call (inject_reject 5 RiskLimit ex_sim)) evs
     \<and> size (mset evs) = 1"
proof -
  let ?x = "inject_reject 5 RiskLimit ex_sim"
  have "queue_sorted (sx_queue ex_sim)" by (simp add: queue_sorted_def ex_sim_def sim_set_sink_def sim_new_def)
  then have "queue_sorted (sx_queue ?x)" by (simp add: inject_reject_def schedule_queue(2))
  moreover have "sx_sink ?x" by (simp add: inject_reject_def ex_sim_def sim_set_sink_def)
  moreover have "size (filter_mset (\<lambda>ev. se_at ev \<le> sx_now ?x + sc_step_ns (sx_cfg ?x)) (mset (sx_queue ?x))) = 1"
    by (simp add: inject_reject_def schedule_queue(1) sim_event_def ex_sim_def sim_set_sink_def sim_new_def
        default_sim_config_def)
  ultimately show ?thesis using poll_delivers_due_in_order [of ?x] by metis
qed

section \<open>What placing an order schedules\<close>

lemma word_of_nat_unat_id: "word_of_nat (unat (w :: u64)) = w"
  by simp

text \<open>The trades among events: trade id and quantity, once per trade id.\<close>

definition legs :: "SimEvent list \<Rightarrow> (TradeId \<times> Quantity) set" where
  "legs evs = (\<lambda>ev. (se_trade ev, se_qty ev)) ` set evs"

text \<open>The fills of an order: every one is of its id and price and positive, the trade ids are new.\<close>

definition fills_of :: "OrderIdRaw \<Rightarrow> Price \<Rightarrow> nat \<Rightarrow> nat \<Rightarrow> Quantity \<Rightarrow> SimEvent list \<Rightarrow> bool" where
  "fills_of oid price lo hi total_qty evs \<longleftrightarrow>
     (\<forall>ev \<in> set evs. se_type ev = SimFill \<and> se_id ev = oid \<and> se_price ev = price \<and> 0 < se_qty ev
        \<and> lo < unat (se_trade ev) \<and> unat (se_trade ev) \<le> hi)
     \<and> inj_on fst (legs evs) \<and> (\<Sum>(t, q) \<in> legs evs. q) = total_qty"

lemma fills_of_Nil: "fills_of oid price lo hi 0 []"
  by (simp add: fills_of_def legs_def)

lemma fills_of_leg:
  assumes rest: "fills_of oid price (Suc lo) hi q' evs" and "Suc lo \<le> hi" and "0 < q"
    and new: "new \<noteq> []" "\<And>ev. ev \<in> set new \<Longrightarrow> se_type ev = SimFill \<and> se_id ev = oid \<and> se_price ev = price
        \<and> se_qty ev = q \<and> unat (se_trade ev) = Suc lo"
  shows "fills_of oid price lo hi (q + q') (new @ evs)"
proof -
  have legs_new: "legs new = {(word_of_nat (Suc lo), q)}"
  proof -
    have "(se_trade ev, se_qty ev) = (word_of_nat (Suc lo), q)" if "ev \<in> set new" for ev
      using new(2) [OF that] by (metis word_of_nat_unat_id)
    then have "legs new = (\<lambda>_. (word_of_nat (Suc lo), q)) ` set new"
      unfolding legs_def by (intro image_cong) simp_all
    then show ?thesis using new(1) by (simp only: image_constant_conv) simp
  qed
  let ?t = "word_of_nat (Suc lo) :: TradeId"
  obtain ev0 where "ev0 \<in> set new" using new(1) by (cases new) auto
  then have t: "unat ?t = Suc lo" using new(2) [of ev0] by (metis word_of_nat_unat_id)
  have fresh: "?t \<notin> fst ` legs evs"
    using rest t by (auto simp: fills_of_def legs_def)
  then have notin: "(?t, q) \<notin> legs evs" by (force simp: image_iff)
  have all: "legs (new @ evs) = insert (?t, q) (legs evs)" using legs_new by (auto simp: legs_def)
  have "finite (legs evs)" by (simp add: legs_def)
  then have "(\<Sum>(t, q) \<in> legs (new @ evs). q) = q + q'"
    using rest notin unfolding all by (simp add: fills_of_def)
  moreover have "inj_on fst (legs (new @ evs))" using rest fresh notin unfolding all by (simp add: fills_of_def)
  moreover have "se_type ev = SimFill \<and> se_id ev = oid \<and> se_price ev = price \<and> 0 < se_qty ev
        \<and> lo < unat (se_trade ev) \<and> unat (se_trade ev) \<le> hi" if "ev \<in> set (new @ evs)" for ev
  proof (cases "ev \<in> set new")
    case True
    then show ?thesis using new(2) assms(2,3) by simp
  next
    case False
    then have "ev \<in> set evs" using that by simp
    then show ?thesis using rest by (fastforce simp: fills_of_def)
  qed
  ultimately show ?thesis unfolding fills_of_def by blast
qed

lemma schedule_fills_ok:
  assumes "unat (sx_trade_counter x) + k < 2 ^ 64" and "0 \<le> base"
    and "0 < k \<Longrightarrow> base * (int k - 1) \<le> whole - assigned" and "k = 0 \<Longrightarrow> whole = assigned"
  shows "\<exists>new. mset (sx_queue (schedule_fills draw oid whole price base confirm_at k i assigned x))
        = mset (sx_queue x) + mset new
    \<and> fills_of oid price (unat (sx_trade_counter x)) (unat (sx_trade_counter x) + k) (whole - assigned) new"
  using assms
proof (induction k arbitrary: i assigned x)
  case 0
  then show ?case using fills_of_Nil by (intro exI [of _ "[]"]) simp
next
  case (Suc k)
  define q where "q = (if k = 0 then whole - assigned else base)"
  have q0: "0 \<le> q" using Suc.prems(2,3) by (cases k) (simp_all add: q_def)
  have next_ok: "0 < k \<Longrightarrow> base * (int k - 1) \<le> whole - (assigned + q)" "k = 0 \<Longrightarrow> whole = assigned + q"
    using Suc.prems(3) by (simp_all add: q_def algebra_simps)
  show ?case
  proof (cases "q = 0")
    case True
    then have eq: "schedule_fills draw oid whole price base confirm_at (Suc k) i assigned x
        = schedule_fills draw oid whole price base confirm_at k (i + 1) (assigned + q) x"
      by (simp add: q_def Let_def)
    obtain new where n: "mset (sx_queue (schedule_fills draw oid whole price base confirm_at k (i + 1) (assigned + q) x))
        = mset (sx_queue x) + mset new"
      "fills_of oid price (unat (sx_trade_counter x)) (unat (sx_trade_counter x) + k) (whole - (assigned + q)) new"
      using Suc.IH [of x "assigned + q" "i + 1"] Suc.prems(1,2) next_ok by auto
    have "fills_of oid price (unat (sx_trade_counter x)) (unat (sx_trade_counter x) + Suc k) (whole - assigned) new"
      using n(2) True by (fastforce simp: fills_of_def)
    with n(1) show ?thesis unfolding eq by blast
  next
    case False
    with q0 have pos: "0 < q" by simp
    define trade where "trade = sx_trade_counter x + 1"
    define t where "t = (if sc_reorder_fill_before_ack (sx_cfg x) \<and> i = 0 then confirm_at - 1
                    else sx_now x + sc_fill_latency_ns (sx_cfg x) + i * sc_fill_gap_ns (sx_cfg x))"
    define ev where "ev = (sim_event t SimFill oid)\<lparr>se_qty := q, se_price := price, se_trade := trade, se_final := (k = 0)\<rparr>"
    define x1 where "x1 = schedule ev (x\<lparr>sx_trade_counter := trade\<rparr>)"
    obtain dup x2 where d: "sim_draw draw (sc_duplicate_fill_prob (sx_cfg x1)) x1 = (dup, x2)"
      by (cases "sim_draw draw (sc_duplicate_fill_prob (sx_cfg x1)) x1")
    define x3 where "x3 = (if dup then schedule (ev\<lparr>se_at := t + 1\<rparr>) x2 else x2)"
    have eq: "schedule_fills draw oid whole price base confirm_at (Suc k) i assigned x
        = schedule_fills draw oid whole price base confirm_at k (i + 1) (assigned + q) x3"
      using pos d unfolding schedule_fills.simps Let_def q_def [symmetric]
      by (simp add: t_def [symmetric] trade_def [symmetric] ev_def [symmetric] x1_def [symmetric] del: schedule_fields)
        (simp add: x3_def)
    have tr: "unat trade = Suc (unat (sx_trade_counter x))"
      using Suc.prems(1) by (simp add: trade_def unat_word_ariths)
    have x3: "sx_trade_counter x3 = trade" using sim_draw_fields [OF d] by (simp add: x3_def x1_def)
    let ?new = "ev\<lparr>se_seq := sx_seq_counter x\<rparr> #
        (if dup then [ev\<lparr>se_at := t + 1, se_seq := sx_seq_counter x2\<rparr>] else [])"
    have q3: "mset (sx_queue x3) = mset (sx_queue x) + mset ?new"
      using sim_draw_fields [OF d] by (simp add: x3_def x1_def schedule_queue(1))
    obtain new where n: "mset (sx_queue (schedule_fills draw oid whole price base confirm_at k (i + 1) (assigned + q) x3))
        = mset (sx_queue x3) + mset new"
      "fills_of oid price (unat trade) (unat trade + k) (whole - (assigned + q)) new"
      using Suc.IH [of x3 "assigned + q" "i + 1"] Suc.prems(1,2) next_ok x3 tr by auto
    have "fills_of oid price (unat (sx_trade_counter x)) (unat (sx_trade_counter x) + Suc k)
        (q + (whole - (assigned + q))) (?new @ new)"
      using n(2) tr pos by (intro fills_of_leg) (auto simp: ev_def sim_event_def split: if_splits)
    moreover have "q + (whole - (assigned + q)) = whole - assigned" by simp
    ultimately show ?thesis unfolding eq n(1) q3 by (intro exI [of _ "?new @ new"]) (simp add: ac_simps)
  qed
qed

text \<open>The three ways an order is scheduled; \<open>g\<close> and \<open>g'\<close> are the generator after the draws.\<close>

lemma sim_schedule_order_cases:
  fixes draw :: "double \<Rightarrow> 'g \<Rightarrow> bool \<times> 'g" and ord :: Order and x :: "'g SimulatedExchange"
  defines "cfg \<equiv> sx_cfg x" and "oid \<equiv> o_internal_id ord"
  defines "chunks \<equiv> max 1 (sc_partial_chunks cfg)" and "confirm_at \<equiv> sx_now x + sc_ack_latency_ns cfg"
  obtains (rejected) g where "sim_schedule_order draw ord x
        = schedule ((sim_event confirm_at SimReject oid)\<lparr>se_reason := RiskLimit\<rparr>) (x\<lparr>sx_rng := g\<rparr>)"
  | (dropped) g g' where "sim_schedule_order draw ord x
        = schedule (sim_event (confirm_at + sc_fill_latency_ns cfg) SimUnsolicited oid)
            ((schedule (sim_event confirm_at SimConfirm oid) (x\<lparr>sx_rng := g\<rparr>))\<lparr>sx_rng := g'\<rparr>)"
  | (worked) g g' where "sim_schedule_order draw ord x
        = schedule_fills draw oid (o_size ord) (o_limit_price ord) (tdiv (o_size ord) chunks) confirm_at (nat chunks) 0 0
            ((schedule (sim_event confirm_at SimConfirm oid) (x\<lparr>sx_rng := g\<rparr>))\<lparr>sx_rng := g'\<rparr>)"
proof -
  have ch: "(if sc_partial_chunks cfg < 1 then 1 else sc_partial_chunks cfg) = chunks" by (simp add: chunks_def)
  obtain rej g where g: "draw (sc_reject_prob cfg) (sx_rng x) = (rej, g)" by fastforce
  obtain uns g' where g': "draw (sc_unsolicited_cancel_prob cfg) g = (uns, g')" by fastforce
  have x': "sim_schedule_order draw ord x =
      (if rej then schedule ((sim_event confirm_at SimReject oid)\<lparr>se_reason := RiskLimit\<rparr>) (x\<lparr>sx_rng := g\<rparr>)
       else let x4 = (schedule (sim_event confirm_at SimConfirm oid) (x\<lparr>sx_rng := g\<rparr>))\<lparr>sx_rng := g'\<rparr>
         in if uns then schedule (sim_event (confirm_at + sc_fill_latency_ns cfg) SimUnsolicited oid) x4
            else schedule_fills draw oid (o_size ord) (o_limit_price ord) (tdiv (o_size ord) chunks) confirm_at
                   (nat chunks) 0 0 x4)"
    using g g' unfolding sim_schedule_order_def sim_draw_def Let_def confirm_at_def oid_def cfg_def [symmetric] ch
    by (simp del: max_def)
  show thesis
    using x' rejected [of g] dropped [where g = g and g' = g'] worked [where g = g and g' = g'] by (cases rej; cases uns) (simp_all add: Let_def)
qed

lemma chunk_base_ok:
  assumes "0 \<le> (sz :: int)" and "1 \<le> n"
  shows "0 \<le> tdiv sz n" and "tdiv sz n * (n - 1) \<le> sz"
proof -
  have d: "tdiv sz n = sz div n" using assms by (simp add: tdiv_nonneg)
  show nonneg: "0 \<le> tdiv sz n" using assms d by (simp add: pos_imp_zdiv_nonneg_iff)
  have "(sz div n) * (n - 1) \<le> (sz div n) * n"
    using assms nonneg unfolding d by (intro mult_left_mono) simp_all
  also have "\<dots> \<le> sz"
    using assms pos_mod_sign [of n sz] by (simp add: minus_mod_eq_div_mult [symmetric])
  finally show "tdiv sz n * (n - 1) \<le> sz" using d by simp
qed

text \<open>C39: what a connected venue schedules for an order, whatever it draws: a rejection; a confirm and
  an unsolicited cancel; or a confirm and fills whose distinct trades are new, positive, at the order's
  price, and sum exactly to its size, a duplicate delivery repeating its trade.\<close>

theorem placed_order_fills_to_size:
  assumes "sx_connected x" and "0 \<le> o_size ord"
    and "unat (sx_trade_counter x) + nat (max 1 (sc_partial_chunks (sx_cfg x))) < 2 ^ 64"
    and "sim_place_order draw ord x = (res, x')"
  shows "res = SendOk \<and> (\<exists>new. mset (sx_queue x') = mset (sx_queue x) + mset new \<and>
      (\<forall>ev \<in> set new. se_id ev = o_internal_id ord) \<and>
      (map se_type new = [SimReject] \<or> map se_type new = [SimConfirm, SimUnsolicited] \<or>
       (\<exists>c fills. new = c # fills \<and> se_type c = SimConfirm \<and>
          fills_of (o_internal_id ord) (o_limit_price ord) (unat (sx_trade_counter x))
            (unat (sx_trade_counter x) + nat (max 1 (sc_partial_chunks (sx_cfg x)))) (o_size ord) fills)))"
proof -
  let ?cfg = "sx_cfg x" and ?oid = "o_internal_id ord"
  let ?confirm = "sx_now x + sc_ack_latency_ns ?cfg"
  let ?chunks = "max 1 (sc_partial_chunks ?cfg)"
  define x1 where "x1 = sim_book_order ord x"
  have x1: "sx_queue x1 = sx_queue x" "sx_cfg x1 = ?cfg" "sx_trade_counter x1 = sx_trade_counter x"
      "sx_now x1 = sx_now x" by (simp_all add: x1_def sim_book_order_def Let_def)
  have res: "res = SendOk" "x' = sim_schedule_order draw ord x1"
    using assms(1,4) by (auto simp: sim_place_order_def x1_def)
  show ?thesis
  proof (cases rule: sim_schedule_order_cases [where draw = draw and ord = ord and x = x1, unfolded x1])
    case (1 g)
    then show ?thesis
      using res x1 by (auto simp: schedule_queue(1) sim_event_def
          intro!: exI [of _ "[((sim_event ?confirm SimReject ?oid)\<lparr>se_reason := RiskLimit\<rparr>)\<lparr>se_seq := sx_seq_counter x1\<rparr>]"])
  next
    case (2 g g')
    let ?x2 = "schedule (sim_event ?confirm SimConfirm ?oid) (x1\<lparr>sx_rng := g\<rparr>)"
    let ?u = "sim_event (?confirm + sc_fill_latency_ns ?cfg) SimUnsolicited ?oid"
    from 2 show ?thesis
      using res x1 by (auto simp: schedule_queue(1) sim_event_def
          intro!: exI [of _ "[(sim_event ?confirm SimConfirm ?oid)\<lparr>se_seq := sx_seq_counter x1\<rparr>,
            ?u\<lparr>se_seq := sx_seq_counter ?x2\<rparr>]"])
  next
    case (3 g g')
    let ?x4 = "(schedule (sim_event ?confirm SimConfirm ?oid) (x1\<lparr>sx_rng := g\<rparr>))\<lparr>sx_rng := g'\<rparr>"
    have tc: "sx_trade_counter ?x4 = sx_trade_counter x" using x1 by simp
    obtain fills where f: "mset (sx_queue x') = mset (sx_queue ?x4) + mset fills"
      "fills_of ?oid (o_limit_price ord) (unat (sx_trade_counter x)) (unat (sx_trade_counter x) + nat ?chunks)
         (o_size ord) fills"
      using schedule_fills_ok [of ?x4 "nat ?chunks" "tdiv (o_size ord) ?chunks" "o_size ord" 0 draw ?oid
          "o_limit_price ord" ?confirm 0] chunk_base_ok [OF assms(2), of ?chunks] assms(3) 3 res(2) tc
      by (force simp del: max_def)
    have "mset (sx_queue ?x4) = mset (sx_queue x)
        + {# (sim_event ?confirm SimConfirm ?oid)\<lparr>se_seq := sx_seq_counter x1\<rparr> #}"
      using x1 by (simp add: schedule_queue(1))
    then show ?thesis
      using res(1) f by (auto simp: sim_event_def fills_of_def
          intro!: exI [of _ "(sim_event ?confirm SimConfirm ?oid)\<lparr>se_seq := sx_seq_counter x1\<rparr> # fills"])
  qed
qed

text \<open>Two chunks of an order of 7, with a duplicate of every fill and the first one before the confirm.\<close>

definition ex_chunked :: "unit SimulatedExchange" where
  "ex_chunked = sim_set_sink True (sim_new (\<lambda>_. ()) sorted_list_of_set 0
     (default_sim_config\<lparr>sc_partial_chunks := 2, sc_reorder_fill_before_ack := True\<rparr>))"

definition ex_draw :: "double \<Rightarrow> unit \<Rightarrow> bool \<times> unit" where
  "ex_draw p g = (0 < p, ())"

theorem placed_order_fills_to_size_witness:
  "\<exists>c fills. mset (sx_queue (snd (sim_place_order ex_draw (default_order\<lparr>o_size := 7, o_internal_id := 3\<rparr>) ex_chunked)))
      = mset (c # fills) \<and> se_type c = SimConfirm \<and> fills_of 3 0 0 2 7 fills"
proof -
  let ?ord = "default_order\<lparr>o_size := 7, o_internal_id := 3\<rparr>"
  obtain res x' where p: "sim_place_order ex_draw ?ord ex_chunked = (res, x')"
    by (cases "sim_place_order ex_draw ?ord ex_chunked")
  have f: "sx_connected ex_chunked" "unat (sx_trade_counter ex_chunked) = 0" "sx_queue ex_chunked = []"
    "sc_partial_chunks (sx_cfg ex_chunked) = 2"
    by (simp_all add: ex_chunked_def sim_set_sink_def sim_new_def default_sim_config_def)
  have "list_all (\<lambda>ev. se_type ev \<noteq> SimReject \<and> se_type ev \<noteq> SimUnsolicited)
      (sx_queue (snd (sim_place_order ex_draw ?ord ex_chunked)))" by code_simp
  then have types: "SimReject \<notin> se_type ` set (sx_queue x')" "SimUnsolicited \<notin> se_type ` set (sx_queue x')"
    using p by (auto simp: list_all_iff)
  have pre: "0 \<le> o_size ?ord"
    "unat (sx_trade_counter ex_chunked) + nat (max 1 (sc_partial_chunks (sx_cfg ex_chunked))) < 2 ^ 64"
    using f by simp_all
  obtain new where n: "mset (sx_queue x') = mset (sx_queue ex_chunked) + mset new \<and>
      (\<forall>ev \<in> set new. se_id ev = o_internal_id ?ord) \<and> (map se_type new = [SimReject] \<or> map se_type new = [SimConfirm, SimUnsolicited] \<or>
       (\<exists>c fills. new = c # fills \<and> se_type c = SimConfirm \<and>
          fills_of (o_internal_id ?ord) (o_limit_price ?ord) (unat (sx_trade_counter ex_chunked))
            (unat (sx_trade_counter ex_chunked) + nat (max 1 (sc_partial_chunks (sx_cfg ex_chunked)))) (o_size ?ord) fills))"
    using placed_order_fills_to_size [OF f(1) pre p, THEN conjunct2] by (rule exE)
  have new: "mset (sx_queue x') = mset new" "map se_type new = [SimReject] \<or> map se_type new = [SimConfirm, SimUnsolicited] \<or>
       (\<exists>c fills. new = c # fills \<and> se_type c = SimConfirm \<and> fills_of 3 0 0 2 7 fills)"
    using n unfolding f(2-4) by (simp_all add: default_order_def numeral_2_eq_2 del: ex_simps)
  have "se_type ` set new = se_type ` set (sx_queue x')" using new(1) by (metis set_mset_mset)
  then have "SimReject \<notin> set (map se_type new)" "SimUnsolicited \<notin> set (map se_type new)" using types by auto
  with new(2) obtain c fills where "new = c # fills" "se_type c = SimConfirm" "fills_of 3 0 0 2 7 fills"
    by (metis list.set_intros(1) list.set_intros(2))
  with new(1) p show ?thesis by (intro exI [of _ c] exI [of _ fills]) simp
qed

end
