(* ===== verification/SimAgree.thy ===== *)
theory SimAgree
  imports OmLedger SimProps
begin

text \<open>
  What the order manager and the simulated venue have to agree on, and how each event the venue
  delivers keeps the agreement: the working orders of the one are the live orders of the other,
  with the same remainder and the same trades seen, and the positions are equal.
\<close>

section \<open>The handler a sink call reaches\<close>

fun sink_call :: "SinkCall \<Rightarrow> 'e OrderManager \<Rightarrow> ('e OrderManager \<times> 'e published) result" where
  "sink_call (CallConfirm i x ts) s = on_confirm i x ts s"
| "sink_call (CallFill i q p t ts) s = on_fill i q p t ts s"
| "sink_call (CallReject i r ts) s = on_reject i r ts s"
| "sink_call (CallCancelAck i ts) s = on_cancel_ack i ts s"
| "sink_call (CallUnsolicited i ts) s = on_unsolicited_cancel i ts s"

text \<open>No handler touches the venues, and each touches the seen trades of its own order only.\<close>

definition own_trades :: "OrderIdRaw \<Rightarrow> 'e OrderManager \<Rightarrow> 'e OrderManager \<Rightarrow> bool" where
  "own_trades i s s' \<longleftrightarrow> om_registry s' = om_registry s
     \<and> (\<forall>j. j \<noteq> i \<longrightarrow> om_trade_ids s' j = om_trade_ids s j)"

lemma own_trades_trans [trans]: "own_trades i s t \<Longrightarrow> own_trades i t u \<Longrightarrow> own_trades i s u"
  by (simp add: own_trades_def)

lemma own_trades_same: "om_registry s' = om_registry s \<Longrightarrow> om_trade_ids s' = om_trade_ids s \<Longrightarrow> own_trades i s s'"
  by (simp add: own_trades_def)

lemma retire_own: "retire i inst q sd s = Inr s' \<Longrightarrow> own_trades i s s'"
  by (auto simp: retire_def Let_def own_trades_def ebind_Inr_iff split: if_splits)

lemma with_health_own: "with_health f s = Inr s' \<Longrightarrow> own_trades i s s'"
  by (auto simp: with_health_def ebind_Inr_iff own_trades_def)

lemma own_frames [simp]:
  "own_trades i s (drop_event i k vr ts s)" "own_trades i s (put_order i ord s)"
  "own_trades i s (book_fill i q p t ts s)" "own_trades i s (trip_kill_switch why s)"
  "own_trades i s (om_log_line l line s)"
  by (simp_all add: own_trades_def book_fill_def Let_def put_order_def om_log_line_def)

lemma own_reject_fill [simp]: "om_registry (reject_fill i vr ts s) = om_registry s"
  by (simp add: reject_fill_def Let_def)

lemma on_confirm_own: "on_confirm i x ts s = Inr (s', evs) \<Longrightarrow> own_trades i s s'"
  unfolding on_confirm_def Let_def
  by (auto simp: ebind_Inr_iff split: if_splits intro: own_trades_trans [OF _ with_health_own, rotated])

lemma finish_cancel_own: "finish_cancel i ts k pub uns s = Inr (s', evs) \<Longrightarrow> own_trades i s s'"
  unfolding finish_cancel_def Let_def
  by (auto simp: ebind_Inr_iff own_trades_def om_log_line_def put_order_def split: if_splits dest!: retire_own)

lemma on_reject_own: "on_reject i reason ts s = Inr (s', evs) \<Longrightarrow> own_trades i s s'"
  unfolding on_reject_def Let_def
  by (auto simp: ebind_Inr_iff own_trades_def om_log_line_def put_order_def split: if_splits
      dest!: retire_own with_health_own [where i = i])

lemma on_fill_own: "on_fill i q p t ts s = Inr (s', evs) \<Longrightarrow> own_trades i s s'"
  unfolding on_fill_def Let_def
  by (auto simp: ebind_Inr_iff own_trades_def book_fill_def put_order_def Let_def split: if_splits
      dest!: retire_own with_health_own [where i = i])

section \<open>What an event leaves behind\<close>

text \<open>Nothing economic happened; an order was closed.\<close>

definition undisturbed :: "'e OrderManager \<Rightarrow> 'e OrderManager \<Rightarrow> bool" where
  "undisturbed s s' \<longleftrightarrow> om_inv s' \<and> om_live s' = om_live s \<and> (\<forall>k. position s' k = position s k)
     \<and> (\<forall>j \<in> om_live s. econ (order_ref s' j) = econ (order_ref s j) \<and> om_trade_ids s' j = om_trade_ids s j)"

definition closes :: "OrderIdRaw \<Rightarrow> 'e OrderManager \<Rightarrow> 'e OrderManager \<Rightarrow> bool" where
  "closes i s s' \<longleftrightarrow> om_inv s' \<and> i \<in> om_live s \<and> om_live s' = om_live s - {i}
     \<and> (\<forall>k. position s' k = position s k)
     \<and> (\<forall>j \<in> om_live s'. econ (order_ref s' j) = econ (order_ref s j) \<and> om_trade_ids s' j = om_trade_ids s j)"

lemma undisturbed_refl: "om_inv s \<Longrightarrow> undisturbed s s"
  by (simp add: undisturbed_def)

lemma undisturbed_econ: "same_econ s s' \<Longrightarrow> om_trade_ids s' = om_trade_ids s \<Longrightarrow> undisturbed s s'"
  by (simp add: undisturbed_def same_econ_def position_def)

lemma undisturbed_drop: "om_inv s \<Longrightarrow> undisturbed s (drop_event i k vr ts s)"
  by (simp add: undisturbed_def position_def)

lemma undisturbed_log: "undisturbed s t \<Longrightarrow> undisturbed s (om_log_line l line t)"
  by (simp add: undisturbed_def position_def)

text \<open>A live order passes the guard of every event that is not a fill.\<close>

lemma plain_ok:
  "om_inv s \<Longrightarrow> i \<in> om_live s \<Longrightarrow> k \<noteq> KFill \<Longrightarrow> validate i (plain_context k) s = ValidOk"
  using om_live_current [of s i] om_inv_open [of s i] by (simp add: validate_def plain_context_def Let_def)

lemma confirm_undisturbed:
  assumes inv: "om_inv s" and gen: "genuine s i" and res: "on_confirm i x ts s = Inr (s', evs)"
  shows "undisturbed s s'"
proof (cases rule: on_confirm_cases [OF inv gen, where x = x and ts = ts])
  case (1 vr)
  with res undisturbed_drop [OF inv] show ?thesis by auto
next
  case (2 s1 ord')
  with res have "s1 = s'" by simp
  moreover have "econ (order_ref s1 j) = econ (order_ref s j)" if "j \<in> om_live s" for j
    using 2(4,7-9) 2(14) [OF that] by (cases "j = i") (simp_all add: econ_def)
  ultimately show ?thesis using 2(2,10,11,15) by (simp add: position_def undisturbed_def)
qed

lemma finish_cancel_effect:
  assumes inv: "om_inv s" and gen: "genuine s i" and k: "k \<noteq> KFill"
    and res: "finish_cancel i ts k pub uns s = Inr (s', evs)"
  shows "i \<notin> om_live s \<and> undisturbed s s' \<or> closes i s s'"
proof (cases rule: finish_cancel_cases [OF inv gen, where ts = ts and kind = k and pub = pub and uns = uns])
  case (1 vr)
  with res plain_ok [OF inv _ k] show ?thesis by (auto simp: undisturbed_drop inv)
next
  case (2 ord' s1 s2)
  with res have "s2 = s'" by simp
  with 2 finish_cancel_own [OF res] show ?thesis by (simp add: closes_def own_trades_def position_def)
qed

lemma reject_effect:
  assumes inv: "om_inv s" and gen: "genuine s i" and res: "on_reject i reason ts s = Inr (s', evs)"
  shows "reason = CancelRejectedReason \<and> undisturbed s s'
    \<or> reason \<noteq> CancelRejectedReason \<and> (i \<notin> om_live s \<and> undisturbed s s' \<or> closes i s s')"
proof (cases rule: on_reject_cases [OF inv gen, where reason = reason and ts = ts])
  case (1 h)
  let ?t = "s\<lparr>om_expected_fcr := om_expected_fcr s - {i}, om_health := h\<rparr>"
  have "undisturbed s ?t" using 1(5) by (simp add: undisturbed_def order_ref_def position_def)
  with undisturbed_log 1(4) res 1(1) show ?thesis by (metis Inr_inject prod.inject)
next
  case (2 vr)
  with res plain_ok [OF inv] show ?thesis by (auto simp: undisturbed_drop inv)
next
  case (3 s1)
  with res have s1: "s1 = s'" by simp
  have "om_trade_ids s1 = om_trade_ids s"
    using 3(1,2,5) unfolding on_reject_def Let_def
    by (auto simp: ebind_Inr_iff with_health_def put_order_def split: if_splits)
  moreover have "econ (order_ref s1 j) = econ (order_ref s j)" if "j \<in> om_live s" for j
    using 3(6) 3(11) [OF that] by (cases "j = i") (simp_all add: econ_def)
  ultimately show ?thesis using 3 s1 by (simp add: position_def undisturbed_def)
next
  case (4 ord' s1 s2)
  with res have "s2 = s'" by simp
  with 4 on_reject_own [OF res] show ?thesis by (simp add: closes_def own_trades_def position_def)
qed

lemma fill_refused:
  assumes inv: "om_inv s" and gen: "genuine s i" and res: "on_fill i q p t ts s = Inr (s', evs)"
    and no: "i \<notin> om_live s \<or> t \<in> map_get {} (om_trade_ids s) i"
  shows "undisturbed s s'"
proof (cases rule: on_fill_cases [OF inv gen, where qty = q and price = p and ts = ts and trade = t])
  case (1 vr)
  with res have "s' = reject_fill i vr ts s" by simp
  then show ?thesis using inv by (simp add: undisturbed_def order_ref_def position_def)
qed (use no in auto)

lemma fill_taken:
  assumes inv: "om_inv s" and res: "on_fill i q p t ts s = Inr (s', evs)"
    and i: "i \<in> om_live s" and t: "t \<notin> map_get {} (om_trade_ids s) i" and q: "0 < q" "0 < p"
    and fits: "q \<le> remaining (order_ref s i)"
  shows "om_inv s'"
    and "om_live s' = (if q = remaining (order_ref s i) then om_live s - {i} else om_live s)"
    and "pos_net (position s' k) = pos_net (position s k)
      + (if k = o_instrument (order_ref s i) then signed_qty (o_side (order_ref s i)) q else 0)"
    and "j \<in> om_live s' \<Longrightarrow> j \<noteq> i \<Longrightarrow> econ (order_ref s' j) = econ (order_ref s j) \<and> om_trade_ids s' j = om_trade_ids s j"
    and "i \<in> om_live s' \<Longrightarrow> econ (order_ref s' i) = econ (filled_order q p ts (order_ref s i))
      \<and> om_trade_ids s' i = Some (insert t (map_get {} (om_trade_ids s) i))"
proof -
  note gen = om_live_genuine [OF inv i] and own = on_fill_own [OF res]
  have ok: "validate i \<lparr>cx_kind = KFill, cx_trade_id = t, cx_qty = q, cx_price = p\<rparr> s = ValidOk"
    using om_live_current [OF inv i] om_inv_open [OF inv i] t q fits
    by (auto simp: validate_def Let_def map_get_def split: option.splits)
  have pos: "pos_net (position u k) = pos_net (position s k)
      + (if k = o_instrument (order_ref s i) then signed_qty (o_side (order_ref s i)) q else 0)"
    if "om_positions u = om_positions (book_fill i q p t ts s)" for u :: "'a OrderManager"
    by (auto simp: position_def that)
  have "om_inv s' \<and> om_live s' = (if q = remaining (order_ref s i) then om_live s - {i} else om_live s)
    \<and> pos_net (position s' k) = pos_net (position s k)
      + (if k = o_instrument (order_ref s i) then signed_qty (o_side (order_ref s i)) q else 0)
    \<and> (\<forall>j \<in> om_live s'. j \<noteq> i \<longrightarrow> econ (order_ref s' j) = econ (order_ref s j) \<and> om_trade_ids s' j = om_trade_ids s j)
    \<and> (i \<in> om_live s' \<longrightarrow> econ (order_ref s' i) = econ (filled_order q p ts (order_ref s i))
      \<and> om_trade_ids s' i = Some (insert t (map_get {} (om_trade_ids s) i)))"
  proof (cases rule: on_fill_cases [OF inv gen, where qty = q and price = p and ts = ts and trade = t])
    case (1 vr)
    with ok show ?thesis by simp
  next
    case (2 s1)
    with res have "s1 = s'" by simp
    with 2 own pos [OF 2(10)] show ?thesis by (simp add: own_trades_def map_upd_def)
  next
    case (3 s1 s2)
    with res have s2: "s2 = s'" by simp
    have "om_positions s2 = om_positions (book_fill i q p t ts s)" using 3(12,10) by simp
    with 3 s2 own pos [of s2] show ?thesis by (simp add: own_trades_def)
  qed
  then show "om_inv s'"
    and "om_live s' = (if q = remaining (order_ref s i) then om_live s - {i} else om_live s)"
    and "pos_net (position s' k) = pos_net (position s k)
      + (if k = o_instrument (order_ref s i) then signed_qty (o_side (order_ref s i)) q else 0)"
    and "j \<in> om_live s' \<Longrightarrow> j \<noteq> i \<Longrightarrow> econ (order_ref s' j) = econ (order_ref s j) \<and> om_trade_ids s' j = om_trade_ids s j"
    and "i \<in> om_live s' \<Longrightarrow> econ (order_ref s' i) = econ (filled_order q p ts (order_ref s i))
      \<and> om_trade_ids s' i = Some (insert t (map_get {} (om_trade_ids s) i))" by auto
qed

section \<open>Fills still on their way\<close>

text \<open>The queued fills of an order, those of trades it has not seen, and what they add up to.\<close>

definition fills_for :: "OrderIdRaw \<Rightarrow> SimEvent list \<Rightarrow> SimEvent set" where
  "fills_for i q = {ev \<in> set q. se_type ev = SimFill \<and> se_id ev = i}"

definition legs_left :: "TradeId set \<Rightarrow> SimEvent set \<Rightarrow> (TradeId \<times> Quantity) set" where
  "legs_left seen F = (\<lambda>ev. (se_trade ev, se_qty ev)) ` {ev \<in> F. se_trade ev \<notin> seen}"

text \<open>The final fill comes after a fill of every other trade.\<close>

definition final_last :: "TradeId set \<Rightarrow> SimEvent set \<Rightarrow> bool" where
  "final_last seen F \<longleftrightarrow> (\<forall>ev \<in> F. \<forall>ev' \<in> F. se_final ev \<and> se_trade ev \<notin> seen \<and> se_trade ev' \<notin> seen
     \<and> se_trade ev' \<noteq> se_trade ev \<longrightarrow>
       (\<exists>ev'' \<in> F. se_trade ev'' = se_trade ev' \<and> event_key ev'' < event_key ev))"

definition legs_ok :: "SimEvent set \<Rightarrow> TradeId set \<Rightarrow> Quantity \<Rightarrow> bool" where
  "legs_ok F seen rem \<longleftrightarrow> finite F \<and> (\<forall>ev \<in> F. 0 < se_qty ev \<and> 0 < se_price ev)
     \<and> inj_on fst (legs_left seen F) \<and> final_last seen F
     \<and> (legs_left seen F = {} \<or> (\<Sum>(t, q) \<in> legs_left seen F. q) = rem)"

lemma finite_legs: "finite F \<Longrightarrow> finite (legs_left seen F)"
  by (simp add: legs_left_def)

lemma legs_mem: "ev \<in> F \<Longrightarrow> se_trade ev \<notin> seen \<Longrightarrow> (se_trade ev, se_qty ev) \<in> legs_left seen F"
  by (auto simp: legs_left_def)

lemma leg_within:
  assumes "legs_ok F seen rem" and "ev \<in> F" and "se_trade ev \<notin> seen"
  shows "0 < se_qty ev" and "0 < se_price ev" and "se_qty ev \<le> rem"
proof -
  let ?L = "legs_left seen F" and ?p = "(se_trade ev, se_qty ev)"
  show "0 < se_qty ev" "0 < se_price ev" using assms(1,2) by (auto simp: legs_ok_def)
  have p: "?p \<in> ?L" using assms(2,3) by (rule legs_mem)
  have fin: "finite ?L" using assms(1) by (simp add: legs_ok_def finite_legs)
  have "0 \<le> (\<Sum>(t, q) \<in> ?L - {?p}. q)"
    using assms(1) by (intro sum_nonneg) (auto simp: legs_left_def legs_ok_def dest: less_imp_le)
  moreover have "(\<Sum>(t, q) \<in> ?L. q) = se_qty ev + (\<Sum>(t, q) \<in> ?L - {?p}. q)"
    using sum.remove [OF fin p, of "\<lambda>(t, q). q"] by simp
  moreover have "(\<Sum>(t, q) \<in> ?L. q) = rem" using assms(1) p by (auto simp: legs_ok_def)
  ultimately show "se_qty ev \<le> rem" by simp
qed

text \<open>A fill of a seen trade leaves the queue, and a fill of a new one is accepted.\<close>

lemma legs_ok_seen:
  assumes "legs_ok (insert ev F) seen rem" and "se_trade ev \<in> seen"
  shows "legs_ok F seen rem"
proof -
  have "legs_left seen (insert ev F) = legs_left seen F" using assms(2) by (auto simp: legs_left_def)
  moreover have "final_last seen F" unfolding final_last_def
  proof (intro ballI impI)
    fix e e' assume e: "e \<in> F" "e' \<in> F"
      "se_final e \<and> se_trade e \<notin> seen \<and> se_trade e' \<notin> seen \<and> se_trade e' \<noteq> se_trade e"
    then obtain e'' where "e'' \<in> insert ev F" "se_trade e'' = se_trade e'" "event_key e'' < event_key e"
      using assms(1) unfolding legs_ok_def final_last_def by blast
    with e(3) assms(2) show "\<exists>e'' \<in> F. se_trade e'' = se_trade e' \<and> event_key e'' < event_key e" by auto
  qed
  ultimately show ?thesis using assms(1) by (simp add: legs_ok_def)
qed

lemma legs_ok_accept:
  assumes ok: "legs_ok (insert ev F) seen rem" and new: "se_trade ev \<notin> seen"
  shows "legs_ok F (insert (se_trade ev) seen) (rem - se_qty ev)"
proof -
  let ?p = "(se_trade ev, se_qty ev)" and ?seen = "insert (se_trade ev) seen"
  let ?L = "legs_left seen (insert ev F)"
  have p: "?p \<in> ?L" using new by (simp add: legs_mem)
  have inj: "inj_on fst ?L" and fin: "finite ?L" using ok by (auto simp: legs_ok_def finite_legs)
  have L: "legs_left ?seen F = ?L - {?p}"
  proof
    show "legs_left ?seen F \<subseteq> ?L - {?p}" by (auto simp: legs_left_def)
    show "?L - {?p} \<subseteq> legs_left ?seen F"
    proof
      fix y assume y: "y \<in> ?L - {?p}"
      then obtain e where e: "e \<in> insert ev F" "se_trade e \<notin> seen" "y = (se_trade e, se_qty e)"
        by (auto simp: legs_left_def)
      have "se_trade e \<noteq> se_trade ev"
      proof
        assume "se_trade e = se_trade ev"
        then have "y = ?p" using inj_onD [OF inj, of y ?p] y p e(3) by simp
        with y show False by simp
      qed
      with e show "y \<in> legs_left ?seen F" by (auto simp: legs_left_def)
    qed
  qed
  have sum: "(\<Sum>(t, q) \<in> ?L. q) = rem" using ok p by (auto simp: legs_ok_def)
  have "(\<Sum>(t, q) \<in> legs_left ?seen F. q) = rem - se_qty ev"
    using sum.remove [OF fin p, of "\<lambda>(t, q). q"] sum unfolding L by simp
  moreover have "inj_on fst (legs_left ?seen F)" unfolding L by (rule inj_on_subset [OF inj]) auto
  moreover have "final_last ?seen F" unfolding final_last_def
  proof (intro ballI impI)
    fix e e' assume e: "e \<in> F" "e' \<in> F"
      "se_final e \<and> se_trade e \<notin> ?seen \<and> se_trade e' \<notin> ?seen \<and> se_trade e' \<noteq> se_trade e"
    then obtain e'' where "e'' \<in> insert ev F" "se_trade e'' = se_trade e'" "event_key e'' < event_key e"
      using ok unfolding legs_ok_def final_last_def by blast
    with e(3) show "\<exists>e'' \<in> F. se_trade e'' = se_trade e' \<and> event_key e'' < event_key e" by auto
  qed
  ultimately show ?thesis using ok by (simp add: legs_ok_def)
qed

text \<open>A final fill at the head of the queue completes the order.\<close>

lemma final_completes:
  assumes ok: "legs_ok F seen rem" and ev: "ev \<in> F" "se_trade ev \<notin> seen" "se_final ev"
    and first: "\<And>e. e \<in> F \<Longrightarrow> event_key ev \<le> event_key e"
  shows "se_qty ev = rem"
proof -
  have "legs_left seen F = {(se_trade ev, se_qty ev)}"
  proof
    show "{(se_trade ev, se_qty ev)} \<subseteq> legs_left seen F" using ev(1,2) by (simp add: legs_mem)
    show "legs_left seen F \<subseteq> {(se_trade ev, se_qty ev)}"
    proof
      fix y assume y: "y \<in> legs_left seen F"
      then obtain e where e: "e \<in> F" "se_trade e \<notin> seen" "y = (se_trade e, se_qty e)"
        by (auto simp: legs_left_def)
      have "se_trade e = se_trade ev"
      proof (rule ccontr)
        assume "se_trade e \<noteq> se_trade ev"
        then obtain e'' where "e'' \<in> F" "event_key e'' < event_key ev"
          using ok ev e(1,2) unfolding legs_ok_def final_last_def by blast
        with first [of e''] show False by simp
      qed
      moreover have "inj_on fst (legs_left seen F)" using ok by (simp add: legs_ok_def)
      ultimately show "y \<in> {(se_trade ev, se_qty ev)}"
        using inj_onD [of fst "legs_left seen F" y "(se_trade ev, se_qty ev)"] y e(3) legs_mem [OF ev(1,2)] by simp
    qed
  qed
  then show ?thesis using ok by (simp add: legs_ok_def)
qed


section \<open>Agreement\<close>

text \<open>The venue's entry of an order against the manager's.\<close>

definition tracks :: "Working \<Rightarrow> Order \<Rightarrow> TradeId set \<Rightarrow> SimEvent set \<Rightarrow> bool" where
  "tracks w ord seen F \<longleftrightarrow> wk_alive w \<and> wk_instrument w = o_instrument ord \<and> wk_side w = o_side ord
     \<and> wk_remaining w = remaining ord \<and> wk_seen_trades w = seen \<and> legs_ok F seen (remaining ord)"

definition agrees :: "'g SimulatedExchange \<Rightarrow> 'e OrderManager \<Rightarrow> bool" where
  "agrees x s \<longleftrightarrow> (\<forall>k. pos_net (position s k) = map_get 0 (sx_positions x) k)
     \<and> (\<forall>i \<in> om_live s. \<exists>w. sx_working x i = Some w
          \<and> tracks w (order_ref s i) (map_get {} (om_trade_ids s) i) (fills_for i (sx_queue x)))
     \<and> (\<forall>i w. sx_working x i = Some w \<and> wk_alive w \<longrightarrow> i \<in> om_live s)"

lemma tracks_econ: "econ ord' = econ ord \<Longrightarrow> tracks w ord' = tracks w ord"
  by (simp add: tracks_def econ_def remaining_def fun_eq_iff)

lemma agrees_undisturbed:
  assumes "agrees x s" and "undisturbed s s'"
  shows "agrees x s'"
proof -
  have "position s' = position s" using assms(2) by (auto simp: undisturbed_def)
  moreover have "tracks w (order_ref s' i) = tracks w (order_ref s i)"
    "map_get {} (om_trade_ids s') i = map_get {} (om_trade_ids s) i" if "i \<in> om_live s" for i w
    using assms(2) that by (auto simp: undisturbed_def map_get_def intro: tracks_econ)
  ultimately show ?thesis using assms unfolding agrees_def undisturbed_def by simp
qed

lemma fills_for_pop:
  "se_type ev \<noteq> SimFill \<or> se_id ev \<noteq> i \<Longrightarrow> fills_for i (ev # rest) = fills_for i rest"
  "se_type ev = SimFill \<Longrightarrow> fills_for (se_id ev) (ev # rest) = insert ev (fills_for (se_id ev) rest)"
  by (auto simp: fills_for_def)

lemma agrees_pop:
  "agrees x s \<Longrightarrow> sx_queue x = ev # rest \<Longrightarrow> se_type ev \<noteq> SimFill \<Longrightarrow> agrees (x\<lparr>sx_queue := rest\<rparr>) s"
  by (simp add: agrees_def fills_for_pop)

lemma agrees_kill:
  assumes "agrees x s" and "i \<notin> om_live s \<and> undisturbed s s' \<or> closes i s s'"
  shows "agrees (sim_kill i x) s'"
proof -
  have k: "sx_queue (sim_kill i x) = sx_queue x" "sx_positions (sim_kill i x) = sx_positions x"
    "j \<noteq> i \<Longrightarrow> sx_working (sim_kill i x) j = sx_working x j" for j
    by (simp_all add: sim_kill_def split: option.splits)
  have dead: "sx_working (sim_kill i x) i = Some w \<Longrightarrow> \<not> wk_alive w" for w
    by (auto simp: sim_kill_def split: option.splits)
  have live: "om_live s' = om_live s - {i}" using assms(2) by (auto simp: undisturbed_def closes_def)
  have pos: "position s' = position s"
    using assms(2) by (auto simp: undisturbed_def closes_def)
  have same: "tracks w (order_ref s' j) = tracks w (order_ref s j)"
    "map_get {} (om_trade_ids s') j = map_get {} (om_trade_ids s) j" if "j \<in> om_live s'" for j w
    using assms(2) that live by (auto simp: undisturbed_def closes_def map_get_def intro!: tracks_econ)
  have "j \<in> om_live s'" if "sx_working (sim_kill i x) j = Some w" "wk_alive w" for j w
    using that dead k(3) [of j] assms(1) live by (cases "j = i") (auto simp: agrees_def)
  moreover have "\<exists>w. sx_working (sim_kill i x) j = Some w \<and> tracks w (order_ref s' j)
      (map_get {} (om_trade_ids s') j) (fills_for j (sx_queue (sim_kill i x)))" if "j \<in> om_live s'" for j
    using assms(1) that live same [OF that] k(1) k(3) [of j] by (auto simp: agrees_def)
  ultimately show ?thesis using assms(1) pos k(2) by (auto simp: agrees_def)
qed

text \<open>A fill at the head of the queue is taken by both sides or by neither.\<close>

lemma agrees_fill:
  assumes ag: "agrees x s" and inv: "om_inv s" and sorted: "queue_sorted (sx_queue x)"
    and q: "sx_queue x = ev # rest" and ty: "se_type ev = SimFill" and gen: "genuine s (se_id ev)"
    and res: "on_fill (se_id ev) (se_qty ev) (se_price ev) (se_trade ev) ts s = Inr (s', evs)"
  shows "agrees (sim_book_fill ev (x\<lparr>sx_queue := rest\<rparr>)) s' \<and> om_inv s'"
proof -
  let ?i = "se_id ev" and ?x = "sim_book_fill ev (x\<lparr>sx_queue := rest\<rparr>)"
  have qx: "sx_queue ?x = rest" "j \<noteq> ?i \<Longrightarrow> sx_working ?x j = sx_working x j" for j
    by (simp_all add: sim_book_fill_def Let_def split: option.splits)
  have others: "fills_for j rest = fills_for j (sx_queue x)" if "j \<noteq> ?i" for j
    using that by (simp add: q fills_for_pop)
  have own: "fills_for ?i (sx_queue x) = insert ev (fills_for ?i rest)"
    using ty by (simp add: q fills_for_pop)
  have pos: "pos_net (position s k) = map_get 0 (sx_positions x) k" for k using ag by (simp add: agrees_def)
  show ?thesis
  proof (cases "?i \<in> om_live s")
    case False
    then have un: "undisturbed s s'" using fill_refused [OF inv gen res] by simp
    have dead: "\<not> wk_alive w" if "sx_working x ?i = Some w" for w using ag that False by (auto simp: agrees_def)
    then have "sx_positions ?x = sx_positions x" "sx_working ?x ?i = Some w \<Longrightarrow> \<not> wk_alive w" for w
      by (auto simp: sim_book_fill_def Let_def split: option.splits)
    moreover have "j \<noteq> ?i" if "j \<in> om_live s" for j using that False by blast
    ultimately have "agrees ?x s"
      using ag others qx unfolding agrees_def by (metis)
    with un show ?thesis by (simp add: agrees_undisturbed undisturbed_def)
  next
    case i: True
    let ?o = "order_ref s ?i" and ?seen = "map_get {} (om_trade_ids s) ?i"
    obtain w where w: "sx_working x ?i = Some w" "tracks w ?o ?seen (insert ev (fills_for ?i rest))"
      using ag i own by (auto simp: agrees_def)
    note tr = w(2) [unfolded tracks_def]
    show ?thesis
    proof (cases "se_trade ev \<in> ?seen")
      case True
      then have "undisturbed s s'" using fill_refused [OF inv gen res] by simp
      moreover have "agrees ?x s"
      proof -
        have same: "w\<lparr>wk_seen_trades := insert (se_trade ev) (wk_seen_trades w)\<rparr> = w"
          using True tr by (simp add: insert_absorb)
        have "sx_working ?x = sx_working x" "sx_positions ?x = sx_positions x"
          using w(1) True tr same by (auto simp: sim_book_fill_def Let_def)
        moreover have "tracks w ?o ?seen (fills_for ?i rest)"
          using tr legs_ok_seen [OF _ True] by (simp add: tracks_def)
        ultimately show ?thesis using ag others qx(1) w(1) unfolding agrees_def by metis
      qed
      ultimately show ?thesis by (simp add: agrees_undisturbed undisturbed_def)
    next
      case new: False
      let ?F = "insert ev (fills_for ?i rest)"
      have legs: "legs_ok ?F ?seen (remaining ?o)" using tr by simp
      note fit = leg_within [OF legs insertI1 new]
      note t = fill_taken [OF inv res i new fit]
      let ?rem = "remaining ?o - se_qty ev"
      have fin: "se_final ev \<or> ?rem \<le> 0 \<longleftrightarrow> se_qty ev = remaining ?o"
      proof -
        have "event_key ev \<le> event_key e" if "e \<in> ?F" for e
          using that sorted q by (auto simp: queue_sorted_def fills_for_def)
        then have "se_final ev \<Longrightarrow> se_qty ev = remaining ?o"
          using final_completes [OF legs insertI1 new] by simp
        with fit(3) show ?thesis by auto
      qed
      define w' where "w' = w\<lparr>wk_seen_trades := insert (se_trade ev) ?seen, wk_remaining := ?rem,
          wk_alive := (se_qty ev \<noteq> remaining ?o)\<rparr>"
      have upd: "sx_working ?x ?i = Some w'" "sx_positions ?x = map_upd 0 (\<lambda>p. p + signed_qty (wk_side w) (se_qty ev))
          (sx_positions x) (wk_instrument w)"
        using w(1) tr new fin by (auto simp: sim_book_fill_def Let_def w'_def)
      have "pos_net (position s' k) = map_get 0 (sx_positions ?x) k" for k
        using t(3) [of k] pos upd(2) tr by simp
      moreover have "\<exists>u. sx_working ?x j = Some u \<and> tracks u (order_ref s' j)
          (map_get {} (om_trade_ids s') j) (fills_for j (sx_queue ?x))" if j: "j \<in> om_live s'" for j
      proof (cases "j = ?i")
        case True
        then have part: "se_qty ev \<noteq> remaining ?o" using j t(2) by auto
        have "remaining (filled_order (se_qty ev) (se_price ev) ts ?o) = ?rem"
          by (simp add: remaining_def filled_order_fields)
        then have "tracks w' (filled_order (se_qty ev) (se_price ev) ts ?o) (insert (se_trade ev) ?seen) (fills_for ?i rest)"
          using tr legs_ok_accept [OF legs new] part by (simp add: tracks_def w'_def filled_order_fields)
        moreover have "econ (order_ref s' ?i) = econ (filled_order (se_qty ev) (se_price ev) ts ?o)"
          "map_get {} (om_trade_ids s') ?i = insert (se_trade ev) ?seen"
          using t(5) j True by (simp_all add: map_get_def)
        ultimately have "tracks w' (order_ref s' ?i) (map_get {} (om_trade_ids s') ?i) (fills_for ?i rest)"
          using tracks_econ by metis
        then show ?thesis unfolding True qx(1) using upd(1) by blast
      next
        case False
        with j t(2) have "j \<in> om_live s" by (auto split: if_splits)
        then obtain u where u: "sx_working x j = Some u"
            "tracks u (order_ref s j) (map_get {} (om_trade_ids s) j) (fills_for j (sx_queue x))"
          using ag by (auto simp: agrees_def)
        moreover have "tracks u (order_ref s' j) = tracks u (order_ref s j)"
          "map_get {} (om_trade_ids s') j = map_get {} (om_trade_ids s) j"
          using t(4) [OF j False] by (auto simp: map_get_def intro: tracks_econ)
        ultimately show ?thesis using qx False others by simp
      qed
      moreover have "j \<in> om_live s'" if "sx_working ?x j = Some u" "wk_alive u" for j u
        using that upd(1) qx(2) [of j] ag t(2) i by (cases "j = ?i") (auto simp: agrees_def w'_def)
      ultimately show ?thesis using t(1) by (auto simp: agrees_def)
    qed
  qed
qed

section \<open>Deliveries\<close>

text \<open>Fills are scheduled in their order, also where the first one overtakes the confirm.\<close>

definition timing_ok :: "SimConfig \<Rightarrow> bool" where
  "timing_ok cfg \<longleftrightarrow> 0 \<le> sc_fill_gap_ns cfg
     \<and> (sc_reorder_fill_before_ack cfg \<longrightarrow> sc_ack_latency_ns cfg - 1 \<le> sc_fill_latency_ns cfg + sc_fill_gap_ns cfg)"

definition venue_ok :: "'g SimulatedExchange \<Rightarrow> bool" where
  "venue_ok x \<longleftrightarrow> queue_sorted (sx_queue x) \<and> sx_sink x \<and> timing_ok (sx_cfg x)
     \<and> (\<forall>ev \<in> set (sx_queue x). se_type ev = SimReject \<longrightarrow> se_reason ev \<noteq> CancelRejectedReason)"

lemma agrees_deliver:
  assumes ag: "agrees x s" and inv: "om_inv s" and ok: "venue_ok x" and q: "sx_queue x = ev # rest"
    and gen: "genuine s (se_id ev)" and del: "sim_deliver ev (x\<lparr>sx_queue := rest\<rparr>) = (calls, x')"
    and call: "calls = [call]" and res: "sink_call call s = Inr (s', evs)"
  shows "agrees x' s' \<and> om_inv s' \<and> om_registry s' = om_registry s \<and> venue_ok x'"
proof -
  have x': "venue_ok x'" using sim_deliver_frame [OF del] ok q by (simp add: venue_ok_def queue_sorted_def)
  have sink: "sx_sink x" using ok by (simp add: venue_ok_def)
  show ?thesis
  proof (cases "se_type ev")
    case SimConfirm
    then obtain xid where "on_confirm (se_id ev) xid (se_at ev) s = Inr (s', evs)"
      using del call res sink by (auto simp: sim_deliver_def)
    with confirm_undisturbed [OF inv gen this] on_confirm_own [OF this] agrees_pop [OF ag q] SimConfirm x' del sink
    show ?thesis by (auto simp: sim_deliver_def own_trades_def undisturbed_def agrees_undisturbed)
  next
    case SimFill
    then have r: "on_fill (se_id ev) (se_qty ev) (se_price ev) (se_trade ev) (se_at ev) s = Inr (s', evs)"
        "x' = sim_book_fill ev (x\<lparr>sx_queue := rest\<rparr>)"
      using del call res sink by (auto simp: sim_deliver_def)
    have "queue_sorted (sx_queue x)" using ok by (simp add: venue_ok_def)
    with agrees_fill [OF ag inv _ q SimFill gen r(1)] on_fill_own [OF r(1)] x' r(2) show ?thesis
      by (simp add: own_trades_def)
  next
    case SimReject
    then have "se_reason ev \<noteq> CancelRejectedReason" using ok q by (simp add: venue_ok_def)
    moreover have r: "on_reject (se_id ev) (se_reason ev) (se_at ev) s = Inr (s', evs)"
      using SimReject del call res sink by (auto simp: sim_deliver_def)
    ultimately have eff: "se_id ev \<notin> om_live s \<and> undisturbed s s' \<or> closes (se_id ev) s s'"
      "om_registry s' = om_registry s"
      using reject_effect [OF inv gen r] on_reject_own [OF r] by (auto simp: own_trades_def)
    have "x' = sim_kill (se_id ev) (x\<lparr>sx_queue := rest\<rparr>)" using SimReject del sink by (simp add: sim_deliver_def)
    with eff x' agrees_kill [OF agrees_pop [OF ag q] eff(1)] SimReject show ?thesis
      by (auto simp: undisturbed_def closes_def)
  next
    case SimCancelAck
    then have r: "finish_cancel (se_id ev) (se_at ev) KCancelAck EvCancelled False s = Inr (s', evs)"
      using del call res sink by (auto simp: sim_deliver_def on_cancel_ack_def)
    note eff = finish_cancel_effect [OF inv gen _ r, simplified]
    have "x' = sim_kill (se_id ev) (x\<lparr>sx_queue := rest\<rparr>)" using SimCancelAck del sink by (simp add: sim_deliver_def)
    with eff x' agrees_kill [OF agrees_pop [OF ag q] eff] finish_cancel_own [OF r] SimCancelAck show ?thesis
      by (auto simp: undisturbed_def closes_def own_trades_def)
  next
    case SimCancelReject
    then have "on_reject (se_id ev) CancelRejectedReason (se_at ev) s = Inr (s', evs)"
      using del call res sink by (auto simp: sim_deliver_def)
    with reject_effect [OF inv gen this] on_reject_own [OF this] agrees_pop [OF ag q] SimCancelReject x' del sink
    show ?thesis by (auto simp: sim_deliver_def own_trades_def undisturbed_def agrees_undisturbed)
  next
    case SimUnsolicited
    then have r: "finish_cancel (se_id ev) (se_at ev) KUnsolicitedCancel EvUnsolicitedCancel True s = Inr (s', evs)"
      using del call res sink by (auto simp: sim_deliver_def on_unsolicited_cancel_def)
    note eff = finish_cancel_effect [OF inv gen _ r, simplified]
    have "x' = sim_kill (se_id ev) (x\<lparr>sx_queue := rest\<rparr>)" using SimUnsolicited del sink by (simp add: sim_deliver_def)
    with eff x' agrees_kill [OF agrees_pop [OF ag q] eff] finish_cancel_own [OF r] SimUnsolicited show ?thesis
      by (auto simp: undisturbed_def closes_def own_trades_def)
  qed
qed

end
