(* ===== verification/SimIds.thy ===== *)
theory SimIds
  imports SimAgree
begin

text \<open>
  Ids do not come back: as long as fewer than 65536 orders were sent, every id a venue still
  holds names the order it was made for or a slot that has moved on. This is what the manager's
  guard \<open>is_current\<close>, which compares slot and generation only, needs from its venues.
\<close>

section \<open>How the pool evolves\<close>

text \<open>Slots keep their order, with its id and scratch data, and their generation, or are released once.\<close>

definition evolves :: "OrderPool \<Rightarrow> OrderPool \<Rightarrow> bool" where
  "evolves p p' \<longleftrightarrow> capacity p' = capacity p \<and> (\<forall>t < capacity p.
     (slot_live p' t = slot_live p t \<and> generation p' ! t = generation p ! t
        \<and> o_internal_id (pool_at p' t) = o_internal_id (pool_at p t)
        \<and> o_int_data (pool_at p' t) = o_int_data (pool_at p t))
     \<or> (slot_live p t \<and> \<not> slot_live p' t \<and> generation p' ! t = generation p ! t + 1))"

lemma evolves_refl [simp]: "evolves p p"
  by (simp add: evolves_def)

lemma evolves_trans [trans]: "evolves p q \<Longrightarrow> evolves q r \<Longrightarrow> evolves p r"
  unfolding evolves_def by (metis (no_types, lifting))

lemma evolves_put:
  assumes "o_internal_id ord = o_internal_id (pool_at p t)" and "o_int_data ord = o_int_data (pool_at p t)"
  shows "evolves p (pool_put t ord p)"
proof -
  have "o_internal_id (pool_at (pool_put t ord p) u) = o_internal_id (pool_at p u)
      \<and> o_int_data (pool_at (pool_put t ord p) u) = o_int_data (pool_at p u)" for u
    using assms by (cases "u = t"; cases "t < length (slots p)") (simp_all add: pool_at_def pool_put_def list_update_beyond)
  then show ?thesis by (simp add: evolves_def)
qed

lemma evolves_release:
  assumes "release t p = Inr p'" and "length (allocated p) = capacity p" and "length (generation p) = capacity p"
  shows "evolves p p'"
  using assms by (auto simp: release_def evolves_def slot_live_def pool_at_def nth_list_update split: if_splits)

section \<open>Handlers and the pool\<close>

definition settles :: "'e OrderManager \<Rightarrow> 'e OrderManager \<Rightarrow> bool" where
  "settles s s' \<longleftrightarrow> (pool_inv (om_pool s) \<longrightarrow> pool_inv (om_pool s') \<and> evolves (om_pool s) (om_pool s'))
     \<and> om_venue_seq s' = om_venue_seq s \<and> om_live_iter s' = om_live_iter s \<and> om_router s' = om_router s"

lemma settles_trans [trans]: "settles s t \<Longrightarrow> settles t u \<Longrightarrow> settles s u"
  using evolves_trans by (auto simp: settles_def)

lemma settles_same:
  "om_pool s' = om_pool s \<Longrightarrow> om_venue_seq s' = om_venue_seq s \<Longrightarrow> om_live_iter s' = om_live_iter s
   \<Longrightarrow> om_router s' = om_router s \<Longrightarrow> settles s s'"
  by (simp add: settles_def)

lemma settles_put:
  "om_pool s' = pool_put (slot_of i) ord (om_pool s) \<Longrightarrow> o_internal_id ord = o_internal_id (order_ref s i)
   \<Longrightarrow> o_int_data ord = o_int_data (order_ref s i) \<Longrightarrow> om_venue_seq s' = om_venue_seq s
   \<Longrightarrow> om_live_iter s' = om_live_iter s \<Longrightarrow> om_router s' = om_router s \<Longrightarrow> settles s s'"
  by (simp add: settles_def evolves_put order_ref_def)

lemma settles_release:
  assumes "release t (om_pool s) = Inr p" and "om_pool s' = p" and "om_venue_seq s' = om_venue_seq s"
    and "om_live_iter s' = om_live_iter s" and "om_router s' = om_router s"
  shows "settles s s'"
proof -
  have "pool_inv p \<and> evolves (om_pool s) p" if inv: "pool_inv (om_pool s)"
  proof -
    obtain q where "release t (om_pool s) = Inr q" "pool_inv q"
      by (rule release_cases [OF inv release_Inr_live [OF assms(1)]])
    moreover have "length (allocated (om_pool s)) = capacity (om_pool s)"
      "length (generation (om_pool s)) = capacity (om_pool s)" using inv by (simp_all add: pool_inv_def)
    ultimately show ?thesis using evolves_release [OF assms(1)] assms(1) by simp
  qed
  with assms(2-5) show ?thesis by (simp add: settles_def)
qed

lemma retire_settles: "retire i inst q sd s = Inr s' \<Longrightarrow> settles s s'"
  unfolding retire_def Let_def
  by (auto simp: ebind_Inr_iff split: if_splits intro: settles_release settles_same)

lemma with_health_settles: "with_health f s = Inr s' \<Longrightarrow> settles s s'"
  by (auto simp: with_health_def ebind_Inr_iff intro: settles_same)

lemma settles_log: "settles s (om_log_line l line s)"
  by (simp add: settles_same om_log_line_def)

lemma settles_trip: "settles s (trip_kill_switch why s)"
  by (simp add: settles_same trip_kill_switch_def om_log_line_def)

lemma settles_drop: "settles s (drop_event i k vr ts s)"
  by (rule settles_same) (simp_all add: drop_event_def log_rejection_def Let_def om_log_line_def)

lemma settles_reject_fill: "settles s (reject_fill i vr ts s)"
  using settles_drop [of s i KFill vr ts]
  by (auto simp: reject_fill_def Let_def settles_def trip_kill_switch_def om_log_line_def)

text \<open>Every handler but \<^verbatim>\<open>submit\<close> only settles the pool.\<close>

lemma settles_put_retire:
  "retire i inst q sd u = Inr s' \<Longrightarrow> om_pool u = pool_put (slot_of i) ord (om_pool s)
   \<Longrightarrow> o_internal_id ord = o_internal_id (order_ref s i) \<Longrightarrow> o_int_data ord = o_int_data (order_ref s i)
   \<Longrightarrow> om_venue_seq u = om_venue_seq s \<Longrightarrow> om_live_iter u = om_live_iter s \<Longrightarrow> om_router u = om_router s \<Longrightarrow> settles s s'"
  using settles_put [of u i ord s] retire_settles settles_trans by blast

lemmas handler_unfolds = Let_def ebind_Inr_iff with_health_def put_order_def om_log_line_def

lemma on_confirm_settles: "on_confirm i x ts s = Inr (s', evs) \<Longrightarrow> settles s s'"
  unfolding on_confirm_def
  by (auto simp: handler_unfolds split: if_splits intro: settles_put settles_drop)

lemma finish_cancel_settles: "finish_cancel i ts k pub uns s = Inr (s', evs) \<Longrightarrow> settles s s'"
  unfolding finish_cancel_def
  by (auto simp: handler_unfolds settles_drop simp del: append.simps split: if_splits elim!: settles_put_retire)

lemma on_reject_settles: "on_reject i reason ts s = Inr (s', evs) \<Longrightarrow> settles s s'"
  unfolding on_reject_def
  by (auto simp: handler_unfolds simp del: append.simps split: if_splits
      elim!: settles_put_retire intro: settles_put settles_same settles_drop)

lemma filled_order_int_data: "o_int_data (filled_order q p ts ord) = o_int_data ord"
  by (simp add: filled_order_def Let_def)

lemma on_fill_settles: "on_fill i q p t ts s = Inr (s', evs) \<Longrightarrow> settles s s'"
  unfolding on_fill_def book_fill_def
  by (auto simp: handler_unfolds settles_reject_fill filled_order_fields filled_order_int_data simp del: append.simps split: if_splits
      elim!: settles_put_retire intro: settles_put)

lemma call_cancel_settles: "call_cancel ops i ex s = (r, t) \<Longrightarrow> settles s t \<and> order_ref t i = order_ref s i"
  by (auto simp: call_cancel_def order_ref_def split: prod.splits intro: settles_same)

lemma mark_cancel_settles: "settles s (mark_cancel_sent i s)"
  unfolding mark_cancel_sent_def put_order_def
  by (rule settles_put [where i = i and ord = "(order_ref s i)\<lparr>o_pending_cancel := True, o_status := SentCancel\<rparr>"]) simp_all

lemma cancel_settles: "cancel ops i s = (b, t) \<Longrightarrow> settles s t"
  unfolding cancel_def
  by (auto simp del: append.simps split: if_splits option.splits prod.splits dest: call_cancel_settles
      intro: settles_same settles_log settles_trans [OF _ settles_log] settles_trans [OF _ mark_cancel_settles])

lemma cancel_working_settles: "settles s (cancel_working_orders ops s)"
  unfolding cancel_working_orders_def
proof (rule foldl_preserves [where P = "settles s"])
  fix t i assume "settles s t"
  moreover have "settles t (cancel_working_one ops t i)"
    by (auto simp: cancel_working_one_def Let_def split: option.splits prod.splits dest: call_cancel_settles
        intro: settles_same settles_trans [OF _ mark_cancel_settles])
  ultimately show "settles s (cancel_working_one ops t i)" by (rule settles_trans)
qed (simp add: settles_same)

lemma place_reserved_settles:
  "place_reserved ops req venue ex i s = Inr (j, s') \<Longrightarrow> settles s s'"
  unfolding place_reserved_def
  by (auto simp: handler_unfolds order_ref_def simp del: append.simps split: if_splits prod.splits
      elim!: settles_put_retire intro: settles_put)

text \<open>An ack timeout marks the order, and then at most asks the venue to cancel it.\<close>

lemma ack_timeout_one_effect:
  assumes "ack_timeout_one ops now timeout s i = Inr t"
  obtains "t = s"
  | s3 where "settles s s3" "om_registry s3 = om_registry s" "t = s3"
  | s3 ex r s4 where "settles s s3" "om_registry s3 = om_registry s"
      "registry_get (om_registry s) (venue_of i) = Some ex"
      "call_cancel ops i ex s3 = (r, s4)" "t = s4 \<or> t = mark_cancel_sent i s4"
proof (cases "\<not> is_current i (om_pool s) \<or> timeout_settled now timeout (order_ref s i)")
  case True
  then have "ack_timeout_one ops now timeout s i = Inr s"
    by (auto simp: ack_timeout_one_def Let_def timeout_settled_def)
  with assms that(1) show ?thesis by simp
next
  case False
  define s1 where "s1 = (put_order i ((order_ref s i)\<lparr>o_ack_timed_out := True\<rparr>) s)
      \<lparr>om_ack_timeout_count := om_ack_timeout_count s + 1\<rparr>"
  define attempt :: "'a OrderManager \<Rightarrow> 'a OrderManager result" where "attempt = (\<lambda>s3. case registry_get (om_registry s3) (venue_of i) of
           None \<Rightarrow> Inr s3
         | Some ex \<Rightarrow>
             if ec_is_connected ops ex \<and> \<not> o_pending_cancel (order_ref s3 i) then
               (let (r, s4) = call_cancel ops i ex s3
                in Inr (if r = SendOk then mark_cancel_sent i s4 else s4))
             else Inr s3)"
  have "ebind (with_health (health_on_timeout (venue_of i)) s1) (\<lambda>s2. attempt
      (om_log_line Warn (''ACK TIMEOUT id='' @ id_str i @ '' (possibly live; attempting cancel)'') s2)) = Inr t"
    using False assms by (simp add: ack_timeout_one_def Let_def timeout_settled_def s1_def attempt_def
        del: append.simps om_log_line_fields)
  then obtain s2 line where s2: "with_health (health_on_timeout (venue_of i)) s1 = Inr s2"
    and t: "attempt (om_log_line Warn line s2) = Inr t" by (elim ebind_InrE)
  define s3 where "s3 = om_log_line Warn line s2"
  have "om_pool s1 = pool_put (slot_of i) ((order_ref s i)\<lparr>o_ack_timed_out := True\<rparr>) (om_pool s)"
    "om_venue_seq s1 = om_venue_seq s" "om_live_iter s1 = om_live_iter s" "om_router s1 = om_router s"
    by (simp_all add: s1_def put_order_def)
  then have "settles s s1"
    by (intro settles_put [where i = i and ord = "(order_ref s i)\<lparr>o_ack_timed_out := True\<rparr>"]) simp_all
  then have s3: "settles s s3"
    using with_health_settles [OF s2] settles_log settles_trans unfolding s3_def by blast
  have reg: "om_registry s3 = om_registry s"
    using s2 by (auto simp: s3_def with_health_def ebind_Inr_iff s1_def put_order_def)
  show ?thesis
  proof (cases "registry_get (om_registry s) (venue_of i)")
    case None
    with t reg that(2) [OF s3 reg] show ?thesis by (simp add: s3_def [symmetric] attempt_def)
  next
    case (Some ex)
    obtain r s4 where c: "call_cancel ops i ex s3 = (r, s4)" by (cases "call_cancel ops i ex s3")
    with t reg Some have "t = s3 \<or> t = s4 \<or> t = mark_cancel_sent i s4"
      by (auto simp: s3_def [symmetric] attempt_def split: if_splits)
    with that(2) [OF s3 reg] that(3) [OF s3 reg Some c] show ?thesis by blast
  qed
qed

lemma ack_timeout_one_settles:
  assumes "ack_timeout_one ops now timeout s i = Inr t"
  shows "settles s t"
  using assms
proof (cases rule: ack_timeout_one_effect)
  case (3 s3 ex r s4)
  then show ?thesis
    using settles_trans [OF 3(1)] settles_trans [OF _ mark_cancel_settles] call_cancel_settles [OF 3(4)] by blast
qed (simp_all add: settles_same)

lemma check_ack_timeouts_settles:
  assumes "check_ack_timeouts ops now timeout s = Inr t"
  shows "settles s t"
proof -
  have "ack_timeout_loop ops now timeout ids s = Inr t \<Longrightarrow> settles s t" for ids
    by (induction ids arbitrary: s)
      (auto simp: ebind_Inr_iff settles_same dest: ack_timeout_one_settles intro: settles_trans)
  then show ?thesis using assms by (simp add: check_ack_timeouts_def)
qed

text \<open>So does whatever a venue calls.\<close>

lemma sink_call_settles: "sink_call call s = Inr (s', evs) \<Longrightarrow> settles s s'"
  by (cases call)
    (auto simp: on_cancel_ack_def on_unsolicited_cancel_def
      dest: on_confirm_settles on_fill_settles on_reject_settles finish_cancel_settles)

section \<open>Ids still held by a venue\<close>

text \<open>
  \<open>n\<close> orders were sent so far and \<open>K\<close> are ids still held: no slot has had more generations than
  there were orders, and an id held either names the order in its slot or is of an earlier
  generation.
\<close>

definition id_gen :: "OrderIdRaw \<Rightarrow> nat" where
  "id_gen i = unat (id_generation (decode_order_id i))"

definition ids_ok :: "OrderPool \<Rightarrow> nat \<Rightarrow> OrderIdRaw set \<Rightarrow> bool" where
  "ids_ok p n K \<longleftrightarrow> n < 2 ^ 16
     \<and> (\<forall>t < capacity p. unat (generation p ! t) + (if slot_live p t then 1 else 0) \<le> n)
     \<and> (\<forall>i \<in> K. unat (id_sequence (decode_order_id i)) \<le> n \<and> (slot_of i < capacity p \<longrightarrow>
          (if slot_live p (slot_of i)
           then id_gen i \<le> unat (generation p ! slot_of i)
             \<and> (id_gen i = unat (generation p ! slot_of i) \<longrightarrow> o_internal_id (pool_at p (slot_of i)) = i)
           else id_gen i < unat (generation p ! slot_of i))))"

lemma ids_genuine: "ids_ok (om_pool s) n K \<Longrightarrow> i \<in> K \<Longrightarrow> genuine s i"
  unfolding genuine_def
proof
  assume k: "ids_ok (om_pool s) n K" "i \<in> K" and cur: "is_current i (om_pool s)"
  then have "slot_live (om_pool s) (slot_of i)" "slot_of i < capacity (om_pool s)"
      "id_gen i = unat (generation (om_pool s) ! slot_of i)"
    using is_current_capacity [OF cur] by (simp_all add: is_current_iff id_gen_def)
  with k show "o_internal_id (order_ref s i) = i" by (simp add: ids_ok_def order_ref_def)
qed

lemma ids_new: "ids_ok p n K \<Longrightarrow> unat (id_sequence (decode_order_id i)) = Suc n \<Longrightarrow> i \<notin> K"
  by (auto simp: ids_ok_def)

lemma ids_evolve:
  assumes ids: "ids_ok p n K" and ev: "evolves p p'" and K: "K' \<subseteq> K"
  shows "ids_ok p' n K'"
proof -
  have n: "n < 2 ^ 16" using ids by (simp add: ids_ok_def)
  have slot: "(slot_live p' t = slot_live p t \<and> generation p' ! t = generation p ! t
        \<and> o_internal_id (pool_at p' t) = o_internal_id (pool_at p t))
     \<or> (slot_live p t \<and> \<not> slot_live p' t \<and> unat (generation p' ! t) = Suc (unat (generation p ! t)))"
    if t: "t < capacity p" for t
  proof -
    have "unat (generation p ! t) + (if slot_live p t then 1 else 0) \<le> n" using ids t by (simp add: ids_ok_def)
    with n have "slot_live p t \<Longrightarrow> unat (generation p ! t + 1) = Suc (unat (generation p ! t))"
      by (simp add: unat_word_ariths)
    then show ?thesis using ev t by (auto simp: evolves_def)
  qed
  have cap: "capacity p' = capacity p" using ev by (simp add: evolves_def)
  have "unat (generation p' ! t) + (if slot_live p' t then 1 else 0) \<le> n" if "t < capacity p" for t
    using slot [OF that] ids that by (auto simp: ids_ok_def)
  moreover have "if slot_live p' (slot_of i)
       then id_gen i \<le> unat (generation p' ! slot_of i)
         \<and> (id_gen i = unat (generation p' ! slot_of i) \<longrightarrow> o_internal_id (pool_at p' (slot_of i)) = i)
       else id_gen i < unat (generation p' ! slot_of i)" if "i \<in> K'" "slot_of i < capacity p" for i
    using slot [OF that(2)] ids that K by (fastforce simp: ids_ok_def split: if_splits)
  ultimately show ?thesis using n ids K by (auto simp: ids_ok_def cap)
qed

lemma ids_acquire:
  assumes ids: "ids_ok p n K" and inv: "pool_inv p" and acq: "acquire p = Inr (slot, p1)" and n: "Suc n < 2 ^ 16"
    and i: "slot_of i = slot" "id_generation (decode_order_id i) = generation p1 ! slot"
      "unat (id_sequence (decode_order_id i)) = Suc n" and ord: "o_internal_id ord = i"
  shows "ids_ok (pool_put slot ord p1) (Suc n) (insert i K)"
proof -
  note a = acquire_cases [OF inv acq]
  have len: "length (allocated p) = capacity p" using inv by (simp add: pool_inv_def)
  have sl: "slot_live p1 t \<longleftrightarrow> slot_live p t \<or> t = slot" "\<not> slot_live p slot" for t
    using a(2-4,6) len by (auto simp: slot_live_def nth_list_update)
  have at: "pool_at (pool_put slot ord p1) slot = ord"
    "t \<noteq> slot \<Longrightarrow> pool_at (pool_put slot ord p1) t = pool_at p t" for t
    using pool_at_put [OF a(1)] a(2,4) by (simp_all add: pool_at_def a(7))
  have gen: "unat (generation p ! t) + (if slot_live p1 t then 1 else 0) \<le> Suc n" if "t < capacity p" for t
    using ids that sl by (auto simp: ids_ok_def split: if_splits)
  have old: "(if slot_live p1 (slot_of j)
       then id_gen j \<le> unat (generation p ! slot_of j)
         \<and> (id_gen j = unat (generation p ! slot_of j) \<longrightarrow> o_internal_id (pool_at (pool_put slot ord p1) (slot_of j)) = j)
       else id_gen j < unat (generation p ! slot_of j))" if "j \<in> insert i K" "slot_of j < capacity p" for j
  proof (cases "j = i")
    case True
    then show ?thesis using i ord at(1) sl a(5) by (simp add: id_gen_def)
  next
    case False
    with that have j: "(if slot_live p (slot_of j)
         then id_gen j \<le> unat (generation p ! slot_of j)
           \<and> (id_gen j = unat (generation p ! slot_of j) \<longrightarrow> o_internal_id (pool_at p (slot_of j)) = j)
         else id_gen j < unat (generation p ! slot_of j))" using ids by (auto simp: ids_ok_def)
    show ?thesis
    proof (cases "slot_of j = slot")
      case True
      with j sl show ?thesis by auto
    next
      case False
      with j sl at(2) [OF False] show ?thesis by auto
    qed
  qed
  have "unat (id_sequence (decode_order_id j)) \<le> Suc n" if "j \<in> insert i K" for j
    using that i(3) ids by (auto simp: ids_ok_def)
  then show ?thesis using n gen old by (simp add: ids_ok_def a(4,5))
qed

text \<open>Reserving takes the next sequence number, and the id it forms is none of those still held.\<close>

definition orders_sent :: "VenueId \<Rightarrow> 'e OrderManager \<Rightarrow> nat" where
  "orders_sent v s = unat (map_get 0 (om_venue_seq s) v)"

lemma reserve_ids:
  assumes res: "reserve_order req v s = Inr (i, s1)" and inv: "pool_inv (om_pool s)"
    and ids: "ids_ok (om_pool s) (orders_sent v s) K" and n: "Suc (orders_sent v s) < 2 ^ 16"
  shows "ids_ok (om_pool s1) (orders_sent v s1) (insert i K)" and "i \<notin> K"
proof -
  let ?seq = "map_get 0 (om_venue_seq s) v + 1"
  obtain slot p ord where r: "acquire (om_pool s) = Inr (slot, p)"
      "i = encode_order_id v (generation p ! slot) (word_of_nat slot) (ucast ?seq)"
      "fill_in_order req i (om_clock s) (pool_at p slot) = Inr ord"
      "om_pool s1 = pool_put slot ord p" "om_venue_seq s1 = (om_venue_seq s)(v \<mapsto> ?seq)"
    using res unfolding reserve_order_def by (auto simp: Let_def ebind_Inr_iff)
  have ord: "o_internal_id ord = i"
    using r(3) by (auto simp: fill_in_order_def store_int_data_def split: if_splits)
  have seq: "unat ?seq = Suc (orders_sent v s)" using n by (simp add: orders_sent_def unat_word_ariths)
  have "slot < 2 ^ 24" using acquire_cases(2) [OF inv r(1)] inv by (simp add: pool_inv_def)
  then have slot: "slot_of i = slot" by (simp add: r(2) slot_of_encode)
  have sq: "unat (id_sequence (decode_order_id i)) = Suc (orders_sent v s)"
    using seq n by (simp add: r(2) unsigned_ucast_eq unsigned_take_bit_eq take_bit_nat_eq_self)
  have "ids_ok (pool_put slot ord p) (Suc (orders_sent v s)) (insert i K)"
    using ids_acquire [OF ids inv r(1) n slot _ sq ord] by (simp add: r(2))
  moreover have "orders_sent v s1 = Suc (orders_sent v s)" using seq by (simp add: orders_sent_def r(5) map_get_def)
  ultimately show "ids_ok (om_pool s1) (orders_sent v s1) (insert i K)" by (simp add: r(4))
  show "i \<notin> K" using ids_new [OF ids sq] .
qed

text \<open>Everything else leaves the ids alone.\<close>

lemma settles_ids:
  assumes "settles s s'" and "pool_inv (om_pool s)" and "ids_ok (om_pool s) (orders_sent v s) K" and "K' \<subseteq> K"
  shows "ids_ok (om_pool s') (orders_sent v s') K'"
  using assms ids_evolve by (simp add: settles_def orders_sent_def)

end
