(* ===== verification/SimBooks.thy ===== *)
theory SimBooks
  imports SimIds
begin

text \<open>
  What the venue does with the manager's calls: a cancel only schedules its answer, and an order
  taken is booked with exactly the fills it will get, the final one behind the others.
\<close>

section \<open>Cancels at the venue\<close>

text \<open>A cancel schedules its answer and leaves the rest of the venue alone.\<close>

definition noise :: "OrderIdRaw set \<Rightarrow> 'g SimulatedExchange \<Rightarrow> 'g SimulatedExchange \<Rightarrow> bool" where
  "noise K x x' \<longleftrightarrow> sx_working x' = sx_working x \<and> sx_positions x' = sx_positions x \<and> sx_cfg x' = sx_cfg x
     \<and> sx_sink x' = sx_sink x \<and> sx_now x' = sx_now x \<and> (queue_sorted (sx_queue x) \<longrightarrow> queue_sorted (sx_queue x'))
     \<and> set (sx_queue x) \<subseteq> set (sx_queue x')
     \<and> (\<forall>ev \<in> set (sx_queue x'). ev \<in> set (sx_queue x)
          \<or> se_id ev \<in> K \<and> (se_type ev = SimCancelAck \<or> se_type ev = SimCancelReject)
            \<and> se_at ev = sx_now x + sc_ack_latency_ns (sx_cfg x))"

lemma noise_refl [simp]: "noise K x x"
  by (simp add: noise_def)

lemma noise_trans: "noise K x y \<Longrightarrow> noise K y z \<Longrightarrow> noise K x z"
  unfolding noise_def by (metis (no_types, lifting) subset_iff)

lemma schedule_set: "set (sx_queue (schedule ev x)) = insert (ev\<lparr>se_seq := sx_seq_counter x\<rparr>) (set (sx_queue x))"
  using arg_cong [OF schedule_queue(1), of set_mset ev x] by simp

lemma noise_schedule:
  "se_type ev = SimCancelAck \<or> se_type ev = SimCancelReject \<Longrightarrow> se_id ev \<in> K
   \<Longrightarrow> se_at ev = sx_now x + sc_ack_latency_ns (sx_cfg x) \<Longrightarrow> noise K x (schedule ev x)"
  by (auto simp: noise_def schedule_set schedule_queue(2))

lemma noise_cancel: "sim_cancel_order i xid x = (r, x') \<Longrightarrow> i \<in> K \<Longrightarrow> noise K x x'"
  by (auto simp: sim_cancel_order_def Let_def sim_event_def split: if_splits intro!: noise_schedule)

lemma noise_agrees:
  assumes "noise K x x'" and "agrees x s" and "venue_ok x"
  shows "agrees x' s \<and> venue_ok x'"
proof -
  have "fills_for i (sx_queue x') = fills_for i (sx_queue x)" for i
    using assms(1) by (auto simp: noise_def fills_for_def)
  with assms show ?thesis by (auto simp: noise_def agrees_def venue_ok_def)
qed

definition reg_noise :: "OrderIdRaw set \<Rightarrow> 'g SimulatedExchange ExchangeRegistry \<Rightarrow> 'g SimulatedExchange ExchangeRegistry \<Rightarrow> bool" where
  "reg_noise K r r' \<longleftrightarrow> (registry_inv r \<longrightarrow> registry_inv r') \<and> (\<forall>u. case registry_get r u of None \<Rightarrow> registry_get r' u = None
     | Some x \<Rightarrow> (\<exists>x'. registry_get r' u = Some x' \<and> noise K x x'))"

lemma reg_noise_refl [simp]: "reg_noise K r r"
  by (auto simp: reg_noise_def split: option.splits)

lemma reg_noise_trans:
  assumes "reg_noise K r r'" and "reg_noise K r' r''"
  shows "reg_noise K r r''"
  unfolding reg_noise_def
proof (intro conjI allI)
  fix u
  from assms have "case registry_get r u of None \<Rightarrow> registry_get r' u = None
      | Some x \<Rightarrow> (\<exists>x'. registry_get r' u = Some x' \<and> noise K x x')"
    "case registry_get r' u of None \<Rightarrow> registry_get r'' u = None
      | Some x \<Rightarrow> (\<exists>x'. registry_get r'' u = Some x' \<and> noise K x x')" by (simp_all add: reg_noise_def)
  then show "case registry_get r u of None \<Rightarrow> registry_get r'' u = None
      | Some x \<Rightarrow> (\<exists>x'. registry_get r'' u = Some x' \<and> noise K x x')"
    by (auto split: option.splits intro: noise_trans)
qed (use assms in \<open>simp add: reg_noise_def\<close>)

lemma registry_inv_put:
  fixes r :: "'a ExchangeRegistry"
  assumes "registry_get r v = Some x" and "registry_inv r"
  shows "registry_inv (registry_put v y r)"
proof -
  let ?P = "\<lambda>e. e \<noteq> None"
  have count: "length (filter p xs) = length (filter id (map p xs))" for p :: "'a option \<Rightarrow> bool" and xs
    by (induction xs) simp_all
  have "by_venue r ! unat v = Some x" using assms(1) by (simp add: registry_get_def split: if_splits)
  then have "map ?P ((by_venue r)[unat v := Some y]) = map ?P (by_venue r)"
    by (cases "unat v < length (by_venue r)") (simp_all add: map_update list_update_same_conv list_update_beyond)
  then have "length (filter ?P ((by_venue r)[unat v := Some y])) = length (filter ?P (by_venue r))"
    using count [of ?P] by metis
  with assms(2) show ?thesis by (simp add: registry_inv_def registry_put_def)
qed

lemma reg_noise_put:
  assumes "registry_get r v = Some x" and "noise K x x'"
  shows "reg_noise K r (registry_put v x' r)"
  unfolding reg_noise_def
proof (intro conjI allI)
  fix u
  show "case registry_get r u of None \<Rightarrow> registry_get (registry_put v x' r) u = None
      | Some x \<Rightarrow> (\<exists>y. registry_get (registry_put v x' r) u = Some y \<and> noise K x y)"
    using assms registry_get_put_same [OF assms(1), of x'] registry_get_put_other [of v u x' r]
    by (cases "v = u") (simp_all split: option.splits)
qed (use registry_inv_put [OF assms(1)] in blast)

lemma call_cancel_noise:
  assumes "call_cancel (sim_client draw) i ex s = (r, t)" and "registry_get (om_registry s) (venue_of i) = Some ex"
    and "i \<in> K"
  shows "reg_noise K (om_registry s) (om_registry t) \<and> om_trade_ids t = om_trade_ids s"
proof -
  obtain ex' where "sim_cancel_order i (o_exchange_id (order_ref s i)) ex = (r, ex')"
      "t = s\<lparr>om_registry := registry_put (venue_of i) ex' (om_registry s)\<rparr>"
    using assms(1) by (auto simp: call_cancel_def sim_client_def split: prod.splits)
  then show ?thesis using reg_noise_put [OF assms(2) noise_cancel [OF _ assms(3)]] by auto
qed

lemma mark_cancel_quiet [simp]:
  "om_registry (mark_cancel_sent i s) = om_registry s" "om_trade_ids (mark_cancel_sent i s) = om_trade_ids s"
  by (simp_all add: mark_cancel_sent_def put_order_def)

lemma cancel_noise:
  assumes can: "cancel (sim_client draw) i s = (b, t)" and inv: "om_inv s" and gen: "genuine s i"
  shows "reg_noise (om_live s) (om_registry s) (om_registry t) \<and> om_trade_ids t = om_trade_ids s"
proof (cases "is_current i (om_pool s) \<and> \<not> is_terminal (o_status (order_ref s i))")
  case True
  then have "i \<in> om_live s" using live_iff [OF inv gen] by simp
  with True can show ?thesis unfolding cancel_def
    by (auto simp del: append.simps split: if_splits option.splits prod.splits dest: call_cancel_noise)
next
  case False
  with can show ?thesis by (auto simp: cancel_def simp del: append.simps split: if_splits)
qed

lemma cancel_working_noise:
  fixes s :: "'g SimulatedExchange OrderManager"
  assumes inv: "om_inv s"
  shows "reg_noise (om_live s) (om_registry s) (om_registry (cancel_working_orders (sim_client draw) s))
   \<and> om_trade_ids (cancel_working_orders (sim_client draw) s) = om_trade_ids s"
  unfolding cancel_working_orders_def
proof (rule foldl_preserves [where P = "\<lambda>t. reg_noise (om_live s) (om_registry s) (om_registry t) \<and> om_trade_ids t = om_trade_ids s"])
  fix t :: "'g SimulatedExchange OrderManager" and i
  assume "i \<in> set (om_live_iter s (om_live s))"
  then have i: "i \<in> om_live s" by (simp add: om_inv_iter [OF inv])
  assume t: "reg_noise (om_live s) (om_registry s) (om_registry t) \<and> om_trade_ids t = om_trade_ids s"
  have "reg_noise (om_live s) (om_registry t) (om_registry (cancel_working_one (sim_client draw) t i))
      \<and> om_trade_ids (cancel_working_one (sim_client draw) t i) = om_trade_ids t"
    using i by (auto simp: cancel_working_one_def Let_def split: option.splits prod.splits dest: call_cancel_noise)
  with t show "reg_noise (om_live s) (om_registry s) (om_registry (cancel_working_one (sim_client draw) t i))
      \<and> om_trade_ids (cancel_working_one (sim_client draw) t i) = om_trade_ids s"
    using reg_noise_trans by metis
qed simp

lemma ack_timeout_one_noise:
  fixes s :: "'g SimulatedExchange OrderManager"
  assumes "ack_timeout_one (sim_client draw) now timeout s i = Inr t" and i: "i \<in> K"
  shows "reg_noise K (om_registry s) (om_registry t)"
  using assms(1)
proof (cases rule: ack_timeout_one_effect)
  case (3 s3 ex r s4)
  with call_cancel_noise [OF 3(4) _ i] show ?thesis by auto
qed simp_all

lemma ack_timeouts_noise:
  assumes chk: "check_ack_timeouts (sim_client draw) now timeout s = Inr t" and inv: "om_inv s"
  shows "reg_noise (om_live s) (om_registry s) (om_registry t)"
proof -
  have "ack_timeout_loop (sim_client draw) now timeout ids s = Inr t \<Longrightarrow> set ids \<subseteq> K
      \<Longrightarrow> reg_noise K (om_registry s) (om_registry t)" for ids K
    by (induction ids arbitrary: s)
      (auto simp: ebind_Inr_iff dest: ack_timeout_one_noise intro: reg_noise_trans)
  from this [of "om_live_iter s (om_live s)"] chk show ?thesis
    by (simp add: check_ack_timeouts_def om_inv_iter [OF inv])
qed

section \<open>Orders at the venue\<close>

text \<open>When the leg \<open>i\<close> of an order is due; later legs are not due earlier.\<close>

definition leg_at :: "'g SimulatedExchange \<Rightarrow> int \<Rightarrow> Timestamp" where
  "leg_at x i = (if sc_reorder_fill_before_ack (sx_cfg x) \<and> i = 0
     then sx_now x + sc_ack_latency_ns (sx_cfg x) - 1
     else sx_now x + sc_fill_latency_ns (sx_cfg x) + i * sc_fill_gap_ns (sx_cfg x))"

lemma leg_at_next: "timing_ok (sx_cfg x) \<Longrightarrow> 0 \<le> i \<Longrightarrow> leg_at x i \<le> leg_at x (i + 1)"
  by (auto simp: timing_ok_def leg_at_def algebra_simps)

lemma final_last_cons:
  assumes "final_last {} F" and new: "\<And>ev. ev \<in> N \<Longrightarrow> \<not> se_final ev \<and> se_trade ev = trade"
    and first: "ev0 \<in> N" "\<And>ev. ev \<in> F \<Longrightarrow> event_key ev0 < event_key ev"
  shows "final_last {} (N \<union> F)"
  unfolding final_last_def
proof (intro ballI impI)
  fix ev ev' assume e: "ev \<in> N \<union> F" "ev' \<in> N \<union> F"
    "se_final ev \<and> se_trade ev \<notin> {} \<and> se_trade ev' \<notin> {} \<and> se_trade ev' \<noteq> se_trade ev"
  then have ev: "ev \<in> F" using new by blast
  show "\<exists>ev'' \<in> N \<union> F. se_trade ev'' = se_trade ev' \<and> event_key ev'' < event_key ev"
  proof (cases "ev' \<in> N")
    case True
    then show ?thesis using new [OF True] new [OF first(1)] first(2) [OF ev] first(1) by auto
  next
    case False
    then show ?thesis using assms(1) ev e unfolding final_last_def by blast
  qed
qed

lemma schedule_fills_order:
  assumes "timing_ok (sx_cfg x)" and "confirm_at = sx_now x + sc_ack_latency_ns (sx_cfg x)"
    and "unat (sx_seq_counter x) + 2 * k < 2 ^ 64" and "0 \<le> i"
  shows "\<exists>new. mset (sx_queue (schedule_fills draw oid whole price base confirm_at k i assigned x))
        = mset (sx_queue x) + mset new
    \<and> (\<forall>ev \<in> set new. leg_at x i \<le> se_at ev \<and> unat (sx_seq_counter x) \<le> unat (se_seq ev))
    \<and> final_last {} (set new)"
  using assms
proof (induction k arbitrary: i assigned x)
  case 0
  then show ?case by (intro exI [of _ "[]"]) (simp add: final_last_def)
next
  case (Suc k)
  define q where "q = (if k = 0 then whole - assigned else base)"
  have mono: "leg_at x i \<le> leg_at x (i + 1)" using Suc.prems by (simp add: leg_at_next)
  show ?case
  proof (cases "q \<le> 0")
    case True
    then have "schedule_fills draw oid whole price base confirm_at (Suc k) i assigned x
        = schedule_fills draw oid whole price base confirm_at k (i + 1) (assigned + q) x"
      by (simp add: q_def Let_def)
    with Suc.IH [of x "i + 1" "assigned + q"] Suc.prems mono show ?thesis by fastforce
  next
    case False
    define t where "t = (if sc_reorder_fill_before_ack (sx_cfg x) \<and> i = 0 then confirm_at - 1
                    else sx_now x + sc_fill_latency_ns (sx_cfg x) + i * sc_fill_gap_ns (sx_cfg x))"
    have t: "t = leg_at x i" using Suc.prems(2) by (simp add: t_def leg_at_def)
    define ev where "ev = (sim_event t SimFill oid)\<lparr>se_qty := q, se_price := price,
        se_trade := sx_trade_counter x + 1, se_final := (k = 0)\<rparr>"
    define x1 where "x1 = schedule ev (x\<lparr>sx_trade_counter := sx_trade_counter x + 1\<rparr>)"
    obtain dup x2 where d: "sim_draw draw (sc_duplicate_fill_prob (sx_cfg x1)) x1 = (dup, x2)"
      by (cases "sim_draw draw (sc_duplicate_fill_prob (sx_cfg x1)) x1")
    define x3 where "x3 = (if dup then schedule (ev\<lparr>se_at := t + 1\<rparr>) x2 else x2)"
    have eq: "schedule_fills draw oid whole price base confirm_at (Suc k) i assigned x
        = schedule_fills draw oid whole price base confirm_at k (i + 1) (assigned + q) x3"
      using False d unfolding schedule_fills.simps Let_def q_def [symmetric] t_def [symmetric]
      by (simp add: ev_def [symmetric] x1_def [symmetric] del: schedule_fields) (simp add: x3_def)
    note f = sim_draw_fields [OF d]
    have seq: "sx_seq_counter x2 = sx_seq_counter x + 1" "unat (sx_seq_counter x + 1) = Suc (unat (sx_seq_counter x))"
      using f Suc.prems(3) by (simp_all add: x1_def schedule_def unat_word_ariths)
    have seq3: "Suc (unat (sx_seq_counter x)) \<le> unat (sx_seq_counter x3)"
      "unat (sx_seq_counter x3) \<le> unat (sx_seq_counter x) + 2"
      using seq Suc.prems(3) by (auto simp: x3_def schedule_def unat_word_ariths)
    have x3: "sx_cfg x3 = sx_cfg x" "sx_now x3 = sx_now x" "leg_at x3 j = leg_at x j" for j
      using f by (simp_all add: x3_def x1_def leg_at_def)
    define here where "here = ev\<lparr>se_seq := sx_seq_counter x\<rparr> #
        (if dup then [ev\<lparr>se_at := t + 1, se_seq := sx_seq_counter x2\<rparr>] else [])"
    have q3: "mset (sx_queue x3) = mset (sx_queue x) + mset here"
      using f by (simp add: x3_def x1_def schedule_queue(1) here_def)
    obtain new where n: "mset (sx_queue (schedule_fills draw oid whole price base confirm_at k (i + 1) (assigned + q) x3))
        = mset (sx_queue x3) + mset new"
      "\<forall>ev \<in> set new. leg_at x (i + 1) \<le> se_at ev \<and> unat (sx_seq_counter x3) \<le> unat (se_seq ev)"
      "final_last {} (set new)"
      using Suc.IH [of x3 "i + 1" "assigned + q"] Suc.prems x3 seq3(2) by auto
    have at: "se_at ev = leg_at x i" by (simp add: ev_def sim_event_def t)
    have bounds: "leg_at x i \<le> se_at e \<and> unat (sx_seq_counter x) \<le> unat (se_seq e)" if "e \<in> set (here @ new)" for e
      using that n(2) mono seq seq3(1) at t by (fastforce simp: here_def split: if_splits)
    have fin: "final_last {} (set (here @ new))"
    proof (cases "k = 0")
      case True
      then have "mset new = {#}" using n(1) by simp
      then show ?thesis by (auto simp: final_last_def here_def ev_def split: if_splits)
    next
      case more: False
      have "event_key (ev\<lparr>se_seq := sx_seq_counter x\<rparr>) < event_key e" if "e \<in> set new" for e
        using n(2) that mono seq3(1) at by (force simp: event_key_def less_prod_def word_less_nat_alt)
      moreover have "\<not> se_final e \<and> se_trade e = se_trade ev" if "e \<in> set here" for e
        using that more by (auto simp: here_def ev_def split: if_splits)
      moreover have "ev\<lparr>se_seq := sx_seq_counter x\<rparr> \<in> set here" by (simp add: here_def)
      ultimately show ?thesis using final_last_cons [OF n(3), of "set here"] by simp
    qed
    show ?thesis unfolding eq n(1) q3 using bounds fin
      by (intro exI [of _ "here @ new"] conjI ballI) (simp_all only: mset_append ac_simps set_append)
  qed
qed

text \<open>
  How far ahead of its clock the venue schedules: a cancel's answer, an unsolicited cancel, the last
  leg of an order and the duplicate of it.
\<close>

definition horizon :: "SimConfig \<Rightarrow> Timestamp" where
  "horizon cfg = max (sc_ack_latency_ns cfg) (max (sc_ack_latency_ns cfg + sc_fill_latency_ns cfg)
     (sc_fill_latency_ns cfg + (max 1 (sc_partial_chunks cfg) - 1) * sc_fill_gap_ns cfg + 1))"

lemma leg_at_horizon:
  assumes "timing_ok (sx_cfg x)" and "0 \<le> i" and "i < max 1 (sc_partial_chunks (sx_cfg x))"
  shows "leg_at x i + 1 \<le> sx_now x + horizon (sx_cfg x)"
proof -
  define last where "last = (max 1 (sc_partial_chunks (sx_cfg x)) - 1) * sc_fill_gap_ns (sx_cfg x)"
  have "i * sc_fill_gap_ns (sx_cfg x) \<le> last"
    using assms unfolding last_def by (intro mult_right_mono) (simp_all add: timing_ok_def)
  then show ?thesis unfolding leg_at_def horizon_def last_def [symmetric] by (auto simp: le_max_iff_disj)
qed

lemma schedule_fills_soon:
  assumes "\<And>j. i \<le> j \<Longrightarrow> j < i + int k \<Longrightarrow> leg_at x j + 1 \<le> b"
    and "confirm_at = sx_now x + sc_ack_latency_ns (sx_cfg x)"
    and "ev \<in> set (sx_queue (schedule_fills draw oid whole price base confirm_at k i assigned x))"
  shows "ev \<in> set (sx_queue x) \<or> se_at ev \<le> b"
  using assms
proof (induction k arbitrary: i assigned x)
  case (Suc k)
  define q where "q = (if k = 0 then whole - assigned else base)"
  show ?case
  proof (cases "q \<le> 0")
    case True
    then have "schedule_fills draw oid whole price base confirm_at (Suc k) i assigned x
        = schedule_fills draw oid whole price base confirm_at k (i + 1) (assigned + q) x"
      by (simp add: q_def Let_def)
    with Suc.IH [of "i + 1" x "assigned + q"] Suc.prems show ?thesis by simp
  next
    case False
    define t where "t = (if sc_reorder_fill_before_ack (sx_cfg x) \<and> i = 0 then confirm_at - 1
                    else sx_now x + sc_fill_latency_ns (sx_cfg x) + i * sc_fill_gap_ns (sx_cfg x))"
    have t: "t + 1 \<le> b" using Suc.prems(1) [of i] Suc.prems(2) by (auto simp: t_def leg_at_def split: if_splits)
    define fe where "fe = (sim_event t SimFill oid)\<lparr>se_qty := q, se_price := price,
        se_trade := sx_trade_counter x + 1, se_final := (k = 0)\<rparr>"
    define x1 where "x1 = schedule fe (x\<lparr>sx_trade_counter := sx_trade_counter x + 1\<rparr>)"
    obtain dup x2 where d: "sim_draw draw (sc_duplicate_fill_prob (sx_cfg x1)) x1 = (dup, x2)"
      by (cases "sim_draw draw (sc_duplicate_fill_prob (sx_cfg x1)) x1")
    define x3 where "x3 = (if dup then schedule (fe\<lparr>se_at := t + 1\<rparr>) x2 else x2)"
    note f = sim_draw_fields [OF d]
    have eq: "schedule_fills draw oid whole price base confirm_at (Suc k) i assigned x
        = schedule_fills draw oid whole price base confirm_at k (i + 1) (assigned + q) x3"
      using False d unfolding schedule_fills.simps Let_def q_def [symmetric] t_def [symmetric]
      by (simp add: fe_def [symmetric] x1_def [symmetric] del: schedule_fields) (simp add: x3_def)
    have x3: "sx_cfg x3 = sx_cfg x" "sx_now x3 = sx_now x" "leg_at x3 j = leg_at x j" for j
      using f by (simp_all add: x3_def x1_def leg_at_def)
    have "ev \<in> set (sx_queue x3) \<or> se_at ev \<le> b"
      using Suc.IH [of "i + 1" x3 "assigned + q"] Suc.prems x3 unfolding eq by simp
    moreover have "ev \<in> set (sx_queue x) \<or> se_at ev \<le> t + 1" if "ev \<in> set (sx_queue x3)"
      using that f by (auto simp: x3_def x1_def schedule_set fe_def sim_event_def split: if_splits)
    ultimately show ?thesis using t by auto
  qed
qed simp

text \<open>Counters far from their 64-bit wrap.\<close>

definition counters_ok :: "'g SimulatedExchange \<Rightarrow> bool" where
  "counters_ok x \<longleftrightarrow> (let n = nat (max 1 (sc_partial_chunks (sx_cfg x)))
     in unat (sx_trade_counter x) + n < 2 ^ 64 \<and> unat (sx_seq_counter x) + 2 * n + 2 < 2 ^ 64)"

definition venue_knows :: "'g SimulatedExchange \<Rightarrow> OrderIdRaw \<Rightarrow> bool" where
  "venue_knows x i \<longleftrightarrow> sx_working x i \<noteq> None \<or> (\<exists>ev \<in> set (sx_queue x). se_id ev = i)"

lemma schedule_fills_frame:
  "sx_working (schedule_fills draw oid whole price base c k i a x) = sx_working x
   \<and> sx_positions (schedule_fills draw oid whole price base c k i a x) = sx_positions x
   \<and> sx_cfg (schedule_fills draw oid whole price base c k i a x) = sx_cfg x
   \<and> sx_sink (schedule_fills draw oid whole price base c k i a x) = sx_sink x
   \<and> sx_now (schedule_fills draw oid whole price base c k i a x) = sx_now x
   \<and> (queue_sorted (sx_queue x) \<longrightarrow> queue_sorted (sx_queue (schedule_fills draw oid whole price base c k i a x)))"
proof (induction k arbitrary: i a x)
  case (Suc k)
  then show ?case
    by (auto simp: Let_def sim_draw_def schedule_queue(2) split: prod.splits)
qed simp

text \<open>What the venue owes an order it has just booked.\<close>

definition deadly :: "SimEvent \<Rightarrow> bool" where
  "deadly ev \<longleftrightarrow> se_type ev = SimReject \<or> se_type ev = SimUnsolicited \<or> se_type ev = SimCancelAck"

definition booked :: "Order \<Rightarrow> 'g SimulatedExchange \<Rightarrow> 'g SimulatedExchange \<Rightarrow> bool" where
  "booked ord x x' \<longleftrightarrow> venue_ok x' \<and> sx_positions x' = sx_positions x
     \<and> sx_now x' = sx_now x \<and> sx_cfg x' = sx_cfg x \<and> set (sx_queue x) \<subseteq> set (sx_queue x')
     \<and> (\<forall>ev \<in> set (sx_queue x'). ev \<in> set (sx_queue x)
          \<or> se_id ev = o_internal_id ord \<and> se_at ev \<le> sx_now x + horizon (sx_cfg x))
     \<and> (0 < o_size ord \<longrightarrow> (\<exists>ev \<in> set (sx_queue x'). se_id ev = o_internal_id ord \<and> deadly ev)
          \<or> fills_for (o_internal_id ord) (sx_queue x') \<noteq> {})
     \<and> (\<forall>j. j \<noteq> o_internal_id ord \<longrightarrow> sx_working x' j = sx_working x j
          \<and> fills_for j (sx_queue x') = fills_for j (sx_queue x))
     \<and> (\<exists>w. sx_working x' (o_internal_id ord) = Some w
          \<and> tracks w (ord\<lparr>o_filled_size := 0\<rparr>) {} (fills_for (o_internal_id ord) (sx_queue x')))"

lemma fills_for_schedule:
  "fills_for i (sx_queue (schedule ev x)) = fills_for i (sx_queue x)
     \<union> (if se_type ev = SimFill \<and> se_id ev = i then {ev\<lparr>se_seq := sx_seq_counter x\<rparr>} else {})"
  by (auto simp: fills_for_def schedule_set)

lemma legs_ok_none: "legs_ok {} {} rem"
  by (simp add: legs_ok_def legs_left_def final_last_def)

lemma place_books:
  assumes ok: "venue_ok x" and cnt: "counters_ok x" and size: "0 \<le> o_size ord" and price: "0 < o_limit_price ord"
    and fresh: "\<not> venue_knows x (o_internal_id ord)" and place: "sim_place_order draw ord x = (res, x')"
  shows "res = TransportDown \<and> x' = x \<or> res = SendOk \<and> booked ord x x'"
proof (cases "sx_connected x")
  case False
  with place show ?thesis by (simp add: sim_place_order_def)
next
  case True
  let ?i = "o_internal_id ord"
  define x1 where "x1 = sim_book_order ord x"
  have res: "res = SendOk" "x' = sim_schedule_order draw ord x1"
    using place True by (auto simp: sim_place_order_def x1_def)
  obtain w where w: "sx_working x1 = (sx_working x)(?i \<mapsto> w)"
      "wk_alive w" "wk_instrument w = o_instrument ord" "wk_side w = o_side ord" "wk_remaining w = o_size ord"
      "wk_seen_trades w = {}"
    by (simp add: x1_def sim_book_order_def Let_def)
  have x1: "sx_queue x1 = sx_queue x" "sx_cfg x1 = sx_cfg x" "sx_trade_counter x1 = sx_trade_counter x"
      "sx_seq_counter x1 = sx_seq_counter x" "sx_now x1 = sx_now x" "sx_positions x1 = sx_positions x"
      "sx_sink x1 = sx_sink x" by (simp_all add: x1_def sim_book_order_def Let_def)
  have none: "fills_for ?i (sx_queue x) = {}" using fresh by (auto simp: venue_knows_def fills_for_def)
  have enough: "booked ord x x'"
    if "venue_ok x'" "sx_positions x' = sx_positions x" "sx_working x' = sx_working x1"
      "\<And>j. j \<noteq> ?i \<Longrightarrow> fills_for j (sx_queue x') = fills_for j (sx_queue x)"
      "legs_ok (fills_for ?i (sx_queue x')) {} (o_size ord)"
      "\<forall>ev \<in> set (sx_queue x'). ev \<in> set (sx_queue x) \<or> se_id ev = ?i \<and> se_at ev \<le> sx_now x + horizon (sx_cfg x)"
      "sx_now x' = sx_now x \<and> sx_cfg x' = sx_cfg x \<and> set (sx_queue x) \<subseteq> set (sx_queue x')"
      "0 < o_size ord \<Longrightarrow> (\<exists>ev \<in> set (sx_queue x'). se_id ev = ?i \<and> deadly ev) \<or> fills_for ?i (sx_queue x') \<noteq> {}"
    using that w by (simp add: booked_def tracks_def remaining_def)
  show ?thesis
  proof (cases rule: sim_schedule_order_cases [where draw = draw and ord = ord and x = x1, unfolded x1])
    case (1 g)
    have "booked ord x x'"
      by (rule enough) (use ok x1 none legs_ok_none in
          \<open>auto simp: res(2) 1 fills_for_schedule sim_event_def venue_ok_def schedule_set schedule_queue(2) horizon_def deadly_def\<close>)
    with res(1) show ?thesis by simp
  next
    case (2 g g')
    have "booked ord x x'"
      by (rule enough) (use ok x1 none legs_ok_none in
          \<open>auto simp: res(2) 2 fills_for_schedule sim_event_def venue_ok_def schedule_set schedule_queue(2) horizon_def deadly_def\<close>)
    with res(1) show ?thesis by simp
  next
    case (3 g g')
    let ?confirm = "sx_now x + sc_ack_latency_ns (sx_cfg x)" and ?n = "max 1 (sc_partial_chunks (sx_cfg x))"
    define x4 where "x4 = (schedule (sim_event ?confirm SimConfirm ?i) (x1\<lparr>sx_rng := g\<rparr>))\<lparr>sx_rng := g'\<rparr>"
    note x' = res(2) [unfolded 3, folded x4_def]
    have x4: "sx_cfg x4 = sx_cfg x" "sx_now x4 = sx_now x" "sx_trade_counter x4 = sx_trade_counter x"
        "sx_seq_counter x4 = sx_seq_counter x + 1" "sx_working x4 = sx_working x1" "sx_positions x4 = sx_positions x"
        "sx_sink x4 = sx_sink x" "queue_sorted (sx_queue x4)"
      using x1 ok by (simp_all add: x4_def venue_ok_def schedule_queue(2)) (simp add: schedule_def)
    have q4: "fills_for j (sx_queue x4) = fills_for j (sx_queue x)"
      "ev \<in> set (sx_queue x4) \<Longrightarrow> se_type ev = SimReject \<Longrightarrow> ev \<in> set (sx_queue x)"
      "ev \<in> set (sx_queue x4) \<Longrightarrow> ev \<in> set (sx_queue x) \<or> se_id ev = ?i \<and> se_at ev \<le> sx_now x + horizon (sx_cfg x)"
      "set (sx_queue x) \<subseteq> set (sx_queue x4)" for j ev
      using x1 by (auto simp: x4_def fills_for_schedule schedule_set sim_event_def horizon_def)
    have seq: "unat (sx_seq_counter x4) + 2 * nat ?n < 2 ^ 64" "unat (sx_trade_counter x4) + nat ?n < 2 ^ 64"
      using cnt x4 by (auto simp: counters_ok_def Let_def unat_word_ariths)
    have timing: "timing_ok (sx_cfg x4)" "?confirm = sx_now x4 + sc_ack_latency_ns (sx_cfg x4)"
      using ok x4 by (simp_all add: venue_ok_def)
    obtain fills where f: "mset (sx_queue x') = mset (sx_queue x4) + mset fills"
      "fills_of ?i (o_limit_price ord) (unat (sx_trade_counter x4)) (unat (sx_trade_counter x4) + nat ?n) (o_size ord) fills"
      using schedule_fills_ok [of x4 "nat ?n" "tdiv (o_size ord) ?n" "o_size ord" 0 draw ?i
          "o_limit_price ord" ?confirm 0] chunk_base_ok [OF size, of ?n] seq(2) x'
      by (force simp del: max_def)
    obtain new where n: "mset (sx_queue x') = mset (sx_queue x4) + mset new" "final_last {} (set new)"
      using schedule_fills_order [OF timing seq(1) order_refl, where draw = draw and oid = "?i" and whole = "o_size ord"
          and price = "o_limit_price ord" and base = "tdiv (o_size ord) ?n" and assigned = 0] unfolding x' by blast
    have "mset new = mset fills" using f(1) n(1) by simp
    then have final: "final_last {} (set fills)" using n(2) mset_eq_setD by metis
    have set: "set (sx_queue x') = set (sx_queue x4) \<union> set fills" using f(1) by (metis mset_append set_append set_mset_mset)
    have fillev: "se_type ev = SimFill \<and> se_id ev = ?i" if "ev \<in> set fills" for ev
      using f(2) that by (simp add: fills_of_def)
    have "booked ord x x'"
    proof (rule enough)
      show "venue_ok x'"
        using schedule_fills_frame [of draw ?i] x' x4 ok q4(2) set fillev by (auto simp: venue_ok_def)
      show "sx_positions x' = sx_positions x" "sx_working x' = sx_working x1"
        using schedule_fills_frame [of draw ?i] x' x4 by simp_all
      show "fills_for j (sx_queue x') = fills_for j (sx_queue x)" if "j \<noteq> ?i" for j
        using q4(1) [of j] set fillev that by (auto simp: fills_for_def)
      have legs: "leg_at x4 j + 1 \<le> sx_now x + horizon (sx_cfg x)" if "0 \<le> j" "j < 0 + int (nat ?n)" for j
        using leg_at_horizon [OF timing(1) that(1)] that x4(1,2) by (auto split: if_splits)
      have "ev \<in> set (sx_queue x4) \<or> se_at ev \<le> sx_now x + horizon (sx_cfg x)" if "ev \<in> set (sx_queue x')" for ev
        by (rule schedule_fills_soon [OF legs timing(2) that [unfolded x']])
      then show "\<forall>ev \<in> set (sx_queue x'). ev \<in> set (sx_queue x) \<or> se_id ev = ?i \<and> se_at ev \<le> sx_now x + horizon (sx_cfg x)"
        using q4(3) set fillev by fastforce
      show "sx_now x' = sx_now x \<and> sx_cfg x' = sx_cfg x \<and> set (sx_queue x) \<subseteq> set (sx_queue x')"
        using schedule_fills_frame [of draw ?i] x' x4 q4(4) set by auto
      show "(\<exists>ev \<in> set (sx_queue x'). se_id ev = ?i \<and> deadly ev) \<or> fills_for ?i (sx_queue x') \<noteq> {}" if "0 < o_size ord"
      proof -
        have "set fills \<noteq> {}" using f(2) that by (auto simp: fills_of_def legs_def)
        then obtain ev where "ev \<in> set fills" using ex_in_conv by metis
        then have "ev \<in> fills_for ?i (sx_queue x')" using set fillev by (simp add: fills_for_def)
        then show ?thesis by blast
      qed
      have "fills_for ?i (sx_queue x') = set fills" using q4(1) [of ?i] none set fillev by (auto simp: fills_for_def)
      moreover have "legs_left {} (set fills) = legs fills" by (simp add: legs_left_def legs_def)
      ultimately show "legs_ok (fills_for ?i (sx_queue x')) {} (o_size ord)"
        using f(2) final price by (simp add: legs_ok_def fills_of_def)
    qed
    with res(1) show ?thesis by simp
  qed
qed

end
