(* ===== verification/SimWorld.thy ===== *)
theory SimWorld
  imports SimBooks
begin

text \<open>
  The order manager and the simulated exchange together, one venue: the manager calls the venue
  through the client interface, the venue delivers its due events one by one to the manager's
  handlers. In every run the venue's positions are the manager's net positions, whatever the venue
  draws: rejects, unsolicited cancels, duplicates, a fill ahead of its confirm, cancels that race
  fills. Drift comes from elsewhere.
\<close>

section \<open>Every live order has its end on the way\<close>

text \<open>
  What ends an order with a remainder is queued: a reject, a cancel, or the rest of its fills. (An
  order of size zero has nothing left, and nothing ends it.)
\<close>

definition ending :: "'g SimulatedExchange \<Rightarrow> 'e OrderManager \<Rightarrow> bool" where
  "ending x s \<longleftrightarrow> (\<forall>i \<in> om_live s. 0 < remaining (order_ref s i)
     \<longrightarrow> (\<exists>ev \<in> set (sx_queue x). se_id ev = i \<and> deadly ev)
     \<or> legs_left (map_get {} (om_trade_ids s) i) (fills_for i (sx_queue x)) \<noteq> {})"

definition soon :: "'g SimulatedExchange \<Rightarrow> bool" where
  "soon x \<longleftrightarrow> (\<forall>ev \<in> set (sx_queue x). se_at ev \<le> sx_now x + horizon (sx_cfg x))"

lemma ending_undisturbed: "ending x s \<Longrightarrow> undisturbed s s' \<Longrightarrow> ending x s'"
  by (simp add: ending_def undisturbed_def map_get_def econ_def remaining_def)

lemma ending_noise:
  assumes "noise K x x'" and "ending x s"
  shows "ending x' s"
proof -
  have "fills_for i (sx_queue x') = fills_for i (sx_queue x)" for i
    using assms(1) by (auto simp: noise_def fills_for_def)
  with assms show ?thesis by (fastforce simp: ending_def noise_def)
qed

lemma soon_noise:
  assumes "noise K x x'" and "soon x"
  shows "soon x'"
  unfolding soon_def
proof
  fix ev assume "ev \<in> set (sx_queue x')"
  with assms(1) have "ev \<in> set (sx_queue x) \<or> se_at ev = sx_now x + sc_ack_latency_ns (sx_cfg x)"
    by (auto simp: noise_def)
  moreover have "sc_ack_latency_ns (sx_cfg x) \<le> horizon (sx_cfg x)" by (simp add: horizon_def)
  ultimately show "se_at ev \<le> sx_now x' + horizon (sx_cfg x')"
    using assms by (auto simp: noise_def soon_def)
qed

section \<open>Submitting\<close>

lemma undisturbed_trans: "undisturbed s t \<Longrightarrow> undisturbed t u \<Longrightarrow> undisturbed s u"
  by (simp add: undisturbed_def)

lemma place_reserved_own:
  assumes "place_reserved ops req venue ex i s = Inr (j, s')" and "k \<noteq> i"
  shows "om_trade_ids s' k = om_trade_ids s k"
  using assms unfolding place_reserved_def Let_def
  by (auto simp: ebind_Inr_iff own_trades_def put_order_def om_log_line_def simp del: append.simps
      split: prod.splits if_splits dest!: retire_own with_health_own [where i = i])

text \<open>A placed order joins the agreement; a refused one leaves it as it was.\<close>

lemma placed_agrees:
  assumes inv: "om_inv s" and ag: "agrees x s" and ok: "venue_ok x" and cnt: "counters_ok x"
    and req: "valid_request req" "0 < rq_price req" and room: "\<not> pool_full (om_pool s)"
    and ven: "v \<in> hm_registered (om_health s)" and res: "reserve_order req v s = Inr (i, s1)"
    and fresh: "\<not> venue_knows x i"
    and call: "sim_place_order draw (order_ref s1 i) x = (r, x')"
    and pl: "place_reserved (sim_client draw) req v x i s1 = Inr (j, s')"
  shows "om_inv s' \<and> agrees x' s' \<and> venue_ok x' \<and> om_registry s' = registry_put v x' (om_registry s)
    \<and> (\<forall>k. venue_knows x' k \<longrightarrow> venue_knows x k \<or> k = i)
    \<and> (ending x s \<longrightarrow> ending x' s') \<and> (soon x \<longrightarrow> soon x') \<and> sx_cfg x' = sx_cfg x"
proof (rule reserve_order_ok [OF inv room req(1) ven], goal_cases)
  case (1 i' s1' ord)
  with res have eq: "i' = i" "s1' = s1" by auto
  note b = 1 [unfolded eq]
  have ord: "o_internal_id (order_ref s1 i) = i" "0 \<le> o_size (order_ref s1 i)" "0 < o_limit_price (order_ref s1 i)"
      "(order_ref s1 i)\<lparr>o_filled_size := 0\<rparr> = order_ref s1 i"
    using b(6,7,8,12,27) req by (simp_all add: valid_request_def)
  note books = place_books [OF ok cnt ord(2,3) _ call, unfolded ord(1) booked_def ord(4), OF fresh]
  have fresh_live: "i \<notin> om_live s" using b(3) by simp
  have none: "om_trade_ids s i = None"
    using om_inv_core [OF inv] fresh_live by (auto simp: core_inv_def)
  have old: "tracks w (order_ref s1 k) = tracks w (order_ref s k)" if "k \<in> om_live s" for k w
    using b(24) [of k] that by simp
  have i1: "i \<in> om_live s1" using b(5) by simp
  have call': "ec_place_order (sim_client draw) (order_ref s1 i) x = (r, x')" using call by (simp add: sim_client_def)
  have s1f: "o_size (order_ref s1 i) = rq_size req" "o_filled_size (order_ref s1 i) = 0"
      "o_instrument (order_ref s1 i) = rq_instrument req" "o_side (order_ref s1 i) = rq_side req"
    using b(6-11) by simp_all
  show ?thesis
  proof (cases rule: place_reserved_ok [OF b(2) i1 req(1) s1f b(13) call'])
    case (1 t)
    with pl have t: "t = s'" by simp
    with 1(1) books obtain w where w: "venue_ok x'" "sx_positions x' = sx_positions x" "sx_working x' i = Some w"
        "tracks w (order_ref s1 i) {} (fills_for i (sx_queue x'))"
        "\<And>k. k \<noteq> i \<Longrightarrow> sx_working x' k = sx_working x k \<and> fills_for k (sx_queue x') = fills_for k (sx_queue x)"
        "\<And>ev. ev \<in> set (sx_queue x') \<Longrightarrow> ev \<in> set (sx_queue x) \<or> se_id ev = i \<and> se_at ev \<le> sx_now x + horizon (sx_cfg x)"
        "sx_now x' = sx_now x" "sx_cfg x' = sx_cfg x" "set (sx_queue x) \<subseteq> set (sx_queue x')"
        "0 < o_size (order_ref s1 i) \<Longrightarrow>
           (\<exists>ev \<in> set (sx_queue x'). se_id ev = i \<and> deadly ev) \<or> fills_for i (sx_queue x') \<noteq> {}"
      by auto
    have "agrees x' s'" unfolding agrees_def
    proof (intro conjI allI ballI impI)
      show "pos_net (position s' k) = map_get 0 (sx_positions x') k" for k
        using ag 1(9) b(15) [of k] w(2) t by (simp add: agrees_def position_def)
      show "\<exists>w. sx_working x' k = Some w \<and> tracks w (order_ref s' k) (map_get {} (om_trade_ids s') k) (fills_for k (sx_queue x'))"
        if k: "k \<in> om_live s'" for k
      proof (cases "k = i")
        case True
        have "tracks w (order_ref s' i) = tracks w (order_ref s1 i)" using 1(5) t by (intro tracks_econ) (simp add: econ_def)
        with True w(3,4) 1(11) b(22) none t show ?thesis by (simp add: map_get_def)
      next
        case False
        with k 1(4,6,11) b(5,22) t have "k \<in> om_live s" "order_ref s' k = order_ref s1 k" "om_trade_ids s' = om_trade_ids s"
          by auto
        with ag False w(5) old show ?thesis by (auto simp: agrees_def)
      qed
      show "k \<in> om_live s'" if "sx_working x' k = Some u \<and> wk_alive u" for k u
        using that ag w(5) [of k] 1(4) b(5) t by (cases "k = i") (auto simp: agrees_def)
    qed
    moreover have "ending x' s'" if end_: "ending x s" unfolding ending_def
    proof (intro ballI impI)
      fix k assume k: "k \<in> om_live s'" and left: "0 < remaining (order_ref s' k)"
      show "(\<exists>ev \<in> set (sx_queue x'). se_id ev = k \<and> deadly ev)
          \<or> legs_left (map_get {} (om_trade_ids s') k) (fills_for k (sx_queue x')) \<noteq> {}"
      proof (cases "k = i")
        case True
        have "0 < o_size (order_ref s1 i)" using left 1(5) s1f t by (simp add: True remaining_def)
        moreover have "map_get {} (om_trade_ids s') i = {}" using 1(11) b(22) none t by (simp add: map_get_def)
        ultimately show ?thesis using True w(10) by (auto simp: legs_left_def)
      next
        case False
        with k 1(4,6,11) b(5,22,24) t have "k \<in> om_live s" "order_ref s' k = order_ref s k" "om_trade_ids s' = om_trade_ids s"
          by auto
        with end_ left False w(5) [of k] w(9) show ?thesis unfolding ending_def by (metis subset_iff)
      qed
    qed
    moreover have "soon x'" if "soon x" using that w(6-8) by (fastforce simp: soon_def)
    moreover have "venue_knows x k" if "venue_knows x' k" "k \<noteq> i" for k
      using that w(5) [of k] w(6) by (fastforce simp: venue_knows_def)
    ultimately show ?thesis using 1(3,7) w(1,8) b(16) t by auto
  next
    case (2 t)
    with pl have t: "t = s'" by simp
    have x': "x' = x" using books 2(1) by auto
    have live: "om_live s' = om_live s" using 2(4) b(5) fresh_live t by simp
    have un: "undisturbed s s'" unfolding undisturbed_def
    proof (intro conjI allI ballI)
      show "om_inv s'" "om_live s' = om_live s" using 2(3) live t by simp_all
      show "position s' k = position s k" for k using 2(7) b(15) [of k] t by (simp add: position_def)
      fix k assume k: "k \<in> om_live s"
      then have "k \<noteq> i" using fresh_live by blast
      then show "om_trade_ids s' k = om_trade_ids s k" "econ (order_ref s' k) = econ (order_ref s k)"
        using place_reserved_own [OF pl] 2(9) [of k] b(5,22,24) k t by auto
    qed
    with ag ok 2(3,5) b(16) t x' ending_undisturbed [of x, OF _ un] show ?thesis by (simp add: agrees_undisturbed)
  qed
qed

section \<open>Manager and venue together\<close>

definition venue_get :: "VenueId \<Rightarrow> 'e OrderManager \<Rightarrow> 'e option" where
  "venue_get v s = registry_get (om_registry s) v"

definition venue_put :: "VenueId \<Rightarrow> 'e \<Rightarrow> 'e OrderManager \<Rightarrow> 'e OrderManager" where
  "venue_put v x s = s\<lparr>om_registry := registry_put v x (om_registry s)\<rparr>"

text \<open>
  One step of the pair. Fewer than 65536 orders are sent and the venue's counters are far from
  wrapping; a client cancels with the ids it was given.
\<close>

inductive world_step ::
  "(double \<Rightarrow> 'g \<Rightarrow> bool \<times> 'g) \<Rightarrow> VenueId \<Rightarrow> 'g SimulatedExchange OrderManager
     \<Rightarrow> 'g SimulatedExchange OrderManager \<Rightarrow> bool" for draw v where
  ws_submit: "valid_request req \<Longrightarrow> 0 < rq_price req \<Longrightarrow> Suc (orders_sent v s) < 2 ^ 16
     \<Longrightarrow> (\<And>x. venue_get v s = Some x \<Longrightarrow> counters_ok x)
     \<Longrightarrow> submit (sim_client draw) req s = Inr (j, s') \<Longrightarrow> world_step draw v s s'"
| ws_cancel: "genuine s i \<Longrightarrow> cancel (sim_client draw) i s = (b, s') \<Longrightarrow> world_step draw v s s'"
| ws_timeouts: "check_ack_timeouts (sim_client draw) now timeout s = Inr s' \<Longrightarrow> world_step draw v s s'"
| ws_kill: "world_step draw v s (trip_kill_switch why s)"
| ws_clock: "world_step draw v s (set_om_clock now s)"
| ws_tick: "world_step draw v s (s\<lparr>om_health := health_tick order now (om_health s)\<rparr>)"
| ws_disconnect: "u \<in> hm_registered (om_health s) \<Longrightarrow> on_venue_disconnect u s = Inr s' \<Longrightarrow> world_step draw v s s'"
| ws_reconnect: "u \<in> hm_registered (om_health s) \<Longrightarrow> on_venue_reconnect u s = Inr s' \<Longrightarrow> world_step draw v s s'"
| ws_advance: "venue_get v s = Some x
     \<Longrightarrow> world_step draw v s (venue_put v (x\<lparr>sx_now := sx_now x + sc_step_ns (sx_cfg x)\<rparr>) s)"
| ws_connect: "venue_get v s = Some x \<Longrightarrow> world_step draw v s (venue_put v (sim_set_connected c x) s)"
| ws_deliver: "venue_get v s = Some x \<Longrightarrow> sx_queue x = ev # rest \<Longrightarrow> se_at ev \<le> sx_now x
     \<Longrightarrow> sim_deliver ev (x\<lparr>sx_queue := rest\<rparr>) = ([call], x')
     \<Longrightarrow> sink_call call (venue_put v x' s) = Inr (s', evs) \<Longrightarrow> world_step draw v s s'"

inductive_cases world_stepE: "world_step draw v s s'"

text \<open>
  The manager is well formed, has one venue, agrees with it, and every id the venue holds is still
  the id of the order it was made for, or refers to a slot that has moved on.
\<close>

definition world_ok :: "VenueId \<Rightarrow> 'g SimulatedExchange OrderManager \<Rightarrow> bool" where
  "world_ok v s \<longleftrightarrow> om_inv s \<and> registry_inv (om_registry s) \<and> (\<forall>u. u \<noteq> v \<longrightarrow> venue_get u s = None)
     \<and> (\<exists>x. venue_get v s = Some x \<and> venue_ok x \<and> agrees x s
          \<and> ids_ok (om_pool s) (orders_sent v s) {i. venue_knows x i})"

lemma world_ok_inv: "world_ok v s \<Longrightarrow> om_inv s"
  by (simp add: world_ok_def)

lemma live_known: "agrees x s \<Longrightarrow> i \<in> om_live s \<Longrightarrow> venue_knows x i"
  by (auto simp: agrees_def venue_knows_def)

lemma noise_known: "noise K x x' \<Longrightarrow> (\<And>i. i \<in> K \<Longrightarrow> venue_knows x i) \<Longrightarrow> venue_knows x' i \<Longrightarrow> venue_knows x i"
  unfolding noise_def venue_knows_def by metis

lemma om_inv_pool: "om_inv s \<Longrightarrow> pool_inv (om_pool s)"
  by (simp add: om_inv_def core_inv_def)

lemma quiet_venue_seq [simp]:
  "om_venue_seq (om_log_line l line s) = om_venue_seq s" "om_venue_seq (trip_kill_switch why s) = om_venue_seq s"
  "om_live_iter (trip_kill_switch why s) = om_live_iter s" "om_router (trip_kill_switch why s) = om_router s"
  by (simp_all add: om_log_line_def trip_kill_switch_def)

text \<open>Steps that touch neither the orders nor the positions.\<close>

lemma world_quiet:
  assumes ok: "world_ok v s" and und: "undisturbed s s'" and set: "settles s s'"
    and "reg_noise (om_live s) (om_registry s) (om_registry s')"
  shows "world_ok v s'"
proof -
  obtain x where x: "venue_get v s = Some x" "venue_ok x" "agrees x s"
      "ids_ok (om_pool s) (orders_sent v s) {i. venue_knows x i}" using ok by (auto simp: world_ok_def)
  have r: "case venue_get u s of None \<Rightarrow> venue_get u s' = None
      | Some y \<Rightarrow> \<exists>y'. venue_get u s' = Some y' \<and> noise (om_live s) y y'" for u
    unfolding venue_get_def by (rule spec [OF assms(4) [unfolded reg_noise_def, THEN conjunct2]])
  obtain x' where x': "venue_get v s' = Some x'" "noise (om_live s) x x'" using r [of v] x(1) by auto
  have "agrees x' s' \<and> venue_ok x'"
    by (rule noise_agrees [OF x'(2) agrees_undisturbed [OF x(3) und] x(2)])
  moreover have "ids_ok (om_pool s') (orders_sent v s') {i. venue_knows x' i}"
    using settles_ids [OF set om_inv_pool [OF world_ok_inv [OF ok]] x(4)] noise_known [OF x'(2) live_known [OF x(3)]]
    by blast
  moreover have "venue_get u s' = None" if "u \<noteq> v" for u using r [of u] ok that by (simp add: world_ok_def)
  moreover have "registry_inv (om_registry s')"
    using assms(4) ok by (simp add: reg_noise_def world_ok_def)
  ultimately show ?thesis using x'(1) und by (auto simp: world_ok_def undisturbed_def)
qed

text \<open>A new state of the venue, with the manager that agrees with it.\<close>

lemma venue_put_get:
  "venue_get v s = Some x \<Longrightarrow> venue_get v (venue_put v x' s) = Some x'"
  "u \<noteq> v \<Longrightarrow> venue_get u (venue_put v x' s) = venue_get u s"
  by (simp_all add: venue_get_def venue_put_def registry_get_put_same registry_get_put_other)

lemma venue_put_simps [simp]:
  "om_inv (venue_put v x s) = om_inv s" "agrees y (venue_put v x s) = agrees y s"
  "genuine (venue_put v x s) i = genuine s i" "om_pool (venue_put v x s) = om_pool s"
  "om_venue_seq (venue_put v x s) = om_venue_seq s" "om_live_iter (venue_put v x s) = om_live_iter s"
  "om_router (venue_put v x s) = om_router s" "om_registry (venue_put v x s) = registry_put v x (om_registry s)"
  by (simp_all add: venue_put_def agrees_def position_def order_ref_def genuine_def cong: conj_cong)

lemma world_put:
  assumes "world_ok v s" and "om_registry s' = registry_put v x' (om_registry s)" and "om_inv s'"
    and "agrees x' s'" and "venue_ok x'" and "ids_ok (om_pool s') (orders_sent v s') K" and "{i. venue_knows x' i} \<subseteq> K"
  shows "world_ok v s'"
proof -
  have "venue_get u s' = venue_get u (venue_put v x' s)" for u
    by (simp add: venue_get_def venue_put_def assms(2))
  moreover have "ids_ok (om_pool s') (orders_sent v s') {i. venue_knows x' i}"
    by (rule ids_evolve [OF assms(6) evolves_refl assms(7)])
  moreover have "registry_inv (registry_put v x' (om_registry s))"
    using assms(1) registry_inv_put [of "om_registry s" v _ x'] by (auto simp: world_ok_def venue_get_def)
  ultimately show ?thesis using assms venue_put_get [where v = v and s = s and x' = x'] by (auto simp: world_ok_def)
qed

text \<open>The same manager beside a venue that only moved its clock or its connection.\<close>

lemma world_venue:
  assumes ok: "world_ok v s" and x: "venue_get v s = Some x"
    and "sx_working x' = sx_working x" "sx_positions x' = sx_positions x" "sx_queue x' = sx_queue x"
      "sx_cfg x' = sx_cfg x" "sx_sink x' = sx_sink x"
  shows "world_ok v (venue_put v x' s)"
proof -
  have "venue_ok x" "agrees x s" "ids_ok (om_pool s) (orders_sent v s) {i. venue_knows x i}"
    using ok x by (auto simp: world_ok_def)
  then have "venue_ok x'" "agrees x' s" "ids_ok (om_pool s) (orders_sent v s) {i. venue_knows x' i}"
    using assms(3-) by (simp_all add: agrees_def venue_ok_def venue_knows_def)
  then show ?thesis
    by (intro world_put [OF ok, where x' = x' and K = "{i. venue_knows x' i}"])
      (simp_all add: world_ok_inv [OF ok] orders_sent_def)
qed

section \<open>What a step does\<close>

text \<open>
  A step leaves the economy alone and at most asks for cancels, moves the venue's clock or
  connection, places one order, or delivers one event.
\<close>

definition quiet_step :: "'g SimulatedExchange OrderManager \<Rightarrow> 'g SimulatedExchange OrderManager \<Rightarrow> bool" where
  "quiet_step s s' \<longleftrightarrow> undisturbed s s' \<and> settles s s' \<and> reg_noise (om_live s) (om_registry s) (om_registry s')"

definition place_step ::
  "(double \<Rightarrow> 'g \<Rightarrow> bool \<times> 'g) \<Rightarrow> VenueId \<Rightarrow> OrderRequest \<Rightarrow> 'g SimulatedExchange OrderManager
     \<Rightarrow> 'g SimulatedExchange OrderManager \<Rightarrow> bool" where
  "place_step draw v req s s' \<longleftrightarrow> (\<exists>i s1 x r x' j. valid_request req \<and> 0 < rq_price req
     \<and> Suc (orders_sent v s) < 2 ^ 16 \<and> venue_get v s = Some x \<and> counters_ok x
     \<and> \<not> pool_full (om_pool s) \<and> v \<in> hm_registered (om_health s)
     \<and> reserve_order req v s = Inr (i, s1) \<and> sim_place_order draw (order_ref s1 i) x = (r, x')
     \<and> place_reserved (sim_client draw) req v x i s1 = Inr (j, s'))"

definition deliver_step :: "VenueId \<Rightarrow> 'g SimulatedExchange OrderManager \<Rightarrow> 'g SimulatedExchange OrderManager \<Rightarrow> bool" where
  "deliver_step v s s' \<longleftrightarrow> (\<exists>x ev rest call x' evs. venue_get v s = Some x \<and> sx_queue x = ev # rest
     \<and> sim_deliver ev (x\<lparr>sx_queue := rest\<rparr>) = ([call], x') \<and> sink_call call (venue_put v x' s) = Inr (s', evs))"

lemma quiet_same:
  assumes "om_inv s'" and "om_registry s' = om_registry s" and "om_live s' = om_live s"
    and "om_positions s' = om_positions s" and "om_pool s' = om_pool s" and "om_trade_ids s' = om_trade_ids s"
    and "om_venue_seq s' = om_venue_seq s" and "om_live_iter s' = om_live_iter s" and "om_router s' = om_router s"
  shows "quiet_step s s'"
  using assms order_ref_pool [OF assms(5)]
  by (simp add: quiet_step_def undisturbed_def position_def settles_same)

lemma submit_step:
  assumes ok: "world_ok v s" and req: "valid_request req" "0 < rq_price req" and n: "Suc (orders_sent v s) < 2 ^ 16"
    and cnt: "\<And>x. venue_get v s = Some x \<Longrightarrow> counters_ok x"
    and sub: "submit (sim_client draw) req s = Inr (j, s')"
  shows "quiet_step s s' \<or> place_step draw v req s s'"
proof -
  have inv: "om_inv s" by (rule world_ok_inv [OF ok])
  show ?thesis
  proof (rule submit_cases [OF inv req(1), of "sim_client draw"])
    fix line
    assume all_down: "submit (sim_client draw) req s = Inr (0, cancel_working_orders (sim_client draw)
        (om_log_line LogError line (s\<lparr>om_rebalance_incomplete := True\<rparr>)))"
    define t where "t = om_log_line LogError line (s\<lparr>om_rebalance_incomplete := True\<rparr>)"
    have t: "om_inv t" "quiet_step s t" using inv by (simp_all add: t_def quiet_same)
    have s': "s' = cancel_working_orders (sim_client draw) t" using all_down sub by (simp add: t_def)
    have "undisturbed t s'" "settles t s'" "reg_noise (om_live t) (om_registry t) (om_registry s')"
      using s' undisturbed_econ [OF same_econ_cancel_working [OF t(1)]]
        cancel_working_noise [OF t(1), of draw] cancel_working_settles by blast+
    moreover have "om_live t = om_live s" "om_registry t = om_registry s" by (simp_all add: t_def)
    ultimately have "quiet_step s s'"
      using t(2) undisturbed_trans settles_trans by (auto simp: quiet_step_def)
    then show ?thesis ..
  next
    fix venue ex i s1 r ex'
    assume a: "registry_get (om_registry s) venue = Some ex" "reserve_order req venue s = Inr (i, s1)"
      "ec_place_order (sim_client draw) (order_ref s1 i) ex = (r, ex')"
      "place_reserved (sim_client draw) req venue ex i s1 = submit (sim_client draw) req s"
      "\<not> pool_full (om_pool s)" "venue \<in> hm_registered (om_health s)"
    have ven: "venue = v" using a(1) ok by (auto simp: world_ok_def venue_get_def)
    then have x: "venue_get v s = Some ex" using a(1) by (simp add: venue_get_def)
    have "place_step draw v req s s'"
      unfolding place_step_def using a req n x cnt [OF x] sub ven by (auto simp: sim_client_def)
    then show ?thesis ..
  qed (use sub inv in \<open>auto intro: quiet_same simp del: append.simps\<close>)
qed

lemma cancel_step:
  assumes ok: "world_ok v s" and gen: "genuine s i" and can: "cancel (sim_client draw) i s = (b, s')"
  shows "quiet_step s s'"
proof -
  note inv = world_ok_inv [OF ok]
  have "s' = snd (cancel (sim_client draw) i s)" using can by simp
  with same_econ_cancel [OF inv gen, of "sim_client draw"] cancel_noise [OF can inv gen] cancel_settles [OF can]
  show ?thesis by (simp add: quiet_step_def undisturbed_econ)
qed

lemma timeouts_step:
  assumes ok: "world_ok v s" and chk: "check_ack_timeouts (sim_client draw) now timeout s = Inr s'"
  shows "quiet_step s s'"
proof -
  note inv = world_ok_inv [OF ok]
  have "undisturbed s s'"
  proof (rule check_ack_timeouts_ok [OF inv, of "sim_client draw" now timeout])
    fix t assume t: "check_ack_timeouts (sim_client draw) now timeout s = Inr t" "om_inv t"
      "om_live t = om_live s" "om_positions t = om_positions s" "om_trade_ids t = om_trade_ids s"
      "\<And>j. j \<in> om_live s \<Longrightarrow> o_instrument (order_ref t j) = o_instrument (order_ref s j)
         \<and> o_side (order_ref t j) = o_side (order_ref s j) \<and> o_size (order_ref t j) = o_size (order_ref s j)
         \<and> o_filled_size (order_ref t j) = o_filled_size (order_ref s j)"
    with chk show ?thesis by (simp add: undisturbed_def position_def econ_def)
  qed
  then show ?thesis using check_ack_timeouts_settles [OF chk] ack_timeouts_noise [OF chk inv] by (simp add: quiet_step_def)
qed

lemma world_step_effect:
  assumes step: "world_step draw v s s'" and ok: "world_ok v s"
  obtains "quiet_step s s'"
  | x where "venue_get v s = Some x" "s' = venue_put v (x\<lparr>sx_now := sx_now x + sc_step_ns (sx_cfg x)\<rparr>) s"
  | x c where "venue_get v s = Some x" "s' = venue_put v (sim_set_connected c x) s"
  | req where "place_step draw v req s s'"
  | "deliver_step v s s'"
proof -
  note inv = world_ok_inv [OF ok]
  from step show ?thesis
  proof cases
    case (ws_submit req j)
    then show ?thesis using submit_step [OF ok] that(1,4) by blast
  next
    case (ws_cancel i b)
    then show ?thesis using cancel_step [OF ok] that(1) by blast
  next
    case (ws_timeouts now timeout)
    then show ?thesis using timeouts_step [OF ok] that(1) by blast
  next
    case (ws_kill why)
    with inv have "quiet_step s s'" by (auto intro: quiet_same)
    then show ?thesis by (rule that(1))
  next
    case (ws_clock now)
    with om_step_inv [OF st_clock inv] have "quiet_step s s'" by (intro quiet_same) (simp_all add: set_om_clock_def)
    then show ?thesis by (rule that(1))
  next
    case (ws_tick order now)
    with om_step_inv [OF st_tick inv] have "quiet_step s s'" by (intro quiet_same) simp_all
    then show ?thesis by (rule that(1))
  next
    case (ws_disconnect u)
    with om_step_inv [OF st_disconnect inv] have "quiet_step s s'"
      by (intro quiet_same) (auto simp: on_venue_disconnect_def with_health_def ebind_Inr_iff simp del: append.simps)
    then show ?thesis by (rule that(1))
  next
    case (ws_reconnect u)
    with om_step_inv [OF st_reconnect inv] have "quiet_step s s'"
      by (intro quiet_same) (auto simp: on_venue_reconnect_def with_health_def ebind_Inr_iff simp del: append.simps)
    then show ?thesis by (rule that(1))
  next
    case (ws_advance x)
    then show ?thesis by (intro that(2))
  next
    case (ws_connect x c)
    then show ?thesis by (intro that(3))
  next
    case (ws_deliver x ev rest call x' evs)
    then show ?thesis using that(5) unfolding deliver_step_def by blast
  qed
qed

section \<open>Every step keeps the agreement\<close>

lemma place_step_ok:
  assumes ok: "world_ok v s" and step: "place_step draw v req s s'"
  shows "world_ok v s' \<and> (\<exists>x x'. venue_get v s = Some x \<and> venue_get v s' = Some x' \<and> sx_cfg x' = sx_cfg x
    \<and> (ending x s \<longrightarrow> ending x' s') \<and> (soon x \<longrightarrow> soon x'))"
proof -
  note inv = world_ok_inv [OF ok]
  obtain i s1 x r x' j where a: "valid_request req" "0 < rq_price req" "Suc (orders_sent v s) < 2 ^ 16"
      "venue_get v s = Some x" "counters_ok x" "\<not> pool_full (om_pool s)" "v \<in> hm_registered (om_health s)"
      "reserve_order req v s = Inr (i, s1)" "sim_place_order draw (order_ref s1 i) x = (r, x')"
      "place_reserved (sim_client draw) req v x i s1 = Inr (j, s')"
    using step unfolding place_step_def by blast
  have x: "venue_ok x" "agrees x s" "ids_ok (om_pool s) (orders_sent v s) {i. venue_knows x i}"
    using ok a(4) by (auto simp: world_ok_def)
  note ids = reserve_ids [OF a(8) om_inv_pool [OF inv] x(3) a(3)]
  have new: "\<not> venue_knows x i" using ids(2) by simp
  have placed: "om_inv s' \<and> agrees x' s' \<and> venue_ok x' \<and> om_registry s' = registry_put v x' (om_registry s)
      \<and> (\<forall>k. venue_knows x' k \<longrightarrow> venue_knows x k \<or> k = i)
      \<and> (ending x s \<longrightarrow> ending x' s') \<and> (soon x \<longrightarrow> soon x') \<and> sx_cfg x' = sx_cfg x"
    by (rule placed_agrees [OF inv x(2,1) a(5,1,2,6,7,8) new a(9,10)])
  have "pool_inv (om_pool s1)"
    by (rule reserve_order_ok [OF inv a(6,1,7)]) (use a(8) om_inv_pool in auto)
  then have "ids_ok (om_pool s') (orders_sent v s') (insert i {k. venue_knows x k})"
    by (rule settles_ids [OF place_reserved_settles [OF a(10)] _ ids(1) subset_refl])
  with placed have "world_ok v s'" by (intro world_put [OF ok]) auto
  moreover have "venue_get v s' = Some x'"
    using placed venue_put_get(1) [OF a(4)] by (simp add: venue_get_def)
  ultimately show ?thesis using placed a(4) by blast
qed

lemma deliver_step_ok:
  assumes ok: "world_ok v s" and step: "deliver_step v s s'"
  shows "world_ok v s'"
proof -
  note inv = world_ok_inv [OF ok]
  obtain x ev rest call x' evs where x: "venue_get v s = Some x" and q: "sx_queue x = ev # rest"
    and del: "sim_deliver ev (x\<lparr>sx_queue := rest\<rparr>) = ([call], x')"
    and call: "sink_call call (venue_put v x' s) = Inr (s', evs)" using step unfolding deliver_step_def by blast
  have a: "venue_ok x" "agrees x s" "ids_ok (om_pool s) (orders_sent v s) {i. venue_knows x i}"
    using ok x by (auto simp: world_ok_def)
  have "venue_knows x (se_id ev)" using q by (simp add: venue_knows_def)
  then have gen: "genuine s (se_id ev)" using ids_genuine [OF a(3)] by simp
  have "agrees x (venue_put v x' s)" "om_inv (venue_put v x' s)" "genuine (venue_put v x' s) (se_id ev)"
    using a(2) inv gen by simp_all
  from agrees_deliver [OF this(1,2) a(1) q this(3) del refl call]
  have new: "agrees x' s'" "om_inv s'" "om_registry s' = registry_put v x' (om_registry s)" "venue_ok x'"
    by (simp_all add: venue_put_def)
  have "{i. venue_knows x' i} \<subseteq> {i. venue_knows x i}"
    using arg_cong [OF deliver_keeps_ids [OF del], where f = "\<lambda>w. w = None"] sim_deliver_frame [OF del] q
    by (auto simp: venue_knows_def simp del: not_None_eq)
  moreover have "settles s s'" using sink_call_settles [OF call] by (auto simp: settles_def)
  ultimately show ?thesis
    using settles_ids [OF _ om_inv_pool [OF inv] a(3) subset_refl] by (intro world_put [OF ok new(3,2,1,4)])
qed

lemma world_step_ok:
  assumes "world_step draw v s s'" and ok: "world_ok v s"
  shows "world_ok v s'"
  using assms
proof (cases rule: world_step_effect)
  case 1
  then show ?thesis using world_quiet [OF ok] by (simp add: quiet_step_def)
next
  case (2 x)
  then show ?thesis using world_venue [OF ok] by simp
next
  case (3 x c)
  then show ?thesis using world_venue [OF ok] by (simp add: sim_set_connected_def)
next
  case 4
  then show ?thesis using place_step_ok [OF ok] by blast
next
  case 5
  then show ?thesis by (rule deliver_step_ok [OF ok])
qed

lemma world_reach_ok: "(world_step draw v)\<^sup>*\<^sup>* s0 s \<Longrightarrow> world_ok v s0 \<Longrightarrow> world_ok v s"
  by (induction rule: rtranclp_induct) (auto intro: world_step_ok)

end
