(* ===== verification/Wiring.thy ===== *)
theory Wiring
  imports SimWorld OmProps OmExample
begin

text \<open>
  The manager wired to one simulated venue, as \<^verbatim>\<open>sim/main.cpp\<close> and the \<^verbatim>\<open>Rig\<close> of
  \<^verbatim>\<open>sim/bench.cpp\<close> build it, and \<^verbatim>\<open>poll()\<close> with the manager as the venue's sink: the handlers
  run between the deliveries. Both clocks are the venue's logical time.
\<close>

section \<open>Construction\<close>

definition kDefaultCapacity :: nat where
  "kDefaultCapacity = 100000"

text \<open>
  \<open>wall\<close> is what \<^verbatim>\<open>steady_clock\<close> reads when the venue is registered, before the health model gets
  the venue's clock; \<open>wit\<close> and \<open>lit\<close> are the iteration orders of the venue's working orders and of
  the manager's live orders.
\<close>

definition wire ::
  "(u64 \<Rightarrow> 'g) \<Rightarrow> (double \<Rightarrow> 'g \<Rightarrow> bool \<times> 'g) \<Rightarrow> (OrderIdRaw set \<Rightarrow> OrderIdRaw list)
     \<Rightarrow> (OrderIdRaw set \<Rightarrow> OrderIdRaw list) \<Rightarrow> SimConfig \<Rightarrow> log_sink \<Rightarrow> log_sink \<Rightarrow> nat \<Rightarrow> Timestamp
     \<Rightarrow> 'g SimulatedExchange OrderManager result" where
  "wire seed_rng draw wit lit cfg health_log om_sink cap wall =
     (let sim = sim_new seed_rng wit 0 cfg
      in ebind (registry_add (sim_client draw) (Some sim) registry_new) (\<lambda>reg.
           let h = (register_venue 0 (health_new default_health_config health_log wall))\<lparr>hm_clock := sx_now sim\<rparr>
           in ebind (om_new reg (registry_venues reg) h om_sink cap lit (sx_now sim)) (\<lambda>s.
                Inr (venue_put 0 (sim_set_sink True sim) s))))"

section \<open>Polling\<close>

fun sink_calls :: "SinkCall list \<Rightarrow> 'e OrderManager \<Rightarrow> ('e OrderManager \<times> 'e published) result" where
  "sink_calls [] s = Inr (s, [])"
| "sink_calls (c # cs) s =
     (case sink_call c s of
        Inl e \<Rightarrow> Inl e
      | Inr (s1, evs) \<Rightarrow>
          (case sink_calls cs s1 of Inl e \<Rightarrow> Inl e | Inr (s2, evs') \<Rightarrow> Inr (s2, evs @ evs')))"

lemma sink_call_registry: "sink_call c s = Inr (s', evs) \<Longrightarrow> om_registry s' = om_registry s"
  by (cases c)
    (auto simp: own_trades_def on_cancel_ack_def on_unsolicited_cancel_def
      dest: on_confirm_own on_fill_own on_reject_own finish_cancel_own)

lemma sink_calls_registry: "sink_calls cs s = Inr (s', evs) \<Longrightarrow> om_registry s' = om_registry s"
  by (induction cs arbitrary: s evs) (auto split: sum.splits dest!: sink_call_registry)

function sim_pump ::
  "VenueId \<Rightarrow> 'g SimulatedExchange OrderManager
     \<Rightarrow> ('g SimulatedExchange OrderManager \<times> 'g SimulatedExchange published) result" where
  "sim_pump v s =
     (case venue_get v s of
        None \<Rightarrow> Inr (s, [])
      | Some x \<Rightarrow>
          (case sx_queue x of
             [] \<Rightarrow> Inr (s, [])
           | ev # rest \<Rightarrow>
               if se_at ev \<le> sx_now x then
                 (case sim_deliver ev (x\<lparr>sx_queue := rest\<rparr>) of (calls, x1) \<Rightarrow>
                   (case sink_calls calls (venue_put v x1 s) of
                      Inl e \<Rightarrow> Inl e
                    | Inr (s1, evs) \<Rightarrow>
                        (case sim_pump v s1 of Inl e \<Rightarrow> Inl e | Inr (s2, evs') \<Rightarrow> Inr (s2, evs @ evs'))))
               else Inr (s, [])))"
  by pat_completeness auto
termination
proof (relation "measure (\<lambda>(v, s). case venue_get v s of None \<Rightarrow> 0 | Some x \<Rightarrow> length (sx_queue x))", goal_cases)
  case (2 v s x ev rest calls x1 r s1 evs)
  then have "sink_calls calls (venue_put v x1 s) = Inr (s1, evs)" by simp
  from sink_calls_registry [OF this] have "venue_get v s1 = Some x1"
    using venue_put_get(1) [OF 2(1)] by (simp add: venue_get_def)
  with 2 sim_deliver_frame [of ev "x\<lparr>sx_queue := rest\<rparr>" calls x1] show ?case by simp
qed simp

declare sim_pump.simps [simp del]

definition world_poll ::
  "VenueId \<Rightarrow> 'g SimulatedExchange OrderManager
     \<Rightarrow> ('g SimulatedExchange OrderManager \<times> 'g SimulatedExchange published) result" where
  "world_poll v s =
     (case venue_get v s of
        None \<Rightarrow> Inr (s, [])
      | Some x \<Rightarrow>
          let now = sx_now x + sc_step_ns (sx_cfg x)
          in sim_pump v (set_om_clock now (venue_put v (x\<lparr>sx_now := now\<rparr>) s)))"

section \<open>The wired pair is well formed\<close>

text \<open>The venue's first instrument of time: nothing sent, nothing known, nobody live.\<close>

lemma fresh_agrees: "om_live s = {} \<Longrightarrow> om_positions s = Map.empty \<Longrightarrow> agrees (sim_set_sink b (sim_new seed wit v cfg)) s"
  by (simp add: agrees_def sim_set_sink_def sim_new_def position_def map_get_def empty_position_def)

lemma fresh_unknown: "\<not> venue_knows (sim_set_sink b (sim_new seed wit v cfg)) i"
  by (simp add: venue_knows_def sim_set_sink_def sim_new_def)

lemma wire_ok:
  assumes w: "wire seed_rng draw wit lit cfg health_log om_sink cap wall = Inr s" and cfg: "timing_ok cfg"
    and lit: "\<forall>A. set (lit A) = A"
  shows "world_ok 0 s"
proof -
  let ?sim = "sim_new seed_rng wit 0 cfg"
  let ?h = "(register_venue 0 (health_new default_health_config health_log wall))\<lparr>hm_clock := sx_now ?sim\<rparr>"
  obtain reg s0 where r: "registry_add (sim_client draw) (Some ?sim) registry_new = Inr reg"
    "om_new reg (registry_venues reg) ?h om_sink cap lit (sx_now ?sim) = Inr s0"
    "s = venue_put 0 (sim_set_sink True ?sim) s0"
    using w by (auto simp: wire_def Let_def ebind_Inr_iff)
  have id: "ec_venue_id (sim_client draw) ?sim = 0" by (simp add: sim_client_def sim_new_def)
  obtain c where "Some ?sim = Some c" and reg: "registry_inv reg"
    and get: "\<And>u. registry_get reg u = (if u = ec_venue_id (sim_client draw) c then Some c else registry_get registry_new u)"
    using registry_add_spec [OF registry_inv_new r(1)] by metis
  then have get: "registry_get reg u = (if u = 0 then Some ?sim else None)" for u
    using id by (auto simp: registry_get_def registry_new_def)
  have "set (registry_venues reg) = {v. registry_get reg v \<noteq> None}" using registry_venues_iff [OF reg] by blast
  then have "set (registry_venues reg) \<subseteq> {0}" using get by auto
  then have inv: "om_inv s0"
    by (intro om_new_inv [OF r(2) _ lit]) (auto simp: hm_registered_def register_venue_def health_new_def)
  obtain p where p: "pool_new cap = Inr p" "om_pool s0 = p" "om_live s0 = {}" "om_positions s0 = Map.empty"
    "om_venue_seq s0 = Map.empty" "om_registry s0 = reg"
    using r(2) by (auto simp: om_new_def ebind_Inr_iff)
  have pool: "\<not> slot_live p t" "t < capacity p \<Longrightarrow> generation p ! t = 0" for t
    using p(1) by (auto simp: pool_new_def slot_live_def split: if_splits)
  have "venue_get 0 s0 = Some ?sim" "venue_get u s0 = (if u = 0 then Some ?sim else None)" for u
    using get p(6) by (simp_all add: venue_get_def)
  then have v: "venue_get 0 s = Some (sim_set_sink True ?sim)" "u \<noteq> 0 \<Longrightarrow> venue_get u s = None" for u
    using venue_put_get [where v = 0 and s = s0] r(3) by auto
  have "venue_ok (sim_set_sink True ?sim)"
    using cfg by (simp add: venue_ok_def sim_set_sink_def sim_new_def queue_sorted_def)
  moreover have "ids_ok (om_pool s) (orders_sent 0 s) {i. venue_knows (sim_set_sink True ?sim) i}"
    using pool p by (simp add: r(3) ids_ok_def orders_sent_def fresh_unknown map_get_def)
  moreover have "registry_inv (om_registry s)"
    using registry_inv_put [OF _ reg, of 0 ?sim] get [of 0] p(6) by (simp add: r(3))
  ultimately show ?thesis
    using v inv fresh_agrees [OF p(3,4)] by (auto simp: world_ok_def r(3))
qed

text \<open>C3: the manager's net positions are the venue's, and its live orders are the ones alive there,
  in every state the wired pair reaches: through rejects, unsolicited cancels, duplicate fills,
  fills ahead of their confirm, cancels that race fills, timeouts and disconnects.\<close>

theorem no_drift:
  assumes "wire seed_rng draw wit lit cfg health_log om_sink cap wall = Inr s0" and "timing_ok cfg"
    and "\<forall>A. set (lit A) = A" and "(world_step draw 0)\<^sup>*\<^sup>* s0 s"
  shows "\<exists>x. venue_get 0 s = Some x \<and> (\<forall>k. pos_net (position s k) = map_get 0 (sx_positions x) k)
    \<and> (\<forall>i. i \<in> om_live s \<longleftrightarrow> (\<exists>w. sx_working x i = Some w \<and> wk_alive w))"
proof -
  have "world_ok 0 s" by (rule world_reach_ok [OF assms(4) wire_ok [OF assms(1-3)]])
  then obtain x where "venue_get 0 s = Some x" "agrees x s" by (auto simp: world_ok_def)
  then show ?thesis by (intro exI [of _ x]) (auto simp: agrees_def tracks_def)
qed

text \<open>A concrete pair: the default venue, a pool of two slots, draws that never hit.\<close>

definition ex_never :: "double \<Rightarrow> unit \<Rightarrow> bool \<times> unit" where
  "ex_never p g = (False, ())"

definition ex_wired :: "unit SimulatedExchange OrderManager" where
  "ex_wired = projr (wire (\<lambda>_. ()) ex_never sorted_list_of_set sorted_list_of_set default_sim_config
     None (Some []) 2 0)"

lemma wire_returns:
  assumes "0 < cap" and "cap \<le> 2 ^ 24"
  shows "\<exists>s. wire seed_rng draw wit lit cfg health_log om_sink cap wall = Inr s
    \<and> orders_sent 0 s = 0 \<and> venue_get 0 s = Some (sim_set_sink True (sim_new seed_rng wit 0 cfg))"
proof -
  let ?sim = "sim_new seed_rng wit 0 cfg"
  have "ec_venue_id (sim_client draw) ?sim = 0" by (simp add: sim_client_def sim_new_def)
  then have add: "registry_add (sim_client draw) (Some ?sim) registry_new = Inr \<lparr>by_venue = [Some ?sim], reg_count = 1\<rparr>"
    by (simp add: registry_add_def registry_new_def Let_def)
  obtain p where p: "pool_new cap = Inr p" using assms by (simp add: pool_new_def kMaxSlots_eq)
  define reg where "reg = \<lparr>by_venue = [Some ?sim], reg_count = 1\<rparr>"
  define h where "h = (register_venue 0 (health_new default_health_config health_log wall))\<lparr>hm_clock := sx_now ?sim\<rparr>"
  obtain s0 where s0: "om_new reg (registry_venues reg) h om_sink cap lit (sx_now ?sim) = Inr s0"
    "om_registry s0 = reg" "om_venue_seq s0 = Map.empty" using p by (simp add: om_new_def)
  have "wire seed_rng draw wit lit cfg health_log om_sink cap wall = Inr (venue_put 0 (sim_set_sink True ?sim) s0)"
    using add s0(1) by (simp add: wire_def Let_def reg_def [symmetric] h_def [symmetric] del: One_nat_def)
  moreover have "venue_get 0 s0 = Some ?sim" using s0(2) by (simp add: venue_get_def registry_get_def reg_def)
  ultimately show ?thesis using s0(3) venue_put_get(1) by (auto simp: orders_sent_def)
qed

lemma ex_wire: "wire (\<lambda>_. ()) ex_never sorted_list_of_set sorted_list_of_set default_sim_config None (Some []) 2 0
    = Inr ex_wired"
  and ex_wired_sent: "orders_sent 0 ex_wired = 0"
  and ex_wired_venue: "venue_get 0 ex_wired = Some (sim_set_sink True (sim_new (\<lambda>_. ()) sorted_list_of_set 0 default_sim_config))"
  using wire_returns [of 2 "\<lambda>_. ()" ex_never sorted_list_of_set sorted_list_of_set default_sim_config None "Some []" 0]
  by (auto simp: ex_wired_def)

lemma ex_timing: "timing_ok default_sim_config"
  by (simp add: timing_ok_def default_sim_config_def)

lemma ex_lit: "\<forall>A :: OrderIdRaw set. set (sorted_list_of_set A) = A"
  by simp

lemma ex_wired_submit:
  obtains j s where "submit (sim_client ex_never) ex_request ex_wired = Inr (j, s)" "world_step ex_never 0 ex_wired s"
proof -
  have inv: "om_inv ex_wired" by (rule world_ok_inv [OF wire_ok [OF ex_wire ex_timing ex_lit]])
  obtain j s where s: "submit (sim_client ex_never) ex_request ex_wired = Inr (j, s)"
    by (rule submit_ok [OF inv ex_request_valid, of "sim_client ex_never"])
  have "counters_ok (sim_set_sink True (sim_new (\<lambda>_. ()) sorted_list_of_set 0 default_sim_config))"
    by (simp add: counters_ok_def sim_set_sink_def sim_new_def default_sim_config_def)
  then have "world_step ex_never 0 ex_wired s"
    using ex_wired_venue ex_wired_sent s ex_request_valid
    by (intro ws_submit [of ex_request]) (simp_all add: ex_request_def)
  with s that show ?thesis by blast
qed

theorem no_drift_witness:
  "\<exists>j s x. submit (sim_client ex_never) ex_request ex_wired = Inr (j, s) \<and> venue_get 0 s = Some x
    \<and> (\<forall>i. i \<in> om_live s \<longleftrightarrow> (\<exists>w. sx_working x i = Some w \<and> wk_alive w))"
proof -
  obtain j s where s: "submit (sim_client ex_never) ex_request ex_wired = Inr (j, s)" "world_step ex_never 0 ex_wired s"
    by (rule ex_wired_submit)
  from no_drift [OF ex_wire ex_timing ex_lit r_into_rtranclp [of "world_step ex_never 0", OF s(2)]] s(1) show ?thesis by blast
qed

section \<open>A poll of the pair\<close>

lemma sink_call_returns:
  "om_inv s \<Longrightarrow> (case c of CallConfirm i x ts \<Rightarrow> genuine s i | CallFill i q p t ts \<Rightarrow> genuine s i
     | CallReject i r ts \<Rightarrow> genuine s i | CallCancelAck i ts \<Rightarrow> genuine s i | CallUnsolicited i ts \<Rightarrow> genuine s i)
   \<Longrightarrow> \<exists>r. sink_call c s = Inr r"
  using handlers_return [of s] by (cases c) (simp_all del: split_paired_Ex)

text \<open>One delivery of a well-formed pair is a step of the pair.\<close>

lemma pump_delivers:
  assumes ok: "world_ok v s" and x: "venue_get v s = Some x" and q: "sx_queue x = ev # rest" "se_at ev \<le> sx_now x"
    and del: "sim_deliver ev (x\<lparr>sx_queue := rest\<rparr>) = (calls, x1)"
  obtains s1 evs where "sink_calls calls (venue_put v x1 s) = Inr (s1, evs)" "world_step draw v s s1"
    "venue_get v s1 = Some x1"
proof -
  have a: "venue_ok x" "om_inv s" "ids_ok (om_pool s) (orders_sent v s) {i. venue_knows x i}"
    using ok x by (auto simp: world_ok_def)
  have gen: "genuine (venue_put v x1 s) (se_id ev)"
    using ids_genuine [OF a(3)] q(1) by (simp add: venue_knows_def)
  have "sx_sink x" using a(1) by (simp add: venue_ok_def)
  then obtain call where call: "calls = [call]" using sim_deliver_call [of "x\<lparr>sx_queue := rest\<rparr>" ev] del by auto
  have "\<exists>r. sink_call call (venue_put v x1 s) = Inr r"
    using del call gen a(2) \<open>sx_sink x\<close>
    by (intro sink_call_returns) (auto simp: sim_deliver_def split: EvType.splits)
  then obtain s1 evs where s1: "sink_call call (venue_put v x1 s) = Inr (s1, evs)" by auto
  have "world_step draw v s s1" using ws_deliver [OF x q _ s1] del call by simp
  moreover have "venue_get v s1 = Some x1"
    using sink_call_registry [OF s1] venue_put_get(1) [OF x] by (simp add: venue_get_def)
  ultimately show ?thesis using that s1 call by simp
qed

text \<open>The pump returns, what it does to the venue is the venue's own drain, and the events it
  delivers are steps of the pair.\<close>

lemma sim_pump_ok:
  assumes "world_ok v s" and "venue_get v s = Some x"
  obtains s' evs where "sim_pump v s = Inr (s', evs)" "(world_step draw v)\<^sup>*\<^sup>* s s'"
    "venue_get v s' = Some (snd (sim_drain x))"
  using assms
proof (induction "length (sx_queue x)" arbitrary: s x thesis rule: less_induct)
  case (less x s)
  consider "sx_queue x = [] \<or> (\<exists>ev rest. sx_queue x = ev # rest \<and> \<not> se_at ev \<le> sx_now x)"
    | ev rest where "sx_queue x = ev # rest" "se_at ev \<le> sx_now x"
    by (metis list.exhaust)
  then show ?case
  proof cases
    case 1
    then have "sim_pump v s = Inr (s, [])" "snd (sim_drain x) = x"
      using less.prems(3) by (auto simp: sim_pump.simps [of v s] sim_drain.simps [of x])
    with less.prems show ?thesis by auto
  next
    case (2 ev rest)
    obtain calls x1 where d: "sim_deliver ev (x\<lparr>sx_queue := rest\<rparr>) = (calls, x1)"
      by (cases "sim_deliver ev (x\<lparr>sx_queue := rest\<rparr>)")
    obtain s1 evs where s1: "sink_calls calls (venue_put v x1 s) = Inr (s1, evs)" "world_step draw v s s1"
      "venue_get v s1 = Some x1" by (rule pump_delivers [OF less.prems(2,3) 2 d])
    have "length (sx_queue x1) < length (sx_queue x)" using sim_deliver_frame [OF d] 2 by simp
    then obtain s' evs' where s': "sim_pump v s1 = Inr (s', evs')" "(world_step draw v)\<^sup>*\<^sup>* s1 s'"
      "venue_get v s' = Some (snd (sim_drain x1))"
      using less.hyps [OF _ _ world_step_ok [OF s1(2) less.prems(2)] s1(3)] by blast
    have "sim_pump v s = Inr (s', evs @ evs')" using less.prems(3) 2 d s1(1) s'(1) by (simp add: sim_pump.simps [of v s])
    moreover have "snd (sim_drain x) = snd (sim_drain x1)"
      using 2 d by (simp add: sim_drain.simps [of x] split_beta)
    ultimately show ?thesis using less.prems(1) s' s1(2) by (simp add: converse_rtranclp_into_rtranclp)
  qed
qed

lemma world_poll_ok:
  assumes ok: "world_ok v s" and x: "venue_get v s = Some x"
  obtains s' evs where "world_poll v s = Inr (s', evs)" "(world_step draw v)\<^sup>*\<^sup>* s s'"
    "venue_get v s' = Some (snd (sim_poll x))"
proof -
  let ?now = "sx_now x + sc_step_ns (sx_cfg x)"
  let ?s1 = "venue_put v (x\<lparr>sx_now := ?now\<rparr>) s"
  have steps: "world_step draw v s ?s1" "world_step draw v ?s1 (set_om_clock ?now ?s1)"
    by (rule ws_advance [OF x], rule ws_clock)
  have "world_ok v (set_om_clock ?now ?s1)" by (rule world_step_ok [OF steps(2) world_step_ok [OF steps(1) ok]])
  moreover have "venue_get v (set_om_clock ?now ?s1) = Some (x\<lparr>sx_now := ?now\<rparr>)"
    using venue_put_get(1) [OF x] by (simp add: venue_get_def set_om_clock_def)
  ultimately obtain s' evs where "sim_pump v (set_om_clock ?now ?s1) = Inr (s', evs)"
    "(world_step draw v)\<^sup>*\<^sup>* (set_om_clock ?now ?s1) s'"
    "venue_get v s' = Some (snd (sim_drain (x\<lparr>sx_now := ?now\<rparr>)))" by (rule sim_pump_ok)
  with that x steps show ?thesis
    by (simp add: world_poll_def sim_poll_def converse_rtranclp_into_rtranclp)
qed

end
