(* ===== verification/SimLive.thy ===== *)
theory SimLive
  imports Wiring
begin

text \<open>
  Orders end. Every live order with a remainder has a reject, a cancel or the rest of its fills on
  the way, nothing is scheduled further ahead than the venue's horizon, and deliveries schedule
  nothing; so once the venue has been polled past the horizon nothing is pending.
\<close>

section \<open>A delivery and the order it is for\<close>

text \<open>When the last leg left is taken, the order is complete.\<close>

lemma legs_last:
  assumes ok: "legs_ok (insert ev F) seen rem" and new: "se_trade ev \<notin> seen"
    and none: "legs_left (insert (se_trade ev) seen) F = {}"
  shows "se_qty ev = rem"
proof -
  have p: "(se_trade ev, se_qty ev) \<in> legs_left seen (insert ev F)" using new by (simp add: legs_mem)
  have "legs_left seen (insert ev F) \<subseteq> {(se_trade ev, se_qty ev)}"
  proof
    fix y assume y: "y \<in> legs_left seen (insert ev F)"
    then obtain e where e: "e \<in> insert ev F" "se_trade e \<notin> seen" "y = (se_trade e, se_qty e)"
      by (auto simp: legs_left_def)
    have "se_trade e = se_trade ev"
    proof (rule ccontr)
      assume "se_trade e \<noteq> se_trade ev"
      with e(1,2) have "(se_trade e, se_qty e) \<in> legs_left (insert (se_trade ev) seen) F" by (auto simp: legs_left_def)
      with none show False by simp
    qed
    moreover have "inj_on fst (legs_left seen (insert ev F))" using ok by (simp add: legs_ok_def)
    ultimately show "y \<in> {(se_trade ev, se_qty ev)}" using inj_onD [of fst, OF _ _ y p] e(3) by simp
  qed
  with p have "legs_left seen (insert ev F) = {(se_trade ev, se_qty ev)}" by blast
  with ok show ?thesis by (simp add: legs_ok_def)
qed

text \<open>What a delivery leaves of a live order: other orders are untouched, and its own lives on only
  if the event was no end of it, or was a fill that left something.\<close>

definition spares :: "OrderIdRaw \<Rightarrow> 'e OrderManager \<Rightarrow> 'e OrderManager \<Rightarrow> bool" where
  "spares k s s' \<longleftrightarrow> k \<in> om_live s \<and> econ (order_ref s' k) = econ (order_ref s k) \<and> om_trade_ids s' k = om_trade_ids s k"

definition takes :: "SimEvent \<Rightarrow> 'e OrderManager \<Rightarrow> 'e OrderManager \<Rightarrow> bool" where
  "takes ev s s' \<longleftrightarrow> (let i = se_id ev in i \<in> om_live s \<and> se_type ev = SimFill
     \<and> se_trade ev \<notin> map_get {} (om_trade_ids s) i
     \<and> map_get {} (om_trade_ids s') i = insert (se_trade ev) (map_get {} (om_trade_ids s) i)
     \<and> remaining (order_ref s' i) = remaining (order_ref s i) - se_qty ev \<and> 0 < remaining (order_ref s' i))"

lemma undisturbed_spares: "undisturbed s s' \<Longrightarrow> k \<in> om_live s' \<Longrightarrow> spares k s s'"
  by (simp add: undisturbed_def spares_def)

lemma closes_spares: "closes i s s' \<Longrightarrow> k \<in> om_live s' \<Longrightarrow> spares k s s' \<and> k \<noteq> i"
  by (auto simp: closes_def spares_def)

lemma fill_leaves:
  assumes ag: "agrees x s" and inv: "om_inv s" and q: "sx_queue x = ev # rest" and ty: "se_type ev = SimFill"
    and gen: "genuine s (se_id ev)"
    and res: "on_fill (se_id ev) (se_qty ev) (se_price ev) (se_trade ev) ts s = Inr (s', evs)"
    and k: "k \<in> om_live s'"
  shows "spares k s s' \<and> (k = se_id ev \<longrightarrow> se_trade ev \<in> map_get {} (om_trade_ids s) k) \<or> k = se_id ev \<and> takes ev s s'"
proof (cases "se_id ev \<notin> om_live s \<or> se_trade ev \<in> map_get {} (om_trade_ids s) (se_id ev)")
  case True
  have "spares k s s'" by (rule undisturbed_spares [OF fill_refused [OF inv gen res True] k])
  with True show ?thesis by (auto simp: spares_def)
next
  case False
  let ?i = "se_id ev"
  obtain w where "tracks w (order_ref s ?i) (map_get {} (om_trade_ids s) ?i) (insert ev (fills_for ?i rest))"
    using ag False ty fills_for_pop(2) [of ev rest] q by (auto simp: agrees_def)
  then have "legs_ok (insert ev (fills_for ?i rest)) (map_get {} (om_trade_ids s) ?i) (remaining (order_ref s ?i))"
    by (simp add: tracks_def)
  from leg_within [OF this insertI1] False
  have fit: "0 < se_qty ev" "0 < se_price ev" "se_qty ev \<le> remaining (order_ref s ?i)" by auto
  have live: "?i \<in> om_live s" "se_trade ev \<notin> map_get {} (om_trade_ids s) ?i" using False by auto
  note t = fill_taken [OF inv res live fit]
  show ?thesis
  proof (cases "k = ?i")
    case True
    then have "econ (order_ref s' ?i) = econ (filled_order (se_qty ev) (se_price ev) ts (order_ref s ?i))"
      "om_trade_ids s' ?i = Some (insert (se_trade ev) (map_get {} (om_trade_ids s) ?i))" using t(5) k by simp_all
    moreover have "remaining (filled_order (se_qty ev) (se_price ev) ts (order_ref s ?i)) = remaining (order_ref s ?i) - se_qty ev"
      by (simp add: remaining_def filled_order_fields)
    moreover have "se_qty ev \<noteq> remaining (order_ref s ?i)" using t(2) k True by (auto split: if_splits)
    ultimately show ?thesis using True live ty fit by (simp add: takes_def econ_def remaining_def map_get_def Let_def)
  next
    case False
    with t(2,4) k show ?thesis by (auto simp: spares_def split: if_splits)
  qed
qed

lemma deliver_leaves:
  assumes ag: "agrees x s" and inv: "om_inv s" and ok: "venue_ok x" and q: "sx_queue x = ev # rest"
    and gen: "genuine s (se_id ev)" and del: "sim_deliver ev (x\<lparr>sx_queue := rest\<rparr>) = ([call], x')"
    and res: "sink_call call s = Inr (s', evs)" and k: "k \<in> om_live s'"
  shows "spares k s s' \<and> (k = se_id ev \<longrightarrow> \<not> deadly ev
      \<and> (se_type ev = SimFill \<longrightarrow> se_trade ev \<in> map_get {} (om_trade_ids s) k)) \<or> k = se_id ev \<and> takes ev s s'"
proof -
  have sink: "sx_sink x" using ok by (simp add: venue_ok_def)
  have ended: ?thesis if "se_id ev \<notin> om_live s \<and> undisturbed s s' \<or> closes (se_id ev) s s'" "se_type ev \<noteq> SimFill"
    using that k undisturbed_spares closes_spares by (fastforce simp: spares_def)
  have kept: ?thesis if "undisturbed s s'" "\<not> deadly ev" "se_type ev \<noteq> SimFill"
    using that k undisturbed_spares by blast
  show ?thesis
  proof (cases "se_type ev")
    case SimConfirm
    then obtain xid where "on_confirm (se_id ev) xid (se_at ev) s = Inr (s', evs)"
      using del res sink by (auto simp: sim_deliver_def)
    then show ?thesis using kept confirm_undisturbed [OF inv gen] SimConfirm by (simp add: deadly_def)
  next
    case SimFill
    then have "on_fill (se_id ev) (se_qty ev) (se_price ev) (se_trade ev) (se_at ev) s = Inr (s', evs)"
      using del res sink by (auto simp: sim_deliver_def)
    with fill_leaves [OF ag inv q SimFill gen _ k] SimFill show ?thesis by (auto simp: deadly_def)
  next
    case SimReject
    then have "se_reason ev \<noteq> CancelRejectedReason" using ok q by (simp add: venue_ok_def)
    moreover have r: "on_reject (se_id ev) (se_reason ev) (se_at ev) s = Inr (s', evs)"
      using SimReject del res sink by (auto simp: sim_deliver_def)
    ultimately show ?thesis using ended reject_effect [OF inv gen r] SimReject by simp
  next
    case SimCancelAck
    then have r: "finish_cancel (se_id ev) (se_at ev) KCancelAck EvCancelled False s = Inr (s', evs)"
      using del res sink by (auto simp: sim_deliver_def on_cancel_ack_def)
    show ?thesis using ended finish_cancel_effect [OF inv gen _ r] SimCancelAck by simp
  next
    case SimCancelReject
    then have "on_reject (se_id ev) CancelRejectedReason (se_at ev) s = Inr (s', evs)"
      using del res sink by (auto simp: sim_deliver_def)
    then show ?thesis using kept reject_effect [OF inv gen] SimCancelReject by (auto simp: deadly_def)
  next
    case SimUnsolicited
    then have r: "finish_cancel (se_id ev) (se_at ev) KUnsolicitedCancel EvUnsolicitedCancel True s = Inr (s', evs)"
      using del res sink by (auto simp: sim_deliver_def on_unsolicited_cancel_def)
    show ?thesis using ended finish_cancel_effect [OF inv gen _ r] SimUnsolicited by simp
  qed
qed

lemma ending_deliver:
  assumes ag: "agrees x s" and inv: "om_inv s" and ok: "venue_ok x" and q: "sx_queue x = ev # rest"
    and gen: "genuine s (se_id ev)" and del: "sim_deliver ev (x\<lparr>sx_queue := rest\<rparr>) = ([call], x')"
    and res: "sink_call call s = Inr (s', evs)" and end_: "ending x s"
  shows "ending x' s'"
  unfolding ending_def
proof (intro ballI impI)
  fix k assume k: "k \<in> om_live s'" and left: "0 < remaining (order_ref s' k)"
  have q': "sx_queue x' = rest" using sim_deliver_frame [OF del] by simp
  note leaves = deliver_leaves [OF ag inv ok q gen del res k]
  show "(\<exists>ev \<in> set (sx_queue x'). se_id ev = k \<and> deadly ev)
      \<or> legs_left (map_get {} (om_trade_ids s') k) (fills_for k (sx_queue x')) \<noteq> {}"
  proof (cases "k = se_id ev \<and> takes ev s s'")
    case True
    then have t: "k \<in> om_live s" "se_type ev = SimFill" "se_trade ev \<notin> map_get {} (om_trade_ids s) k"
        "map_get {} (om_trade_ids s') k = insert (se_trade ev) (map_get {} (om_trade_ids s) k)"
        "remaining (order_ref s' k) = remaining (order_ref s k) - se_qty ev"
      by (auto simp: takes_def Let_def)
    obtain w where "tracks w (order_ref s k) (map_get {} (om_trade_ids s) k) (insert ev (fills_for k rest))"
      using ag t(1,2) True fills_for_pop(2) [of ev rest] q by (auto simp: agrees_def)
    then have "legs_ok (insert ev (fills_for k rest)) (map_get {} (om_trade_ids s) k) (remaining (order_ref s k))"
      by (simp add: tracks_def)
    from legs_last [OF this t(3)] show ?thesis using left t(4,5) q' by auto
  next
    case False
    then have sp: "spares k s s'" and own: "k = se_id ev \<Longrightarrow> \<not> deadly ev
        \<and> (se_type ev = SimFill \<longrightarrow> se_trade ev \<in> map_get {} (om_trade_ids s) k)" using leaves by auto
    have seen: "map_get {} (om_trade_ids s') k = map_get {} (om_trade_ids s) k"
      using sp by (simp add: spares_def map_get_def)
    have "legs_left (map_get {} (om_trade_ids s) k) (fills_for k rest)
        = legs_left (map_get {} (om_trade_ids s) k) (fills_for k (sx_queue x))"
      using own q by (auto simp: legs_left_def fills_for_def)
    moreover have "0 < remaining (order_ref s k)" "k \<in> om_live s"
      using sp left by (auto simp: spares_def econ_def remaining_def)
    then have "(\<exists>ev \<in> set (sx_queue x). se_id ev = k \<and> deadly ev)
        \<or> legs_left (map_get {} (om_trade_ids s) k) (fills_for k (sx_queue x)) \<noteq> {}"
      using end_ by (simp add: ending_def)
    ultimately show ?thesis using own q q' seen by auto
  qed
qed

section \<open>Steps and polls\<close>

definition world_live :: "SimConfig \<Rightarrow> VenueId \<Rightarrow> 'g SimulatedExchange OrderManager \<Rightarrow> bool" where
  "world_live cfg v s \<longleftrightarrow> world_ok v s \<and> (\<exists>x. venue_get v s = Some x \<and> ending x s \<and> soon x \<and> sx_cfg x = cfg)"

lemma world_live_deliver:
  assumes live: "world_live cfg v s" and step: "deliver_step v s s'"
  shows "world_live cfg v s'"
proof -
  have ok: "world_ok v s" using live by (simp add: world_live_def)
  obtain x ev rest call x' evs where x: "venue_get v s = Some x" and q: "sx_queue x = ev # rest"
    and del: "sim_deliver ev (x\<lparr>sx_queue := rest\<rparr>) = ([call], x')"
    and call: "sink_call call (venue_put v x' s) = Inr (s', evs)" using step unfolding deliver_step_def by blast
  have a: "venue_ok x" "agrees x s" "om_inv s" "ids_ok (om_pool s) (orders_sent v s) {i. venue_knows x i}"
    "ending x s" "soon x" "sx_cfg x = cfg" using live x by (auto simp: world_live_def world_ok_def)
  have gen: "genuine (venue_put v x' s) (se_id ev)" using ids_genuine [OF a(4)] q by (simp add: venue_knows_def)
  have "ending x (venue_put v x' s)" using a(5) by (simp add: ending_def venue_put_def order_ref_def)
  then have "ending x' s'" using a ending_deliver [OF _ _ a(1) q gen del call] by simp
  moreover have "soon x'" "sx_cfg x' = cfg"
    using a(6,7) q sim_deliver_frame [OF del] by (simp_all add: soon_def)
  moreover have "venue_get v s' = Some x'"
    using sink_call_registry [OF call] venue_put_get(1) [OF x] by (simp add: venue_get_def)
  ultimately show ?thesis using deliver_step_ok [OF ok step] by (simp add: world_live_def)
qed

lemma reg_noise_at:
  assumes "reg_noise K (om_registry s) (om_registry s')" and "venue_get v s = Some x"
  obtains x' where "venue_get v s' = Some x'" "noise K x x'"
proof -
  have "case registry_get (om_registry s) v of None \<Rightarrow> registry_get (om_registry s') v = None
      | Some y \<Rightarrow> \<exists>y'. registry_get (om_registry s') v = Some y' \<and> noise K y y'"
    by (rule spec [OF assms(1) [unfolded reg_noise_def, THEN conjunct2]])
  with assms(2) that show ?thesis by (auto simp: venue_get_def)
qed

lemma world_step_live:
  assumes step: "world_step draw v s s'" and live: "world_live cfg v s" and adv: "0 \<le> sc_step_ns cfg"
  shows "world_live cfg v s'"
proof -
  have ok: "world_ok v s" using live by (simp add: world_live_def)
  note ok' = world_step_ok [OF step ok]
  obtain x where x: "venue_get v s = Some x" "ending x s" "soon x" "sx_cfg x = cfg"
    using live by (auto simp: world_live_def)
  from step ok show ?thesis
  proof (cases rule: world_step_effect)
    case 1
    then have "reg_noise (om_live s) (om_registry s) (om_registry s')" by (simp add: quiet_step_def)
    then obtain x' where x': "venue_get v s' = Some x'" "noise (om_live s) x x'"
      by (rule reg_noise_at [OF _ x(1)])
    have "ending x' s'"
      by (rule ending_undisturbed [OF ending_noise [OF x'(2) x(2)]]) (use 1 in \<open>simp add: quiet_step_def\<close>)
    moreover have "soon x'" by (rule soon_noise [OF x'(2) x(3)])
    moreover have "sx_cfg x' = cfg" using x'(2) x(4) by (simp add: noise_def)
    ultimately show ?thesis using ok' x'(1) by (auto simp: world_live_def)
  next
    case (2 y)
    with ok' x adv venue_put_get(1) [OF x(1)] show ?thesis
      by (auto simp: world_live_def ending_def soon_def venue_put_def order_ref_def)
  next
    case (3 y c)
    with ok' x venue_put_get(1) [OF x(1)] show ?thesis
      by (auto simp: world_live_def ending_def soon_def venue_put_def order_ref_def sim_set_connected_def)
  next
    case (4 req)
    with place_step_ok [OF ok 4] x show ?thesis by (auto simp: world_live_def)
  next
    case 5
    then show ?thesis by (rule world_live_deliver [OF live])
  qed
qed

lemma world_reach_live:
  "(world_step draw v)\<^sup>*\<^sup>* s0 s \<Longrightarrow> world_live cfg v s0 \<Longrightarrow> 0 \<le> sc_step_ns cfg \<Longrightarrow> world_live cfg v s"
  by (induction rule: rtranclp_induct) (auto intro: world_step_live)

lemma wire_live:
  assumes w: "wire seed_rng draw wit lit cfg health_log om_sink cap wall = Inr s" and cfg: "timing_ok cfg"
    and lit: "\<forall>A. set (lit A) = A"
  shows "world_live cfg 0 s"
proof -
  obtain s0 where s0: "s = venue_put 0 (sim_set_sink True (sim_new seed_rng wit 0 cfg)) s0" "om_live s0 = {}"
    using w by (auto simp: wire_def Let_def ebind_Inr_iff om_new_def)
  obtain x where x: "venue_get 0 s = Some x" using wire_ok [OF assms] by (auto simp: world_ok_def)
  then have "x = sim_set_sink True (sim_new seed_rng wit 0 cfg)"
    by (auto simp: s0(1) venue_get_def venue_put_def registry_get_def registry_put_def split: if_splits)
  with x wire_ok [OF assms] s0(2) show ?thesis
    by (simp add: world_live_def ending_def soon_def sim_set_sink_def sim_new_def s0(1)) (simp add: venue_put_def)
qed

text \<open>A drain takes the due events off the front of the queue and schedules nothing.\<close>

lemma sim_drain_front:
  "\<exists>due. sx_queue x = due @ sx_queue (snd (sim_drain x)) \<and> sx_now (snd (sim_drain x)) = sx_now x
    \<and> sx_cfg (snd (sim_drain x)) = sx_cfg x
    \<and> (sx_queue (snd (sim_drain x)) = [] \<or> sx_now x < se_at (hd (sx_queue (snd (sim_drain x)))))"
proof (induction x rule: sim_drain.induct)
  case (1 x)
  show ?case
  proof (cases "\<exists>ev rest. sx_queue x = ev # rest \<and> se_at ev \<le> sx_now x")
    case True
    then obtain ev rest where q: "sx_queue x = ev # rest" "se_at ev \<le> sx_now x" by blast
    obtain calls x1 where d: "sim_deliver ev (x\<lparr>sx_queue := rest\<rparr>) = (calls, x1)"
      by (cases "sim_deliver ev (x\<lparr>sx_queue := rest\<rparr>)")
    have "snd (sim_drain x) = snd (sim_drain x1)" using q d by (simp add: sim_drain.simps [of x] split_beta)
    moreover obtain due where "sx_queue x1 = due @ sx_queue (snd (sim_drain x1)) \<and> sx_now (snd (sim_drain x1)) = sx_now x1
        \<and> sx_cfg (snd (sim_drain x1)) = sx_cfg x1
        \<and> (sx_queue (snd (sim_drain x1)) = [] \<or> sx_now x1 < se_at (hd (sx_queue (snd (sim_drain x1)))))"
      using 1 [OF q d [symmetric] refl] by blast
    ultimately show ?thesis using sim_deliver_frame [OF d] q(1) by (intro exI [of _ "ev # due"]) simp
  next
    case False
    then have "sim_drain x = ([], x)" by (auto simp: sim_drain.simps [of x] split: list.splits)
    with False show ?thesis by (cases "sx_queue x") auto
  qed
qed

lemma sim_poll_front:
  "\<exists>due. sx_queue x = due @ sx_queue (snd (sim_poll x)) \<and> sx_now (snd (sim_poll x)) = sx_now x + sc_step_ns (sx_cfg x)
    \<and> sx_cfg (snd (sim_poll x)) = sx_cfg x
    \<and> (sx_queue (snd (sim_poll x)) = [] \<or> sx_now (snd (sim_poll x)) < se_at (hd (sx_queue (snd (sim_poll x)))))"
  using sim_drain_front [of "x\<lparr>sx_now := sx_now x + sc_step_ns (sx_cfg x)\<rparr>"] by (auto simp: sim_poll_def)

section \<open>Polling until nothing is pending\<close>

text \<open>\<^verbatim>\<open>for (int i = 0; i < n; ++i) sim->poll()\<close>.\<close>

fun world_polls ::
  "nat \<Rightarrow> VenueId \<Rightarrow> 'g SimulatedExchange OrderManager
     \<Rightarrow> ('g SimulatedExchange OrderManager \<times> 'g SimulatedExchange published) result" where
  "world_polls 0 v s = Inr (s, [])"
| "world_polls (Suc n) v s =
     (case world_poll v s of
        Inl e \<Rightarrow> Inl e
      | Inr (s1, evs) \<Rightarrow>
          (case world_polls n v s1 of Inl e \<Rightarrow> Inl e | Inr (s2, evs') \<Rightarrow> Inr (s2, evs @ evs')))"

lemma world_polls_ok:
  assumes "world_live cfg v s" and "venue_get v s = Some x" and "0 \<le> sc_step_ns cfg"
  obtains s' evs x' where "world_polls n v s = Inr (s', evs)" "(world_step draw v)\<^sup>*\<^sup>* s s'" "world_live cfg v s'"
    "venue_get v s' = Some x'" "set (sx_queue x') \<subseteq> set (sx_queue x)"
    "sx_now x' = sx_now x + int n * sc_step_ns cfg"
    "0 < n \<longrightarrow> sx_queue x' = [] \<or> sx_now x' < se_at (hd (sx_queue x'))"
  using assms
proof (induction n arbitrary: s x thesis)
  case 0
  then show ?case by simp
next
  case (Suc n)
  have ok: "world_ok v s" and cfg: "sx_cfg x = cfg" using Suc.prems(2,3) by (auto simp: world_live_def)
  obtain s1 evs where s1: "world_poll v s = Inr (s1, evs)" "(world_step draw v)\<^sup>*\<^sup>* s s1"
    "venue_get v s1 = Some (snd (sim_poll x))" by (rule world_poll_ok [OF ok Suc.prems(3)])
  let ?x1 = "snd (sim_poll x)"
  have live1: "world_live cfg v s1" by (rule world_reach_live [OF s1(2) Suc.prems(2,4)])
  note f = sim_poll_front [of x]
  obtain s' evs' x' where s': "world_polls n v s1 = Inr (s', evs')" "(world_step draw v)\<^sup>*\<^sup>* s1 s'" "world_live cfg v s'"
    "venue_get v s' = Some x'" "set (sx_queue x') \<subseteq> set (sx_queue ?x1)"
    "sx_now x' = sx_now ?x1 + int n * sc_step_ns cfg"
    "0 < n \<longrightarrow> sx_queue x' = [] \<or> sx_now x' < se_at (hd (sx_queue x'))"
    by (rule Suc.IH [OF _ live1 s1(3) Suc.prems(4)])
  have "world_polls (Suc n) v s = Inr (s', evs @ evs')" using s1(1) s'(1) by simp
  moreover have "(world_step draw v)\<^sup>*\<^sup>* s s'" using s1(2) s'(2) by (rule rtranclp_trans)
  moreover have "set (sx_queue x') \<subseteq> set (sx_queue x)" using s'(5) f by auto
  moreover have "sx_now x' = sx_now x + int (Suc n) * sc_step_ns cfg" using s'(6) f cfg by (auto simp: algebra_simps)
  moreover have "sx_queue x' = [] \<or> sx_now x' < se_at (hd (sx_queue x'))"
  proof (cases "n = 0")
    case True
    then have "s' = s1" using s'(1) by simp
    then have "x' = ?x1" using s'(4) s1(3) by simp
    with f show ?thesis by blast
  qed (use s'(7) in simp)
  ultimately show ?case using Suc.prems(1) s'(3,4) by blast
qed

text \<open>Past the horizon the venue has nothing left to deliver.\<close>

lemma polls_drain:
  assumes live: "world_live cfg v s" and x: "venue_get v s = Some x" and step: "0 \<le> sc_step_ns cfg"
    and n: "0 < n" "horizon cfg \<le> int n * sc_step_ns cfg"
  obtains s' evs x' where "world_polls n v s = Inr (s', evs)" "(world_step draw v)\<^sup>*\<^sup>* s s'" "world_live cfg v s'"
    "venue_get v s' = Some x'" "sx_queue x' = []"
proof -
  obtain s' evs x' where s': "world_polls n v s = Inr (s', evs)" "(world_step draw v)\<^sup>*\<^sup>* s s'" "world_live cfg v s'"
    "venue_get v s' = Some x'" "set (sx_queue x') \<subseteq> set (sx_queue x)"
    "sx_now x' = sx_now x + int n * sc_step_ns cfg"
    "sx_queue x' = [] \<or> sx_now x' < se_at (hd (sx_queue x'))"
    using world_polls_ok [OF live x step, of n draw thesis] n(1) by blast
  have soon: "soon x" "sx_cfg x = cfg" using live x by (auto simp: world_live_def)
  have "sx_queue x' = []"
  proof (rule ccontr)
    assume ne: "sx_queue x' \<noteq> []"
    then have "hd (sx_queue x') \<in> set (sx_queue x)" using s'(5) by (meson hd_in_set subset_iff)
    then have "se_at (hd (sx_queue x')) \<le> sx_now x + horizon cfg" using soon by (auto simp: soon_def)
    with s'(6,7) ne n(2) show False by simp
  qed
  with that s' show ?thesis by blast
qed

lemma drained_idle:
  assumes live: "world_live cfg v s" and x: "venue_get v s = Some x" and empty: "sx_queue x = []"
  shows "i \<in> om_live s \<Longrightarrow> remaining (order_ref s i) = 0" and "pending_quantity s k = 0"
proof -
  have inv: "om_inv s" and end_: "ending x s" using live x by (auto simp: world_live_def world_ok_def)
  have none: "remaining (order_ref s i) = 0" if "i \<in> om_live s" for i
  proof -
    have "0 \<le> remaining (order_ref s i)" using om_inv_good [OF inv that] by (simp add: good_order_def remaining_def)
    moreover have "\<not> 0 < remaining (order_ref s i)"
      using end_ that empty by (auto simp: ending_def fills_for_def legs_left_def)
    ultimately show ?thesis by simp
  qed
  then show "i \<in> om_live s \<Longrightarrow> remaining (order_ref s i) = 0" .
  show "pending_quantity s k = 0"
    unfolding pending_sum [OF inv] by (rule sum.neutral) (simp add: contrib_def none)
qed

text \<open>C4: orders end. From every state the wired pair reaches, polling past the venue's horizon
  returns, and leaves no event queued, no live order with a remainder and nothing pending on any
  instrument; the positions are still the venue's.\<close>

theorem polls_settle_everything:
  assumes "wire seed_rng draw wit lit cfg health_log om_sink cap wall = Inr s0" and "timing_ok cfg"
    and "\<forall>A. set (lit A) = A" and "0 \<le> sc_step_ns cfg" and "(world_step draw 0)\<^sup>*\<^sup>* s0 s"
    and "0 < n" and "horizon cfg \<le> int n * sc_step_ns cfg"
  shows "\<exists>s' evs x. world_polls n 0 s = Inr (s', evs) \<and> venue_get 0 s' = Some x \<and> sx_queue x = []
    \<and> (\<forall>i \<in> om_live s'. remaining (order_ref s' i) = 0) \<and> (\<forall>k. pending_quantity s' k = 0)
    \<and> (\<forall>k. pos_net (position s' k) = map_get 0 (sx_positions x) k)"
proof -
  have live: "world_live cfg 0 s" by (rule world_reach_live [OF assms(5) wire_live [OF assms(1-3)] assms(4)])
  then obtain x0 where "venue_get 0 s = Some x0" by (auto simp: world_live_def)
  then obtain s' evs x where s': "world_polls n 0 s = Inr (s', evs)" "world_live cfg 0 s'"
    "venue_get 0 s' = Some x" "sx_queue x = []"
    using polls_drain [OF live _ assms(4,6,7)] by blast
  moreover have "agrees x s'" using s'(2,3) by (auto simp: world_live_def world_ok_def)
  ultimately show ?thesis using drained_idle [OF s'(2-4)] by (auto simp: agrees_def)
qed

theorem polls_settle_everything_witness:
  "\<exists>j s s' evs x. submit (sim_client ex_never) ex_request ex_wired = Inr (j, s) \<and> world_polls 3 0 s = Inr (s', evs)
    \<and> venue_get 0 s' = Some x \<and> sx_queue x = [] \<and> (\<forall>k. pending_quantity s' k = 0)"
proof -
  obtain j s where s: "submit (sim_client ex_never) ex_request ex_wired = Inr (j, s)" "world_step ex_never 0 ex_wired s"
    by (rule ex_wired_submit)
  have "0 \<le> sc_step_ns default_sim_config" "horizon default_sim_config \<le> int 3 * sc_step_ns default_sim_config"
    by (simp_all add: default_sim_config_def horizon_def)
  from polls_settle_everything [OF ex_wire ex_timing ex_lit this(1) r_into_rtranclp [of "world_step ex_never 0", OF s(2)] _ this(2)]
    s(1) show ?thesis by auto
qed

end
