(* ===== verification/SimBudget.thy ===== *)
theory SimBudget
  imports SimLive AlgoProps
begin

text \<open>
  A client of the wired pair, such as an algo, submits and cancels. While fewer than \<open>2 ^ 15\<close>
  of its calls were made no counter wraps, so every call and every poll returns, the venue stays
  in agreement, and the events that reach the client are of its own orders.
\<close>

section \<open>What a call costs the venue\<close>

text \<open>Counters move by at most \<open>m\<close>; no order is forgotten.\<close>

definition costs :: "nat \<Rightarrow> 'g SimulatedExchange \<Rightarrow> 'g SimulatedExchange \<Rightarrow> bool" where
  "costs m x x' \<longleftrightarrow> sx_connected x' = sx_connected x \<and> sx_cfg x' = sx_cfg x
     \<and> dom (sx_working x) \<subseteq> dom (sx_working x')
     \<and> unat (sx_trade_counter x') \<le> unat (sx_trade_counter x) + m
     \<and> unat (sx_seq_counter x') \<le> unat (sx_seq_counter x) + m"

lemma costs_refl [simp]: "costs m x x"
  by (simp add: costs_def)

lemma costs_trans: "costs m x y \<Longrightarrow> costs n y z \<Longrightarrow> costs (m + n) x z"
  by (auto simp: costs_def)

lemma costs_mono: "costs m x y \<Longrightarrow> m \<le> n \<Longrightarrow> costs n x y"
  by (auto simp: costs_def)

lemma unat_add_1_le: "unat (a + 1 :: 'a :: len word) \<le> Suc (unat a)"
  by (simp add: unat_word_ariths)

lemma costs_schedule: "costs (Suc 0) x (schedule ev x)"
  using unat_add_1_le [of "sx_seq_counter x"] by (simp add: costs_def schedule_def)

lemma costs_trade: "costs 1 x (x\<lparr>sx_trade_counter := sx_trade_counter x + 1\<rparr>)"
  using unat_add_1_le [of "sx_trade_counter x"] by (simp add: costs_def)

lemma costs_draw: "sim_draw draw p x = (b, x') \<Longrightarrow> costs m x x'"
  by (auto simp: sim_draw_def costs_def split: prod.splits)

lemma costs_cancel: "sim_cancel_order i xid x = (r, x') \<Longrightarrow> costs 1 x x'"
  using costs_schedule by (auto simp: sim_cancel_order_def Let_def split: if_splits)

lemma costs_fills: "costs (3 * k) x (schedule_fills draw oid whole price base c k i a x)"
proof (induction k arbitrary: i a x)
  case (Suc k)
  define q where "q = (if k = 0 then whole - a else base)"
  define t where "t = (if sc_reorder_fill_before_ack (sx_cfg x) \<and> i = 0 then c - 1
      else sx_now x + sc_fill_latency_ns (sx_cfg x) + i * sc_fill_gap_ns (sx_cfg x))"
  define x0 where "x0 = x\<lparr>sx_trade_counter := sx_trade_counter x + 1\<rparr>"
  define ev where "ev = (sim_event t SimFill oid)\<lparr>se_qty := q, se_price := price,
      se_trade := sx_trade_counter x + 1, se_final := (k = 0)\<rparr>"
  define x1 where "x1 = schedule ev x0"
  obtain dup x2 where d: "sim_draw draw (sc_duplicate_fill_prob (sx_cfg x1)) x1 = (dup, x2)"
    by (cases "sim_draw draw (sc_duplicate_fill_prob (sx_cfg x1)) x1")
  have cfg: "sx_cfg x1 = sx_cfg x" by (simp add: x1_def x0_def schedule_def)
  define x3 where "x3 = (if dup then schedule (ev\<lparr>se_at := t + 1\<rparr>) x2 else x2)"
  have "costs (Suc 0) x2 x3" by (simp add: x3_def costs_schedule)
  from costs_trans [OF costs_draw [OF d, of 0] this] have "costs 1 x1 x3" by simp
  from costs_trans [OF costs_schedule [of x0 ev, folded x1_def] this] have "costs 2 x0 x3" by (simp add: numeral_2_eq_2)
  from costs_trans [OF costs_trade [of x, folded x0_def] this] have x3: "costs 3 x x3" by (simp add: numeral_3_eq_3)
  have "costs (3 + 3 * k) x (schedule_fills draw oid whole price base c k (i + 1) (a + q) x3)"
    by (rule costs_trans [OF x3 Suc.IH])
  moreover have "q > 0 \<Longrightarrow> schedule_fills draw oid whole price base c (Suc k) i a x
      = schedule_fills draw oid whole price base c k (i + 1) (a + q) x3"
    using d cfg by (simp add: Let_def q_def [symmetric] t_def [symmetric] x0_def [symmetric] ev_def [symmetric]
        x1_def [symmetric] x3_def)
  moreover have "q \<le> 0 \<Longrightarrow> schedule_fills draw oid whole price base c (Suc k) i a x
      = schedule_fills draw oid whole price base c k (i + 1) (a + q) x"
    by (simp add: Let_def q_def [symmetric])
  ultimately show ?case using costs_mono [OF Suc.IH, of "3 * Suc k"] by (cases "q \<le> 0") simp_all
qed simp

definition order_cost :: "SimConfig \<Rightarrow> nat" where
  "order_cost cfg = 3 * nat (max 1 (sc_partial_chunks cfg)) + 2"

lemma costs_place:
  assumes "sim_place_order draw ord x = (r, x')"
  shows "costs (order_cost (sx_cfg x)) x x'"
proof (cases "sx_connected x")
  case False
  with assms show ?thesis by (simp add: sim_place_order_def)
next
  case True
  define x1 where "x1 = sim_book_order ord x"
  have 1: "costs 0 x x1" by (auto simp: x1_def sim_book_order_def costs_def Let_def)
  have cfg: "sx_cfg x1 = sx_cfg x" using 1 by (simp add: costs_def)
  obtain rejected x2 where d2: "sim_draw draw (sc_reject_prob (sx_cfg x1)) x1 = (rejected, x2)"
    by (cases "sim_draw draw (sc_reject_prob (sx_cfg x1)) x1")
  have 2: "costs 0 x x2" using costs_trans [OF 1 costs_draw [OF d2, of 0]] by simp
  define x3 where "x3 = schedule (sim_event (sx_now x1 + sc_ack_latency_ns (sx_cfg x1)) SimConfirm (o_internal_id ord)) x2"
  have 3: "costs 1 x x3" using costs_trans [OF 2 costs_schedule] by (simp add: x3_def)
  obtain unsol x4 where d4: "sim_draw draw (sc_unsolicited_cancel_prob (sx_cfg x1)) x3 = (unsol, x4)"
    by (cases "sim_draw draw (sc_unsolicited_cancel_prob (sx_cfg x1)) x3")
  have 4: "costs 1 x x4" using costs_trans [OF 3 costs_draw [OF d4, of 0]] by simp
  have x': "x' = sim_schedule_order draw ord x1" using True assms by (simp add: sim_place_order_def x1_def)
  have one: "costs (order_cost (sx_cfg x)) x y" if "costs 2 x y" for y
    using that by (rule costs_mono) (simp add: order_cost_def)
  show ?thesis
  proof (cases "rejected \<or> unsol")
    case True
    then have "\<exists>ev. x' = schedule ev x2 \<or> x' = schedule ev x4"
      using d2 d4 by (cases rejected) (auto simp: x' sim_schedule_order_def Let_def x3_def)
    then obtain ev where "x' = schedule ev x2 \<or> x' = schedule ev x4" by blast
    then have "costs 2 x x'"
      using costs_trans [OF 2 costs_schedule] costs_trans [OF 4 costs_schedule] costs_mono [of 1 x x' 2]
      by (auto simp: numeral_2_eq_2)
    then show ?thesis by (rule one)
  next
    case False
    let ?k = "nat (max 1 (sc_partial_chunks (sx_cfg x)))"
    have "x' = schedule_fills draw (o_internal_id ord) (o_size ord) (o_limit_price ord)
        (tdiv (o_size ord) (max 1 (sc_partial_chunks (sx_cfg x)))) (sx_now x1 + sc_ack_latency_ns (sx_cfg x1)) ?k 0 0 x4"
      using False d2 d4 by (simp add: x' sim_schedule_order_def Let_def x3_def cfg max_def)
    with costs_trans [OF 4 costs_fills] have "costs (1 + 3 * ?k) x x'" by metis
    then show ?thesis by (rule costs_mono) (simp add: order_cost_def)
  qed
qed

lemma costs_deliver: "sim_deliver ev x = (calls, x') \<Longrightarrow> costs 0 x x'"
  by (auto simp: sim_deliver_def sim_book_fill_def sim_kill_def costs_def Let_def
      split: if_splits EvType.splits option.splits)

section \<open>What a call of the manager costs its venue\<close>

definition spends :: "VenueId \<Rightarrow> nat \<Rightarrow> 'g SimulatedExchange OrderManager \<Rightarrow> 'g SimulatedExchange OrderManager \<Rightarrow> bool" where
  "spends v m s s' \<longleftrightarrow> (\<forall>x. venue_get v s = Some x \<longrightarrow> (\<exists>x'. venue_get v s' = Some x' \<and> costs m x x'))"

lemma spends_same: "om_registry s' = om_registry s \<Longrightarrow> spends v m s s'"
  by (auto simp: spends_def venue_get_def)

lemma spends_trans: "spends v m s t \<Longrightarrow> spends v n t u \<Longrightarrow> spends v (m + n) s u"
  unfolding spends_def by (meson costs_trans)

lemma spends_mono: "spends v m s t \<Longrightarrow> m \<le> n \<Longrightarrow> spends v n s t"
  unfolding spends_def by (meson costs_mono)

lemma spends_put:
  assumes "registry_get (om_registry s) u = Some x" and "om_registry s' = registry_put u x' (om_registry s)"
    and "costs m x x'"
  shows "spends v m s s'"
  using assms registry_get_put_same [OF assms(1), of x'] registry_get_put_other [of u v x' "om_registry s"]
  by (cases "v = u") (auto simp: spends_def venue_get_def)

lemma call_cancel_spends:
  assumes "call_cancel (sim_client draw) i ex s = (r, t)" and "registry_get (om_registry s) (venue_of i) = Some ex"
  shows "spends v (Suc 0) s t"
proof -
  obtain ex' where "sim_cancel_order i (o_exchange_id (order_ref s i)) ex = (r, ex')"
    "om_registry t = registry_put (venue_of i) ex' (om_registry s)"
    using assms(1) by (auto simp: call_cancel_def sim_client_def split: prod.splits)
  then show ?thesis using spends_put [OF assms(2)] costs_cancel by fastforce
qed

lemma mark_cancel_registry [simp]: "om_registry (mark_cancel_sent i s) = om_registry s"
  by (simp add: mark_cancel_sent_def put_order_def)

lemma cancel_spends: "spends v (Suc 0) s (snd (cancel (sim_client draw) i s))"
proof (cases "registry_get (om_registry s) (venue_of i)")
  case None
  then show ?thesis by (auto simp: cancel_def intro: spends_same)
next
  case (Some ex)
  obtain r t where c: "call_cancel (sim_client draw) i ex s = (r, t)" by (cases "call_cancel (sim_client draw) i ex s")
  have t: "spends v (Suc 0) s t" by (rule call_cancel_spends [OF c Some])
  have "spends v (Suc 0) s u" if "om_registry u = om_registry t" for u
    using t that by (simp add: spends_def venue_get_def)
  with Some c show ?thesis by (auto simp: cancel_def intro: spends_same simp del: append.simps)
qed

lemma cancel_working_spends:
  "spends v (length (om_live_iter s (om_live s))) s (cancel_working_orders (sim_client draw) s)"
proof -
  have one: "spends v (Suc 0) t (cancel_working_one (sim_client draw) t i)" for t i
  proof (cases "registry_get (om_registry t) (venue_of i)")
    case None
    then show ?thesis by (auto simp: cancel_working_one_def Let_def intro: spends_same)
  next
    case (Some ex)
    obtain r u where c: "call_cancel (sim_client draw) i ex t = (r, u)" by (cases "call_cancel (sim_client draw) i ex t")
    have u: "spends v (Suc 0) t u" by (rule call_cancel_spends [OF c Some])
    have "spends v (Suc 0) t w" if "om_registry w = om_registry u" for w
      using u that by (simp add: spends_def venue_get_def)
    with Some c show ?thesis by (auto simp: cancel_working_one_def Let_def intro: spends_same)
  qed
  have "spends v (length ids) t (foldl (cancel_working_one (sim_client draw)) t ids)" for ids t
    by (induction ids arbitrary: t) (auto simp: spends_same intro: spends_trans [OF one, simplified])
  then show ?thesis by (simp add: cancel_working_orders_def)
qed

lemma place_reserved_registry:
  "place_reserved ops req v ex i s = Inr (j, s')
   \<Longrightarrow> om_registry s' = registry_put v (snd (ec_place_order ops (order_ref s i) ex)) (om_registry s)"
  unfolding place_reserved_def Let_def
  by (auto simp: ebind_Inr_iff own_trades_def put_order_def om_log_line_def simp del: append.simps
      split: prod.splits if_splits dest!: retire_own with_health_own [where i = i])

section \<open>The budget\<close>

text \<open>
  \<open>n\<close> calls were made. A call costs at most \<open>2 ^ 17\<close>: when every venue is down a submit cancels
  every live order, of which there are no more than slots.
\<close>

definition funded :: "VenueId \<Rightarrow> nat \<Rightarrow> 'g SimulatedExchange OrderManager \<Rightarrow> bool" where
  "funded v n s \<longleftrightarrow> orders_sent v s \<le> n \<and> capacity (om_pool s) \<le> 2 ^ 17 \<and> (\<forall>A. distinct (om_live_iter s A))
     \<and> v \<in> set (om_router s)
     \<and> (\<exists>x. venue_get v s = Some x \<and> sx_connected x \<and> order_cost (sx_cfg x) \<le> 2 ^ 17
          \<and> unat (sx_trade_counter x) \<le> n * 2 ^ 17 \<and> unat (sx_seq_counter x) \<le> n * 2 ^ 17)"

lemma funded_mono: "funded v n s \<Longrightarrow> n \<le> m \<Longrightarrow> funded v m s"
  unfolding funded_def by (meson le_trans mult_le_mono1)

lemma funded_room:
  assumes "funded v n s" and "n < 2 ^ 15"
  shows "Suc (orders_sent v s) < 2 ^ 16" and "venue_get v s = Some x \<Longrightarrow> counters_ok x"
  using assms by (auto simp: funded_def counters_ok_def order_cost_def Let_def)

lemma funded_spends:
  assumes f: "funded v n s" and sp: "spends v m s s'" and m: "m \<le> k * 2 ^ 17"
    and "orders_sent v s' \<le> n + k" and "capacity (om_pool s') = capacity (om_pool s)" and "om_live_iter s' = om_live_iter s"
    and "om_router s' = om_router s"
  shows "funded v (n + k) s'"
proof -
  obtain x where x: "venue_get v s = Some x" "sx_connected x" "order_cost (sx_cfg x) \<le> 2 ^ 17"
      "unat (sx_trade_counter x) \<le> n * 2 ^ 17" "unat (sx_seq_counter x) \<le> n * 2 ^ 17"
    using f by (auto simp: funded_def)
  obtain x' where x': "venue_get v s' = Some x'" "costs m x x'" using sp x(1) by (auto simp: spends_def)
  with x m have "sx_connected x' \<and> order_cost (sx_cfg x') \<le> 2 ^ 17
      \<and> unat (sx_trade_counter x') \<le> (n + k) * 2 ^ 17 \<and> unat (sx_seq_counter x') \<le> (n + k) * 2 ^ 17"
    by (auto simp: costs_def)
  with f x'(1) assms(4-7) show ?thesis by (simp add: funded_def)
qed

lemma live_fits:
  assumes inv: "om_inv s"
  shows "card (om_live s) \<le> capacity (om_pool s)"
proof -
  note core = om_inv_core [OF inv]
  have "inj_on slot_of (om_live s)" using core_slot_inj [OF core] by (auto simp: inj_on_def)
  moreover have "slot_of ` om_live s \<subseteq> {..<capacity (om_pool s)}"
    using om_live_current [OF inv] is_current_capacity by blast
  ultimately have "card (om_live s) \<le> card {..<capacity (om_pool s)}" by (rule card_inj_on_le) simp
  then show ?thesis by simp
qed

lemma funded_live:
  assumes "om_inv s" and "funded v n s"
  shows "length (om_live_iter s (om_live s)) \<le> 2 ^ 17"
proof -
  have "length (om_live_iter s (om_live s)) = card (om_live s)"
    using assms distinct_card [of "om_live_iter s (om_live s)"] om_inv_iter [OF assms(1)] by (simp add: funded_def)
  with live_fits [OF assms(1)] assms(2) show ?thesis by (simp add: funded_def)
qed

section \<open>Whose orders the venue still speaks of\<close>

text \<open>The worker index of the algo an order belongs to, in the order's first scratch slot.\<close>

definition tag :: "Order \<Rightarrow> int" where
  "tag ord = o_int_data ord ! 0"

definition owned :: "VenueId \<Rightarrow> int \<Rightarrow> int \<Rightarrow> 'g SimulatedExchange OrderManager \<Rightarrow> bool" where
  "owned v D R s \<longleftrightarrow> (\<forall>x i. venue_get v s = Some x \<longrightarrow> i \<in> om_live s \<or> (\<exists>ev \<in> set (sx_queue x). se_id ev = i)
     \<longrightarrow> is_current i (om_pool s) \<longrightarrow> D < tag (order_ref s i) \<and> tag (order_ref s i) \<le> R)"

definition all_open :: "'e OrderManager \<Rightarrow> bool" where
  "all_open s \<longleftrightarrow> (\<forall>i \<in> om_live s. 0 < remaining (order_ref s i))"

definition known :: "VenueId \<Rightarrow> 'g SimulatedExchange OrderManager \<Rightarrow> OrderIdRaw set" where
  "known v s = (case venue_get v s of None \<Rightarrow> {} | Some x \<Rightarrow> dom (sx_working x))"

lemma settles_current:
  assumes "settles s s'" and "pool_inv (om_pool s)" and "is_current i (om_pool s')"
  shows "is_current i (om_pool s)" and "tag (order_ref s' i) = tag (order_ref s i)"
proof -
  have ev: "evolves (om_pool s) (om_pool s')" using assms(1,2) by (simp add: settles_def)
  then have "slot_of i < capacity (om_pool s)" using is_current_capacity [OF assms(3)] by (simp add: evolves_def)
  with ev have "(slot_live (om_pool s') (slot_of i) = slot_live (om_pool s) (slot_of i)
        \<and> generation (om_pool s') ! slot_of i = generation (om_pool s) ! slot_of i
        \<and> o_int_data (pool_at (om_pool s') (slot_of i)) = o_int_data (pool_at (om_pool s) (slot_of i)))
     \<or> \<not> slot_live (om_pool s') (slot_of i)" unfolding evolves_def by blast
  with assms(3) show "is_current i (om_pool s)" "tag (order_ref s' i) = tag (order_ref s i)"
    by (auto simp: is_current_iff tag_def order_ref_def)
qed

lemma owned_settles:
  assumes ow: "owned v D R s" and set: "settles s s'" and inv: "pool_inv (om_pool s)"
    and origin: "\<And>x' i. venue_get v s' = Some x' \<Longrightarrow> i \<in> om_live s' \<or> (\<exists>ev \<in> set (sx_queue x'). se_id ev = i)
      \<Longrightarrow> \<exists>x. venue_get v s = Some x \<and> (i \<in> om_live s \<or> (\<exists>ev \<in> set (sx_queue x). se_id ev = i))"
  shows "owned v D R s'"
  unfolding owned_def
proof (intro allI impI)
  fix x' i
  assume a: "venue_get v s' = Some x'" "i \<in> om_live s' \<or> (\<exists>ev \<in> set (sx_queue x'). se_id ev = i)" "is_current i (om_pool s')"
  note c = settles_current [OF set inv a(3)]
  show "D < tag (order_ref s' i) \<and> tag (order_ref s' i) \<le> R"
    using ow origin [OF a(1,2)] c by (auto simp: owned_def)
qed

lemma owned_mono: "owned v D R s \<Longrightarrow> D' \<le> D \<Longrightarrow> R \<le> R' \<Longrightarrow> owned v D' R' s"
  unfolding owned_def by (meson le_less_trans order_trans)

lemma spends_known: "spends v m s s' \<Longrightarrow> known v s \<subseteq> known v s'"
  by (fastforce simp: spends_def known_def costs_def split: option.splits)

lemma live_in_known: "world_ok v s \<Longrightarrow> om_live s \<subseteq> known v s"
  by (fastforce simp: world_ok_def known_def agrees_def)

lemma known_genuine:
  assumes "world_ok v s" and "i \<in> known v s"
  shows "genuine s i"
proof -
  obtain x where x: "venue_get v s = Some x" "ids_ok (om_pool s) (orders_sent v s) {i. venue_knows x i}"
    using assms(1) by (auto simp: world_ok_def)
  with assms(2) show ?thesis by (auto simp: known_def venue_knows_def intro!: ids_genuine)
qed

section \<open>Steady states\<close>

text \<open>
  The venue agrees with the manager, every live order has a remainder and belongs to a worker
  above \<open>D\<close> and up to \<open>R\<close>, and \<open>n\<close> calls were made.
\<close>

definition steady :: "SimConfig \<Rightarrow> VenueId \<Rightarrow> int \<Rightarrow> int \<Rightarrow> nat \<Rightarrow> 'g SimulatedExchange OrderManager \<Rightarrow> bool" where
  "steady cfg v D R n s \<longleftrightarrow> world_live cfg v s \<and> all_open s \<and> owned v D R s \<and> funded v n s"

lemma steady_ok: "steady cfg v D R n s \<Longrightarrow> world_ok v s"
  by (simp add: steady_def world_live_def)

lemma steady_mono: "steady cfg v D R n s \<Longrightarrow> D' \<le> D \<Longrightarrow> R \<le> R' \<Longrightarrow> n \<le> m \<Longrightarrow> steady cfg v D' R' m s"
  unfolding steady_def by (meson funded_mono owned_mono)

text \<open>With the queue empty there is no open order, so the next workers can start.\<close>

lemma steady_idle:
  assumes st: "steady cfg v D R n s" and x: "venue_get v s = Some x" and empty: "sx_queue x = []"
  shows "om_live s = {}" and "steady cfg v D' R' n s"
proof -
  have live: "world_live cfg v s" using st by (simp add: steady_def)
  show "om_live s = {}"
    using drained_idle(1) [OF live x empty] st by (force simp: steady_def all_open_def)
  with st x empty show "steady cfg v D' R' n s" by (simp add: steady_def owned_def)
qed

lemma settles_funded_frame:
  assumes "settles s s'" and "pool_inv (om_pool s)"
  shows "orders_sent v s' = orders_sent v s" and "capacity (om_pool s') = capacity (om_pool s)" and "om_live_iter s' = om_live_iter s"
    and "om_router s' = om_router s"
  using assms by (simp_all add: settles_def evolves_def orders_sent_def)

lemma quiet_steady:
  assumes st: "steady cfg v D R n s" and q: "quiet_step s s'" and live: "world_live cfg v s'"
    and sp: "spends v m s s'" and m: "m \<le> k * 2 ^ 17"
  shows "steady cfg v D R (n + k) s'"
proof -
  have inv: "pool_inv (om_pool s)" by (rule om_inv_pool [OF world_ok_inv [OF steady_ok [OF st]]])
  have set: "settles s s'" and und: "undisturbed s s'" and noise: "reg_noise (om_live s) (om_registry s) (om_registry s')"
    using q by (simp_all add: quiet_step_def)
  obtain x where x: "venue_get v s = Some x" using st by (auto simp: steady_def world_live_def)
  obtain x' where x': "venue_get v s' = Some x'" "noise (om_live s) x x'" by (rule reg_noise_at [OF noise x])
  have "all_open s'" using st und by (auto simp: steady_def all_open_def undisturbed_def econ_def remaining_def)
  moreover have "owned v D R s'"
  proof (rule owned_settles [OF _ set inv])
    show "owned v D R s" using st by (simp add: steady_def)
    fix y i assume "venue_get v s' = Some y" "i \<in> om_live s' \<or> (\<exists>ev \<in> set (sx_queue y). se_id ev = i)"
    then show "\<exists>x. venue_get v s = Some x \<and> (i \<in> om_live s \<or> (\<exists>ev \<in> set (sx_queue x). se_id ev = i))"
      using x x' und by (auto simp: noise_def undisturbed_def)
  qed
  moreover have "funded v (n + k) s'"
    using funded_spends [OF _ sp m] settles_funded_frame [OF set inv] st by (simp add: steady_def funded_def)
  ultimately show ?thesis using live by (simp add: steady_def)
qed

lemma cancel_steady:
  assumes st: "steady cfg v D R n s" and i: "i \<in> known v s" and step: "0 \<le> sc_step_ns cfg"
  shows "steady cfg v D R (Suc n) (snd (cancel (sim_client draw) i s))"
    and "known v s \<subseteq> known v (snd (cancel (sim_client draw) i s))"
proof -
  note ok = steady_ok [OF st]
  obtain b s' where c: "cancel (sim_client draw) i s = (b, s')" by (cases "cancel (sim_client draw) i s")
  note gen = known_genuine [OF ok i]
  have "world_live cfg v s'"
    by (rule world_step_live [OF ws_cancel [OF gen c] _ step]) (use st in \<open>simp add: steady_def\<close>)
  from quiet_steady [OF st cancel_step [OF ok gen c] this, of 1 1] cancel_spends [of v s draw i] c
  show "steady cfg v D R (Suc n) (snd (cancel (sim_client draw) i s))" by simp
  show "known v s \<subseteq> known v (snd (cancel (sim_client draw) i s))" by (rule spends_known [OF cancel_spends])
qed

lemma steady_registered: "steady cfg v D R n s \<Longrightarrow> v \<in> hm_registered (om_health s)"
  using world_ok_inv [OF steady_ok, of cfg v D R n s] by (auto simp: steady_def funded_def om_inv_def)

section \<open>Submitting\<close>

text \<open>A reserved order carries its worker's index; ids naming another slot name what they named.\<close>

lemma reserve_frame:
  assumes res: "reserve_order req v s = Inr (i, s1)" and inv: "pool_inv (om_pool s)" and off: "rq_worker_offset req = 0"
  shows "om_registry s1 = om_registry s" and "om_live_iter s1 = om_live_iter s \<and> om_router s1 = om_router s" and "om_live s1 = insert i (om_live s)"
    and "capacity (om_pool s1) = capacity (om_pool s)" and "orders_sent v s1 \<le> Suc (orders_sent v s)"
    and "is_current k (om_pool s1) \<Longrightarrow> tag (order_ref s1 k) = rq_worker_index req
      \<or> k \<noteq> i \<and> is_current k (om_pool s) \<and> tag (order_ref s1 k) = tag (order_ref s k)"
proof -
  let ?seq = "map_get 0 (om_venue_seq s) v + 1"
  obtain slot p ord where r: "acquire (om_pool s) = Inr (slot, p)"
      "i = encode_order_id v (generation p ! slot) (word_of_nat slot) (ucast ?seq)"
      "fill_in_order req i (om_clock s) (pool_at p slot) = Inr ord"
      "om_pool s1 = pool_put slot ord p" "om_venue_seq s1 = (om_venue_seq s)(v \<mapsto> ?seq)"
      "om_registry s1 = om_registry s" "om_live_iter s1 = om_live_iter s \<and> om_router s1 = om_router s"
      "om_live s1 = insert i (om_live s)"
    using res unfolding reserve_order_def by (auto simp: Let_def ebind_Inr_iff)
  note a = acquire_cases [OF inv r(1)]
  show "om_registry s1 = om_registry s" "om_live_iter s1 = om_live_iter s \<and> om_router s1 = om_router s" "om_live s1 = insert i (om_live s)"
    by (fact r)+
  show "capacity (om_pool s1) = capacity (om_pool s)" by (simp add: r(4) a(4))
  show "orders_sent v s1 \<le> Suc (orders_sent v s)" using unat_add_1_le by (simp add: orders_sent_def r(5) map_get_def)
  have len: "length (slots (om_pool s)) = capacity (om_pool s)" "length (allocated (om_pool s)) = capacity (om_pool s)"
    using inv by (simp_all add: pool_inv_def)
  have "pool_at p slot = default_order" using a(2,7) len by (simp add: pool_at_def)
  then have tag: "tag ord = rq_worker_index req"
    using r(3) off by (auto simp: fill_in_order_def store_int_data_def tag_def default_order_def kScratchSlots_def)
  have "slot < 2 ^ 24" using a(2) inv by (simp add: pool_inv_def)
  then have slot: "slot_of i = slot" by (simp add: r(2) slot_of_encode)
  show "tag (order_ref s1 k) = rq_worker_index req
      \<or> k \<noteq> i \<and> is_current k (om_pool s) \<and> tag (order_ref s1 k) = tag (order_ref s k)"
    if k: "is_current k (om_pool s1)"
  proof (cases "slot_of k = slot")
    case True
    then show ?thesis using tag a(2,4,7) len by (simp add: order_ref_def r(4) pool_at_def pool_put_def)
  next
    case False
    have "is_current k (om_pool s)"
      using k False a len by (auto simp: r(4) is_current_iff slot_live_def nth_list_update)
    moreover have "order_ref s1 k = order_ref s k"
      using False a(7) by (simp add: order_ref_def r(4) pool_at_def pool_put_def)
    ultimately show ?thesis using slot False by auto
  qed
qed

lemma retire_live: "retire i inst q sd s = Inr s' \<Longrightarrow> om_live s' = om_live s - {i}"
  unfolding retire_def Let_def by (auto simp: ebind_Inr_iff split: if_splits)

lemma with_health_live: "with_health f s = Inr s' \<Longrightarrow> om_live s' = om_live s"
  by (auto simp: with_health_def ebind_Inr_iff)

lemma place_reserved_live: "place_reserved ops req v ex i s = Inr (j, s') \<Longrightarrow> om_live s' \<subseteq> om_live s"
  unfolding place_reserved_def Let_def
  by (auto simp: ebind_Inr_iff put_order_def om_log_line_def simp del: append.simps
      split: prod.splits if_splits dest!: retire_live with_health_live)

text \<open>What the venue schedules for an order is about that order.\<close>

lemma schedule_fills_ids:
  "ev \<in> set (sx_queue (schedule_fills draw oid whole price base c k i a x))
   \<Longrightarrow> ev \<in> set (sx_queue x) \<or> se_id ev = oid"
proof (induction k arbitrary: i a x)
  case (Suc k)
  then show ?case
    by (auto simp: Let_def schedule_set sim_draw_def sim_event_def split: if_splits prod.splits dest!: Suc.IH)
qed simp

lemma place_ids:
  "sim_place_order draw ord x = (r, x') \<Longrightarrow> ev \<in> set (sx_queue x') \<Longrightarrow> ev \<in> set (sx_queue x) \<or> se_id ev = o_internal_id ord"
  by (auto simp: sim_place_order_def sim_schedule_order_def sim_book_order_def Let_def schedule_set sim_draw_def sim_event_def
      split: if_splits prod.splits dest!: schedule_fills_ids)

lemma submit_spends:
  assumes inv: "om_inv s" and f: "funded v n s" and req: "valid_request req" and off: "rq_worker_offset req = 0"
    and sub: "submit (sim_client draw) req s = Inr (j, s')" and cfg: "\<And>u x. registry_get (om_registry s) u = Some x \<Longrightarrow> u = v"
  shows "spends v (2 ^ 17) s s'"
proof (rule submit_cases [OF inv req, of "sim_client draw"])
  fix line
  assume all_down: "submit (sim_client draw) req s = Inr (0, cancel_working_orders (sim_client draw)
      (om_log_line LogError line (s\<lparr>om_rebalance_incomplete := True\<rparr>)))"
  define t where "t = om_log_line LogError line (s\<lparr>om_rebalance_incomplete := True\<rparr>)"
  have s': "s' = cancel_working_orders (sim_client draw) t" using all_down sub by (simp add: t_def)
  have "spends v 0 s t" by (rule spends_same) (simp add: t_def)
  from spends_trans [OF this cancel_working_spends [of v t draw]]
  have "spends v (length (om_live_iter s (om_live s))) s s'" by (simp add: s') (simp add: t_def om_log_line_def)
  then show ?thesis using funded_live [OF inv f] by (rule spends_mono)
next
  fix venue ex i s1 r ex'
  assume a: "registry_get (om_registry s) venue = Some ex" "reserve_order req venue s = Inr (i, s1)"
    "place_reserved (sim_client draw) req venue ex i s1 = submit (sim_client draw) req s"
  have ven: "venue = v" by (rule cfg [OF a(1)])
  have x: "venue_get v s = Some ex" using a(1) ven by (simp add: venue_get_def)
  have pool: "pool_inv (om_pool s)" by (rule om_inv_pool [OF inv])
  obtain r' y where y: "sim_place_order draw (order_ref s1 i) ex = (r', y)" by (cases "sim_place_order draw (order_ref s1 i) ex")
  have "om_registry s' = registry_put v y (om_registry s)"
    using place_reserved_registry [of "sim_client draw" req venue ex i s1 j s'] a(3) sub y ven
      reserve_frame(1) [OF a(2) pool off] by (simp add: sim_client_def)
  moreover have "costs (2 ^ 17) ex y"
    using costs_mono [OF costs_place [OF y]] f x by (simp add: funded_def)
  ultimately show ?thesis using spends_put a(1) ven by blast
qed (use sub in \<open>auto intro: spends_same\<close>)

lemma all_open_left: "om_inv s \<Longrightarrow> all_open s \<longleftrightarrow> (\<forall>i r. open_left s i = Some r \<longrightarrow> 0 < r)"
  by (auto simp: all_open_def open_left_def)

lemma submit_all_open:
  assumes inv: "om_inv s" and req: "valid_request req" "0 < rq_size req" and op: "all_open s"
    and sub: "submit ops req s = Inr (j, s')"
  shows "all_open s'"
proof -
  have inv': "om_inv s'" by (rule submit_open_left(1) [OF inv req(1) sub])
  have old: "\<And>i r. open_left s i = Some r \<Longrightarrow> 0 < r" using op all_open_left [OF inv] by blast
  from submit_ledger [OF inv req(1) sub] have "0 < r" if "open_left s' i = Some r" for i r
  proof
    assume "ledger_of s' = ledger_of s \<and> om_live s' = om_live s"
    then have "open_left s' = open_left s" by (intro same_ledger_open_left) blast
    then show ?thesis using old [of i r] that by metis
  next
    assume a: "j \<notin> om_live s \<and> om_live s' = insert j (om_live s)
      \<and> ledger_of s' = ledger_open j (rq_instrument req) (rq_side req) (rq_size req) (ledger_of s)"
    then have "open_left s' i = (if i = j then Some (rq_size req) else open_left s i)"
      by (simp add: open_left_ledger ledger_open_def)
    with that old req(2) show ?thesis by (auto split: if_splits)
  qed
  then show ?thesis using all_open_left [OF inv'] by blast
qed

lemma place_step_frame:
  assumes ok: "world_ok v s" and step: "place_step draw v req s s'" and ow: "owned v D R s"
    and req: "rq_worker_offset req = 0" "D < rq_worker_index req" "rq_worker_index req \<le> R"
  shows "owned v D R s'" and "orders_sent v s' \<le> Suc (orders_sent v s)"
    and "capacity (om_pool s') = capacity (om_pool s)" and "om_live_iter s' = om_live_iter s" and "om_router s' = om_router s"
proof -
  note inv = world_ok_inv [OF ok]
  note pool = om_inv_pool [OF inv]
  obtain i s1 x r x' j where a: "valid_request req" "venue_get v s = Some x"
      "\<not> pool_full (om_pool s)" "v \<in> hm_registered (om_health s)"
      "reserve_order req v s = Inr (i, s1)" "sim_place_order draw (order_ref s1 i) x = (r, x')"
      "place_reserved (sim_client draw) req v x i s1 = Inr (j, s')"
    using step unfolding place_step_def by blast
  note fr = reserve_frame [OF a(5) pool req(1)]
  have new: "pool_inv (om_pool s1) \<and> o_internal_id (order_ref s1 i) = i"
    by (rule reserve_order_ok [OF inv a(3,1,4)]) (use a(5) om_inv_pool in auto)
  have set: "settles s1 s'" by (rule place_reserved_settles [OF a(7)])
  note sf = settles_funded_frame [OF set conjunct1 [OF new]]
  show "orders_sent v s' \<le> Suc (orders_sent v s)" "capacity (om_pool s') = capacity (om_pool s)"
    "om_live_iter s' = om_live_iter s" "om_router s' = om_router s" using fr(2,4,5) sf by simp_all
  have at: "venue_get v s' = Some x'"
    using place_reserved_registry [OF a(7)] a(2,6) fr(1)
    by (simp add: venue_get_def sim_client_def registry_get_put_same)
  show "owned v D R s'" unfolding owned_def
  proof (intro allI impI)
    fix y k
    assume k: "venue_get v s' = Some y" "k \<in> om_live s' \<or> (\<exists>ev \<in> set (sx_queue y). se_id ev = k)" "is_current k (om_pool s')"
    have "k \<in> om_live s \<or> (\<exists>ev \<in> set (sx_queue x). se_id ev = k) \<or> k = i"
      using k(1,2) at place_ids [OF a(6)] place_reserved_live [OF a(7)] fr(3) new by auto
    moreover note c = settles_current [OF set conjunct1 [OF new] k(3)]
    ultimately show "D < tag (order_ref s' k) \<and> tag (order_ref s' k) \<le> R"
      using fr(6) [OF c(1)] c(2) ow a(2) req(2,3) by (auto simp: owned_def)
  qed
qed

text \<open>The requests an algo with worker index above \<open>D\<close> and up to \<open>R\<close> makes.\<close>

definition worker_request :: "int \<Rightarrow> int \<Rightarrow> OrderRequest \<Rightarrow> bool" where
  "worker_request D R req \<longleftrightarrow> 0 < rq_size req \<and> 0 < rq_price req \<and> rq_worker_offset req = 0
     \<and> D < rq_worker_index req \<and> rq_worker_index req \<le> R"

lemma worker_request_valid: "worker_request D R req \<Longrightarrow> valid_request req"
  by (simp add: worker_request_def valid_request_def)

lemma submit_steady:
  assumes st: "steady cfg v D R n s" and n: "n < 2 ^ 15" and req: "worker_request D R req" and adv: "0 \<le> sc_step_ns cfg"
  obtains j s' where "submit (sim_client draw) req s = Inr (j, s')" and "steady cfg v D R (Suc n) s'"
    and "known v s \<subseteq> known v s'" and "j \<noteq> 0 \<Longrightarrow> j \<in> known v s'"
proof -
  note ok = steady_ok [OF st]
  note inv = world_ok_inv [OF ok] and valid = worker_request_valid [OF req]
  have r: "0 < rq_size req" "0 < rq_price req" "rq_worker_offset req = 0" "D < rq_worker_index req" "rq_worker_index req \<le> R"
    using req by (simp_all add: worker_request_def)
  have f: "funded v n s" and live: "world_live cfg v s" and op: "all_open s" and ow: "owned v D R s"
    using st by (simp_all add: steady_def)
  note room = funded_room [OF f n]
  obtain j s' where sub: "submit (sim_client draw) req s = Inr (j, s')" by (rule submit_ok [OF inv valid])
  have step: "world_step draw v s s'" by (rule ws_submit [OF valid r(2) room(1) room(2) sub])
  have live': "world_live cfg v s'" by (rule world_step_live [OF step live adv])
  have only: "\<And>u x. registry_get (om_registry s) u = Some x \<Longrightarrow> u = v"
    using ok by (force simp: world_ok_def venue_get_def)
  have sp: "spends v (2 ^ 17) s s'" by (rule submit_spends [OF inv f valid r(3) sub only])
  have "steady cfg v D R (Suc n) s'"
  proof (cases "quiet_step s s'")
    case True
    from quiet_steady [OF st True live' sp, of 1] show ?thesis by simp
  next
    case False
    then have pl: "place_step draw v req s s'" using submit_step [OF ok valid r(2) room(1) room(2) sub] by blast
    note fr = place_step_frame [OF ok pl ow r(3-5)]
    have "funded v (n + 1) s'"
      by (rule funded_spends [OF f sp]) (use fr(2-5) f in \<open>simp_all add: funded_def\<close>)
    with live' fr(1) submit_all_open [OF inv valid r(1) op sub] show ?thesis by (simp add: steady_def)
  qed
  moreover have "j \<in> known v s'" if "j \<noteq> 0"
    using submit_nonzero [OF inv valid sub that] live_in_known [OF world_step_ok [OF step ok]] by blast
  ultimately show ?thesis using that sub spends_known [OF sp] by blast
qed

section \<open>Polling\<close>

text \<open>A handler publishes events of the order it was called for, with a state of its own making.\<close>

fun call_id :: "SinkCall \<Rightarrow> OrderIdRaw" where
  "call_id (CallConfirm i x ts) = i"
| "call_id (CallFill i q p t ts) = i"
| "call_id (CallReject i r ts) = i"
| "call_id (CallCancelAck i ts) = i"
| "call_id (CallUnsolicited i ts) = i"

lemma finish_cancel_events:
  "finish_cancel i ts k pub uns s = Inr (s', evs) \<Longrightarrow> (e, om) \<in> set evs \<Longrightarrow> ev_internal_id e = i \<and> settles s om"
  unfolding finish_cancel_def
  by (auto simp: handler_unfolds mk_event_def simp del: append.simps split: if_splits intro: settles_put)

lemma on_reject_events:
  "on_reject i r ts s = Inr (s', evs) \<Longrightarrow> (e, om) \<in> set evs \<Longrightarrow> ev_internal_id e = i \<and> settles s om"
  unfolding on_reject_def
  by (auto simp: handler_unfolds mk_event_def simp del: append.simps split: if_splits intro: settles_put)

lemma on_confirm_events:
  "on_confirm i x ts s = Inr (s', evs) \<Longrightarrow> (e, om) \<in> set evs \<Longrightarrow> ev_internal_id e = i \<and> settles s om"
  unfolding on_confirm_def
  by (auto simp: handler_unfolds mk_event_def split: if_splits intro: settles_put)

lemma on_fill_events:
  "on_fill i q p t ts s = Inr (s', evs) \<Longrightarrow> (e, om) \<in> set evs \<Longrightarrow> ev_internal_id e = i \<and> settles s om"
  unfolding on_fill_def book_fill_def
  by (auto simp: handler_unfolds mk_event_def filled_order_fields filled_order_int_data simp del: append.simps
      split: if_splits intro: settles_put)

lemma sink_call_events:
  "sink_call c s = Inr (s', evs) \<Longrightarrow> (e, om) \<in> set evs \<Longrightarrow> ev_internal_id e = call_id c \<and> settles s om"
  by (cases c)
    (auto simp: on_cancel_ack_def on_unsolicited_cancel_def
      dest: on_confirm_events on_fill_events on_reject_events finish_cancel_events)

definition published_to :: "int \<Rightarrow> int \<Rightarrow> 'e published \<Rightarrow> bool" where
  "published_to D R evs \<longleftrightarrow> (\<forall>(e, om) \<in> set evs. \<forall>ord. find_order om (ev_internal_id e) = Some ord
     \<longrightarrow> D < tag ord \<and> tag ord \<le> R)"

lemma published_to_append [simp]: "published_to D R (evs @ evs') \<longleftrightarrow> published_to D R evs \<and> published_to D R evs'"
  by (auto simp: published_to_def)

lemma published_to_Nil [simp]: "published_to D R []"
  by (simp add: published_to_def)

lemma deliver_steady:
  assumes st: "steady cfg v D R n s" and x: "venue_get v s = Some x" and q: "sx_queue x = ev # rest"
    and del: "sim_deliver ev (x\<lparr>sx_queue := rest\<rparr>) = (calls, x1)"
    and call: "sink_calls calls (venue_put v x1 s) = Inr (s1, evs)"
  shows "steady cfg v D R n s1" and "published_to D R evs" and "spends v 0 s s1"
proof -
  let ?t = "venue_put v x1 s"
  note ok = steady_ok [OF st]
  have a: "venue_ok x" "agrees x s" "om_inv s" "ids_ok (om_pool s) (orders_sent v s) {i. venue_knows x i}"
    and f: "funded v n s" and live: "world_live cfg v s" and op: "all_open s" and ow: "owned v D R s"
    using ok x st by (auto simp: world_ok_def steady_def)
  note pool = om_inv_pool [OF a(3)]
  obtain c where c: "calls = [c]"
    using sim_deliver_call [of "x\<lparr>sx_queue := rest\<rparr>" ev] del a(1) by (auto simp: venue_ok_def)
  have id: "call_id c = se_id ev" using del by (auto simp: c sim_deliver_def split: if_splits EvType.splits)
  have call: "sink_call c ?t = Inr (s1, evs)" using call by (auto simp: c split: sum.splits)
  have step: "deliver_step v s s1" unfolding deliver_step_def using x q del c call by blast
  have set: "settles ?t s1" by (rule sink_call_settles [OF call])
  have pool': "pool_inv (om_pool ?t)" using pool by simp
  note sf = settles_funded_frame [OF set pool']
  have at: "venue_get v s1 = Some x1" using sink_call_registry [OF call] venue_put_get(1) [OF x] by (simp add: venue_get_def)
  have gen: "genuine ?t (se_id ev)" using ids_genuine [OF a(4)] q by (simp add: venue_knows_def)
  have t: "agrees x ?t" "om_inv ?t" using a(2,3) by simp_all
  have t': "om_live ?t = om_live s" "order_ref ?t = order_ref s"
    by (simp_all add: venue_put_def order_ref_def fun_eq_iff)
  note t = t t'
  have leaves: "k \<in> om_live s \<and> 0 < remaining (order_ref s1 k)" if k: "k \<in> om_live s1" for k
    using deliver_leaves [OF t(1,2) a(1) q gen del [unfolded c] call k] op t(3,4)
    by (auto simp: spares_def takes_def all_open_def econ_def remaining_def Let_def)
  have "costs 0 (x\<lparr>sx_queue := rest\<rparr>) x1" by (rule costs_deliver [OF del])
  then have "costs 0 x x1" by (simp add: costs_def)
  then show sp: "spends v 0 s s1" using x at by (simp add: spends_def)
  have "owned v D R ?t" unfolding owned_def
  proof (intro allI impI)
    fix y i
    assume "venue_get v ?t = Some y" "i \<in> om_live ?t \<or> (\<exists>ev \<in> set (sx_queue y). se_id ev = i)" "is_current i (om_pool ?t)"
    then show "D < tag (order_ref ?t i) \<and> tag (order_ref ?t i) \<le> R"
      using ow x t(3,4) venue_put_get(1) [OF x, of x1] sim_deliver_frame [OF del] q by (auto simp: owned_def)
  qed
  then have "owned v D R s1"
    by (rule owned_settles [OF _ set]) (use pool at leaves t(3) venue_put_get(1) [OF x] in auto)
  moreover have "all_open s1" using leaves by (simp add: all_open_def)
  moreover have "funded v (n + 0) s1"
    by (rule funded_spends [OF f sp]) (use f sf in \<open>simp_all add: funded_def orders_sent_def\<close>)
  ultimately show "steady cfg v D R n s1" using world_live_deliver [OF live step] by (simp add: steady_def)
  have "D < tag ord \<and> tag ord \<le> R" if e_in: "(e, om) \<in> set evs" and found: "find_order om (ev_internal_id e) = Some ord"
    for e om ord
  proof -
    note e = sink_call_events [OF call e_in]
    have cur: "is_current (se_id ev) (om_pool om)" "ord = order_ref om (se_id ev)"
      using found e id by (auto simp: find_order_def split: if_splits)
    have "is_current (se_id ev) (om_pool s)" "tag ord = tag (order_ref s (se_id ev))"
      using settles_current [OF conjunct2 [OF e] pool' cur(1)] cur(2) t(4) by simp_all
    then show ?thesis using ow x q by (auto simp: owned_def)
  qed
  then show "published_to D R evs" by (auto simp: published_to_def)
qed

lemma pump_steady:
  "sim_pump v s = Inr (s', evs) \<Longrightarrow> steady cfg v D R n s
   \<Longrightarrow> steady cfg v D R n s' \<and> published_to D R evs \<and> spends v 0 s s'"
proof (induction v s arbitrary: s' evs rule: sim_pump.induct)
  case (1 v s)
  consider "sim_pump v s = Inr (s, [])"
    | x ev rest where "venue_get v s = Some x" "sx_queue x = ev # rest" "se_at ev \<le> sx_now x"
  proof (cases "\<exists>x ev rest. venue_get v s = Some x \<and> sx_queue x = ev # rest \<and> se_at ev \<le> sx_now x")
    case False
    then have "sim_pump v s = Inr (s, [])" by (auto simp: sim_pump.simps [of v s] split: option.splits list.splits)
    then show ?thesis by (rule that(1))
  qed (use that in blast)
  then show ?case
  proof cases
    case 1
    with "1.prems" show ?thesis by (simp add: spends_same)
  next
    case (2 x ev rest)
    obtain calls x1 where d: "sim_deliver ev (x\<lparr>sx_queue := rest\<rparr>) = (calls, x1)"
      by (cases "sim_deliver ev (x\<lparr>sx_queue := rest\<rparr>)")
    obtain s1 evs1 evs2 where s1: "sink_calls calls (venue_put v x1 s) = Inr (s1, evs1)"
      "sim_pump v s1 = Inr (s', evs2)" "evs = evs1 @ evs2"
      using "1.prems"(1) 2 d by (auto simp: sim_pump.simps [of v s] split: sum.splits)
    note del = deliver_steady [OF "1.prems"(2) 2(1,2) d s1(1)]
    have "steady cfg v D R n s' \<and> published_to D R evs2 \<and> spends v 0 s1 s'"
      by (rule "1.IH" [OF 2 d [symmetric] s1(1) refl s1(2) del(1)])
    with del(2,3) s1(3) spends_trans [of v 0 s s1 0 s'] show ?thesis by simp
  qed
qed

lemma poll_steady:
  assumes st: "steady cfg v D R n s" and x: "venue_get v s = Some x" and adv: "0 \<le> sc_step_ns cfg"
  obtains s' evs where "world_poll v s = Inr (s', evs)" and "steady cfg v D R n s'" and "published_to D R evs"
    and "known v s \<subseteq> known v s'" and "venue_get v s' = Some (snd (sim_poll x))"
proof -
  note ok = steady_ok [OF st]
  let ?now = "sx_now x + sc_step_ns (sx_cfg x)"
  let ?x = "x\<lparr>sx_now := ?now\<rparr>"
  let ?s1 = "venue_put v ?x s" and ?s2 = "set_om_clock ?now (venue_put v ?x s)"
  have steps: "world_step (\<lambda>p g. (False, g)) v s ?s1" "world_step (\<lambda>p g. (False, g)) v ?s1 ?s2"
    by (rule ws_advance [OF x], rule ws_clock)
  have live: "world_live cfg v ?s2"
    by (rule world_step_live [OF steps(2) world_step_live [OF steps(1) _ adv] adv]) (use st in \<open>simp add: steady_def\<close>)
  have at: "venue_get v ?s2 = Some ?x"
    using venue_put_get(1) [OF x, of ?x] by (simp add: venue_get_def set_om_clock_def)
  have same: "om_live ?s2 = om_live s" "om_pool ?s2 = om_pool s" "om_live_iter ?s2 = om_live_iter s"
    "om_router ?s2 = om_router s" "orders_sent v ?s2 = orders_sent v s" "order_ref ?s2 = order_ref s"
    by (simp_all add: venue_put_def set_om_clock_def orders_sent_def order_ref_def fun_eq_iff)
  have "all_open ?s2" "owned v D R ?s2" "funded v n ?s2"
    using st x at same by (simp_all add: steady_def all_open_def owned_def funded_def)
  with live have st2: "steady cfg v D R n ?s2" by (simp add: steady_def)
  obtain s' evs where poll: "world_poll v s = Inr (s', evs)" "venue_get v s' = Some (snd (sim_poll x))"
    by (rule world_poll_ok [OF ok x])
  then have pump: "sim_pump v ?s2 = Inr (s', evs)" using x by (simp add: world_poll_def Let_def)
  note p = pump_steady [OF pump st2]
  have "known v s = known v ?s2" using x at by (simp add: known_def)
  with p poll spends_known that show ?thesis by blast
qed

end
