(* ===== verification/Metrics.thy ===== *)
theory Metrics
  imports OrderManager ExecutionAlgo
begin

text \<open>
  \<^verbatim>\<open>include/oms/Metrics.h\<close>, \<^verbatim>\<open>src/Metrics.cpp\<close>: the execution-quality metrics. The collector refers
  to the manager, whose state at the event is an argument, and to a market data source that may be
  null. The summary is the text written to the file; how a stream prints a double is the parameter
  \<open>show_double\<close>.
\<close>

section \<open>Distributions\<close>

definition bps :: "Price \<Rightarrow> Price \<Rightarrow> int \<Rightarrow> int" where
  "bps avg ref sign =
     (if ref = 0 then 0
      else let diff = d_mul (of_i64 (avg - ref)) (of_i64 sign)
           in to_i64 (d_mul (d_div diff (of_i64 ref)) 10000))"

record Distribution =
  ds_buf :: "int RingBuffer"
  ds_sum :: int
  ds_count_all :: nat

definition dist_new :: "nat \<Rightarrow> Distribution" where
  "dist_new cap = \<lparr>ds_buf = ring_new cap, ds_sum = 0, ds_count_all = 0\<rparr>"

definition dist_add :: "int \<Rightarrow> Distribution \<Rightarrow> Distribution" where
  "dist_add v d = d\<lparr>ds_buf := ring_push v (ds_buf d), ds_sum := ds_sum d + v, ds_count_all := ds_count_all d + 1\<rparr>"

definition dist_count :: "Distribution \<Rightarrow> nat" where
  "dist_count d = ring_size (ds_buf d)"

definition dist_p :: "double \<Rightarrow> Distribution \<Rightarrow> int" where
  "dist_p q d = ring_percentile q (ds_buf d)"

definition dist_min :: "Distribution \<Rightarrow> int" where
  "dist_min d = dist_p 0 d"

definition dist_max :: "Distribution \<Rightarrow> int" where
  "dist_max d = dist_p 1 d"

definition dist_mean :: "Distribution \<Rightarrow> double" where
  "dist_mean d = (if ds_count_all d = 0 then 0 else d_div (of_i64 (ds_sum d)) (of_i64 (int (ds_count_all d))))"

section \<open>The collector\<close>

record MetricsCollector =
  mc_arrival_mid :: "OrderIdRaw \<rightharpoonup> Price"
  mc_ref_vwap :: "InstrumentId \<rightharpoonup> Price"
  mc_slip_arrival :: Distribution
  mc_slip_vwap :: Distribution
  mc_ttf :: Distribution
  mc_ack_latency :: Distribution
  mc_fill_rate :: Distribution
  mc_filled_orders :: u64
  mc_cycles :: u64
  mc_completed_cycles :: u64
  mc_demotions :: u64
  mc_recoveries :: u64
  mc_netting_saved :: int

definition metrics_new :: MetricsCollector where
  "metrics_new = \<lparr>mc_arrival_mid = Map.empty, mc_ref_vwap = Map.empty, mc_slip_arrival = dist_new 1024,
     mc_slip_vwap = dist_new 1024, mc_ttf = dist_new 1024, mc_ack_latency = dist_new 1024,
     mc_fill_rate = dist_new 4096, mc_filled_orders = 0, mc_cycles = 0, mc_completed_cycles = 0,
     mc_demotions = 0, mc_recoveries = 0, mc_netting_saved = 0\<rparr>"

definition metrics_on_confirmed ::
  "MarketDataSource option \<Rightarrow> OrderEvent \<Rightarrow> Order \<Rightarrow> MetricsCollector \<Rightarrow> MetricsCollector" where
  "metrics_on_confirmed mds e ord m =
     (let m1 = (case mds of
                  Some src \<Rightarrow>
                    if mc_arrival_mid m (ev_internal_id e) = None
                    then m\<lparr>mc_arrival_mid := (mc_arrival_mid m)
                             (ev_internal_id e \<mapsto> tob_mid (mds_top_of_book src (ev_instrument e)))\<rparr>
                    else m
                | None \<Rightarrow> m)
      in m1\<lparr>mc_ack_latency := dist_add (ts_confirmed (o_ts ord) - ts_sent (o_ts ord)) (mc_ack_latency m1)\<rparr>)"

definition metrics_on_filled :: "OrderEvent \<Rightarrow> Order \<Rightarrow> MetricsCollector \<Rightarrow> MetricsCollector" where
  "metrics_on_filled e ord m =
     (let m1 = m\<lparr>mc_filled_orders := mc_filled_orders m + 1\<rparr>;
          sign = (if o_side ord = Buy then 1 else - 1);
          avg = avg_fill_price ord;
          arrival = map_get 0 (mc_arrival_mid m1) (ev_internal_id e);
          m2 = (if arrival > 0
                then m1\<lparr>mc_slip_arrival := dist_add (bps avg arrival sign) (mc_slip_arrival m1)\<rparr> else m1);
          m3 = (case mc_ref_vwap m2 (ev_instrument e) of
                  Some v \<Rightarrow> if v > 0 then m2\<lparr>mc_slip_vwap := dist_add (bps avg v sign) (mc_slip_vwap m2)\<rparr> else m2
                | None \<Rightarrow> m2);
          m4 = (if ts_terminal (o_ts ord) \<ge> ts_created (o_ts ord)
                then m3\<lparr>mc_ttf := dist_add (ts_terminal (o_ts ord) - ts_created (o_ts ord)) (mc_ttf m3)\<rparr> else m3)
      in m4\<lparr>mc_arrival_mid := (mc_arrival_mid m4)(ev_internal_id e := None)\<rparr>)"

definition metrics_on_event ::
  "MarketDataSource option \<Rightarrow> OrderEvent \<Rightarrow> 'e OrderManager \<Rightarrow> MetricsCollector \<Rightarrow> MetricsCollector" where
  "metrics_on_event mds e om m =
     (case find_order om (ev_internal_id e) of
        None \<Rightarrow> m
      | Some ord \<Rightarrow>
          if o_reconciliation ord then m
          else case ev_kind e of
              EvConfirmed \<Rightarrow> metrics_on_confirmed mds e ord m
            | EvFill \<Rightarrow> metrics_on_filled e ord m
            | _ \<Rightarrow> m)"

definition set_reference_vwap :: "InstrumentId \<Rightarrow> Price \<Rightarrow> MetricsCollector \<Rightarrow> MetricsCollector" where
  "set_reference_vwap inst vwap m = m\<lparr>mc_ref_vwap := (mc_ref_vwap m)(inst \<mapsto> vwap)\<rparr>"

definition record_cycle :: "Quantity \<Rightarrow> Quantity \<Rightarrow> MetricsCollector \<Rightarrow> MetricsCollector" where
  "record_cycle target_abs filled_abs m =
     (let m1 = m\<lparr>mc_cycles := mc_cycles m + 1\<rparr>
      in if target_abs \<le> 0 then m1
         else
           let rate_bps = to_i64 (d_mul (d_div (of_i64 filled_abs) (of_i64 target_abs)) 10000);
               m2 = m1\<lparr>mc_fill_rate := dist_add rate_bps (mc_fill_rate m1)\<rparr>
           in if filled_abs \<ge> target_abs
              then m2\<lparr>mc_completed_cycles := mc_completed_cycles m2 + 1\<rparr> else m2)"

definition add_demotion :: "MetricsCollector \<Rightarrow> MetricsCollector" where
  "add_demotion m = m\<lparr>mc_demotions := mc_demotions m + 1\<rparr>"

definition add_recovery :: "MetricsCollector \<Rightarrow> MetricsCollector" where
  "add_recovery m = m\<lparr>mc_recoveries := mc_recoveries m + 1\<rparr>"

definition set_netting_saved :: "int \<Rightarrow> MetricsCollector \<Rightarrow> MetricsCollector" where
  "set_netting_saved n m = m\<lparr>mc_netting_saved := n\<rparr>"

definition completion_rate :: "MetricsCollector \<Rightarrow> double" where
  "completion_rate m =
     (if mc_cycles m = 0 then 0
      else d_div (of_i64 (uint (mc_completed_cycles m))) (of_i64 (uint (mc_cycles m))))"

section \<open>The summary\<close>

definition csv_row :: "string \<Rightarrow> Distribution \<Rightarrow> string" where
  "csv_row name d = name @ '','' @ to_string (dist_p (dbl (1 / 2)) d) @ '','' @ to_string (dist_p (dbl (99 / 100)) d)
     @ '','' @ to_string (dist_p (dbl (999 / 1000)) d) @ '','' @ to_string (dist_min d) @ '','' @ to_string (dist_max d)
     @ '','' @ to_string (int (dist_count d)) @ newline"

definition csv_counter :: "string \<Rightarrow> string \<Rightarrow> string" where
  "csv_counter name v = name @ '','' @ v @ newline"

definition summary_csv :: "(double \<Rightarrow> string) \<Rightarrow> 'e OrderManager \<Rightarrow> MetricsCollector \<Rightarrow> string" where
  "summary_csv show_double om m =
     (let num = (\<lambda>w :: u64. to_string (uint w)) in
      ''metric,p50,p99,p999,min,max,count'' @ newline
      @ csv_row ''slippage_arrival_bps'' (mc_slip_arrival m)
      @ csv_row ''slippage_vwap_bps'' (mc_slip_vwap m)
      @ csv_row ''time_to_fill_ns'' (mc_ttf m)
      @ csv_row ''ack_latency_ns'' (mc_ack_latency m)
      @ csv_row ''fill_rate_bps'' (mc_fill_rate m)
      @ newline @ ''counter,value'' @ newline
      @ csv_counter ''filled_orders'' (num (mc_filled_orders m))
      @ csv_counter ''cycles'' (num (mc_cycles m))
      @ csv_counter ''completed_cycles'' (num (mc_completed_cycles m))
      @ csv_counter ''rebalance_completion_rate'' (show_double (completion_rate m))
      @ csv_counter ''rejections'' (num (om_reject_count om))
      @ csv_counter ''ack_timeouts'' (num (om_ack_timeout_count om))
      @ csv_counter ''unsolicited_cancels'' (num (om_unsolicited_cancel_count om))
      @ csv_counter ''out_of_sequence_dropped'' (num (om_oos_dropped_count om))
      @ csv_counter ''false_cancel_rejects'' (num (om_false_cancel_reject_count om))
      @ csv_counter ''venue_demotions'' (num (mc_demotions m))
      @ csv_counter ''venue_recoveries'' (num (mc_recoveries m))
      @ csv_counter ''netting_saved_notional'' (to_string (mc_netting_saved m)))"

end
