(* ===== verification/Drivers.thy ===== *)
theory Drivers
  imports SimLive ExecutionAlgo Metrics Netting Reconciliation
begin

text \<open>
  \<^verbatim>\<open>sim/main.cpp\<close> and \<^verbatim>\<open>sim/bench.cpp\<close>: the end-to-end demo and the benchmark. The benchmark's
  rig is the wired pair, the collector and the dispatcher that subscribe to the manager, and the
  algos registered so far. The dispatcher keeps a pointer to every algo it was given; a cycle's
  algos are destroyed when the cycle ends, so a call through one of those pointers afterwards is the
  error \<open>DanglingAlgo\<close>. The texts of the files written are values of the functions.
\<close>

section \<open>The demo\<close>

definition demo_request :: OrderRequest where
  "demo_request = default_request\<lparr>rq_instrument := 42, rq_side := Buy, rq_size := 100, rq_price := 10000,
     rq_type := Limit\<rparr>"

text \<open>\<^verbatim>\<open>for (int i = 0; i < 10 && oms.find(id); ++i) sim_raw->poll();\<close>\<close>

fun demo_polls :: "nat \<Rightarrow> OrderIdRaw \<Rightarrow> 'g SimulatedExchange OrderManager \<Rightarrow> 'g SimulatedExchange OrderManager result" where
  "demo_polls 0 i s = Inr s"
| "demo_polls (Suc n) i s =
     (if find_order s i = None then Inr s
      else case world_poll 0 s of Inl e \<Rightarrow> Inl e | Inr (s', evs) \<Rightarrow> demo_polls n i s')"

definition demo_output :: "OrderIdRaw \<Rightarrow> 'e OrderManager \<Rightarrow> string" where
  "demo_output i s = ''submitted id='' @ id_str i @ newline
     @ ''position(42)='' @ to_string (pos_net (position s 42))
     @ '' pending(42)='' @ to_string (pending_quantity s 42) @ newline"

definition demo_main ::
  "(u64 \<Rightarrow> 'g) \<Rightarrow> (double \<Rightarrow> 'g \<Rightarrow> bool \<times> 'g) \<Rightarrow> (OrderIdRaw set \<Rightarrow> OrderIdRaw list)
     \<Rightarrow> (OrderIdRaw set \<Rightarrow> OrderIdRaw list) \<Rightarrow> Timestamp \<Rightarrow> string result" where
  "demo_main seed_rng draw wit lit wall =
     ebind (wire seed_rng draw wit lit default_sim_config (Some []) (Some []) kDefaultCapacity wall) (\<lambda>s0.
       ebind (submit (sim_client draw) demo_request s0) (\<lambda>(i, s1).
         ebind (demo_polls 10 i s1) (\<lambda>s2. Inr (demo_output i s2))))"

section \<open>The rig\<close>

record StaticMarketData =
  sm_books :: "InstrumentId \<rightharpoonup> TopOfBook"
  sm_vol_per_interval :: Quantity

definition static_source :: "StaticMarketData \<Rightarrow> MarketDataSource" where
  "static_source md = \<lparr>mds_top_of_book = (\<lambda>i. map_get empty_book (sm_books md) i),
     mds_volume_since = (\<lambda>i t. sm_vol_per_interval md)\<rparr>"

record 'g Rig =
  rg_om :: "'g SimulatedExchange OrderManager"
  rg_mds :: StaticMarketData
  rg_regs :: "Reg list"
  rg_destroyed :: nat
  rg_metrics :: MetricsCollector
  rg_next_worker :: int

definition rig_new ::
  "(u64 \<Rightarrow> 'g) \<Rightarrow> (double \<Rightarrow> 'g \<Rightarrow> bool \<times> 'g) \<Rightarrow> (OrderIdRaw set \<Rightarrow> OrderIdRaw list)
     \<Rightarrow> (OrderIdRaw set \<Rightarrow> OrderIdRaw list) \<Rightarrow> SimConfig \<Rightarrow> Timestamp \<Rightarrow> 'g Rig result" where
  "rig_new seed_rng draw wit lit cfg wall =
     ebind (wire seed_rng draw wit lit cfg None (Some []) kDefaultCapacity wall) (\<lambda>s.
       Inr \<lparr>rg_om = s, rg_mds = \<lparr>sm_books = Map.empty, sm_vol_per_interval = 0\<rparr>, rg_regs = [],
            rg_destroyed = 0, rg_metrics = metrics_new, rg_next_worker = 1\<rparr>)"

text \<open>The dispatcher with its first \<open>n\<close> algos destroyed.\<close>

fun dispatch_past :: "nat \<Rightarrow> OrderEvent \<Rightarrow> Order \<Rightarrow> Reg list \<Rightarrow> Reg list result" where
  "dispatch_past 0 e ord regs = dispatch_regs e ord regs"
| "dispatch_past (Suc n) e ord [] = Inr []"
| "dispatch_past (Suc n) e ord ((algo, offset, index) # regs) =
     (case retrieve_int_data offset ord of
        Inl err \<Rightarrow> Inl err
      | Inr v \<Rightarrow>
          if v = index \<and> ev_kind e \<noteq> EvConfirmed then Inl DanglingAlgo
          else case dispatch_past n e ord regs of
                 Inl err \<Rightarrow> Inl err | Inr regs' \<Rightarrow> Inr ((algo, offset, index) # regs'))"

text \<open>\<^verbatim>\<open>om->subscribe(metrics); om->subscribe(dispatcher)\<close>: both see every event, in this order.\<close>

definition rig_notify ::
  "OrderEvent \<Rightarrow> 'g SimulatedExchange OrderManager \<Rightarrow> 'g Rig \<Rightarrow> 'g Rig result" where
  "rig_notify e om rg =
     (let m = metrics_on_event (Some (static_source (rg_mds rg))) e om (rg_metrics rg)
      in case find_order om (ev_internal_id e) of
           None \<Rightarrow> Inr (rg\<lparr>rg_metrics := m\<rparr>)
         | Some ord \<Rightarrow>
             ebind (dispatch_past (rg_destroyed rg) e ord (rg_regs rg)) (\<lambda>regs.
               Inr (rg\<lparr>rg_metrics := m, rg_regs := regs\<rparr>)))"

fun rig_publish :: "'g SimulatedExchange published \<Rightarrow> 'g Rig \<Rightarrow> 'g Rig result" where
  "rig_publish [] rg = Inr rg"
| "rig_publish ((e, om) # evs) rg = ebind (rig_notify e om rg) (rig_publish evs)"

definition rig_poll :: "'g Rig \<Rightarrow> 'g Rig result" where
  "rig_poll rg =
     ebind (world_poll 0 (rg_om rg)) (\<lambda>(om, evs). ebind (rig_publish evs rg) (\<lambda>rg1. Inr (rg1\<lparr>rg_om := om\<rparr>)))"

fun poll_n :: "nat \<Rightarrow> 'g Rig \<Rightarrow> 'g Rig result" where
  "poll_n 0 rg = Inr rg"
| "poll_n (Suc n) rg = ebind (rig_poll rg) (poll_n n)"

section \<open>One parent order\<close>

fun algo_start :: "ParentOrder \<Rightarrow> Algo \<Rightarrow> Algo" where
  "algo_start p (Twap a) = Twap (twap_start p a)"
| "algo_start p (Pov a) = Pov (pov_start p a)"

fun algo_on_timer ::
  "'e ExchangeClient \<Rightarrow> MarketDataSource option \<Rightarrow> Timestamp \<Rightarrow> Algo \<Rightarrow> 'e OrderManager
     \<Rightarrow> (Algo \<times> 'e OrderManager) result" where
  "algo_on_timer ops mds now (Twap a) om =
     (case twap_on_timer ops mds now a om of Inl e \<Rightarrow> Inl e | Inr (a', om') \<Rightarrow> Inr (Twap a', om'))"
| "algo_on_timer ops mds now (Pov a) om =
     (case pov_on_timer ops mds now a om of Inl e \<Rightarrow> Inl e | Inr (a', om') \<Rightarrow> Inr (Pov a', om'))"

text \<open>The timer of the algo behind registration \<open>k\<close>.\<close>

definition rig_timer :: "(double \<Rightarrow> 'g \<Rightarrow> bool \<times> 'g) \<Rightarrow> nat \<Rightarrow> Timestamp \<Rightarrow> 'g Rig \<Rightarrow> 'g Rig result" where
  "rig_timer draw k now rg =
     (let (algo, offset, index) = rg_regs rg ! k
      in ebind (algo_on_timer (sim_client draw) (Some (static_source (rg_mds rg))) now algo (rg_om rg)) (\<lambda>(algo', om).
           Inr (rg\<lparr>rg_regs := (rg_regs rg)[k := (algo', offset, index)], rg_om := om\<rparr>)))"

definition parent_config :: "int \<Rightarrow> Quantity \<Rightarrow> int \<Rightarrow> AlgoConfig" where
  "parent_config worker qty n_intervals = default_algo_config\<lparr>ac_om := True, ac_worker_offset := 0,
     ac_worker_index := worker, ac_algo_tag := 1, ac_slices := n_intervals,
     ac_participation_rate := dbl (20 / 100), ac_min_volume_floor := 1, ac_catch_up_threshold := qty,
     ac_residual_twap_slices := n_intervals\<rparr>"

definition parent_order ::
  "StaticMarketData \<Rightarrow> InstrumentId \<Rightarrow> Side \<Rightarrow> Quantity \<Rightarrow> Timestamp \<Rightarrow> Timestamp \<Rightarrow> ParentOrder" where
  "parent_order md inst sd qty start window =
     (let b = mds_top_of_book (static_source md) inst
      in default_parent\<lparr>po_instrument := inst, po_side := sd, po_qty := qty, po_start := start,
           po_end := start + window, po_limit := (if sd = Buy then tob_ask b else tob_bid b)\<rparr>)"

text \<open>Interval \<open>i\<close> to the last: the timer, then six polls.\<close>

fun run_intervals ::
  "(double \<Rightarrow> 'g \<Rightarrow> bool \<times> 'g) \<Rightarrow> nat \<Rightarrow> Timestamp \<Rightarrow> Timestamp \<Rightarrow> nat \<Rightarrow> int \<Rightarrow> 'g Rig \<Rightarrow> 'g Rig result" where
  "run_intervals draw k start step 0 i rg = Inr rg"
| "run_intervals draw k start step (Suc n) i rg =
     ebind (rig_timer draw k (start + i * step) rg) (\<lambda>rg1.
       ebind (poll_n 6 rg1) (run_intervals draw k start step n (i + 1)))"

definition run_parent ::
  "(double \<Rightarrow> 'g \<Rightarrow> bool \<times> 'g) \<Rightarrow> string \<Rightarrow> InstrumentId \<Rightarrow> Side \<Rightarrow> Quantity \<Rightarrow> Timestamp \<Rightarrow> Timestamp \<Rightarrow> int
     \<Rightarrow> 'g Rig \<Rightarrow> (Quantity \<times> 'g Rig) result" where
  "run_parent draw algo_type inst sd qty start window n_intervals rg =
     (let before = pos_net (position (rg_om rg) inst);
          worker = rg_next_worker rg;
          algo = algo_start (parent_order (rg_mds rg) inst sd qty start window)
                   (algo_create algo_type (parent_config worker qty n_intervals) (Some []));
          k = length (rg_regs rg);
          rg1 = rg\<lparr>rg_next_worker := worker + 1, rg_regs := register_algo algo 0 worker (rg_regs rg)\<rparr>
      in if n_intervals = 0 then Inl DivisionByZero
         else
           let step = tdiv window n_intervals
           in ebind (run_intervals draw k start step (nat (n_intervals + 1)) 0 rg1) (\<lambda>rg2.
                ebind (rig_timer draw k (start + window + step) rg2) (\<lambda>rg3.
                  ebind (poll_n 8 rg3) (\<lambda>rg4.
                    Inr (pos_net (position (rg_om rg4) inst) - before, rg4)))))"

section \<open>The benchmark\<close>

definition bench_config :: SimConfig where
  "bench_config = default_sim_config\<lparr>sc_seed := 42, sc_partial_chunks := 3, sc_reject_prob := dbl (5 / 100),
     sc_duplicate_fill_prob := dbl (5 / 100), sc_unsolicited_cancel_prob := dbl (3 / 100)\<rparr>"

definition bench_insts :: "InstrumentId list" where
  "bench_insts = [10, 11, 12, 13]"

definition bench_book :: TopOfBook where
  "bench_book = \<lparr>tob_bid = 9999, tob_ask = 10001, tob_bid_size = 1000, tob_ask_size = 1000, tob_ts = 0\<rparr>"

definition bench_market :: "'g Rig \<Rightarrow> 'g Rig" where
  "bench_market rg =
     (let rg1 = foldl (\<lambda>rg i. rg\<lparr>rg_mds := (rg_mds rg)\<lparr>sm_books := (sm_books (rg_mds rg))(i \<mapsto> bench_book)\<rparr>,
                                 rg_metrics := set_reference_vwap i (tob_mid bench_book) (rg_metrics rg)\<rparr>)
                  rg bench_insts
      in rg1\<lparr>rg_mds := (rg_mds rg1)\<lparr>sm_vol_per_interval := 200\<rparr>\<rparr>)"

text \<open>The netting illustration.\<close>

definition bench_netting :: "NettingEngine \<times> NetOrder list" where
  "bench_netting = compute_cycle [10 \<mapsto> 10000] (set_target 2 10 (- 250) (set_target 1 10 250 (netting_new (Some []))))"

definition bench_recon_config :: PeriodicReconConfig where
  "bench_recon_config = \<lparr>pc_threshold = 0, pc_heal_band = 50, pc_persist_cycles = 2\<rparr>"

definition bench_target :: "nat \<Rightarrow> InstrumentId \<Rightarrow> Quantity" where
  "bench_target c inst =
     (if inst = 10 then (if c mod 2 = 0 then 120 else 0)
      else if inst = 11 then (if c mod 2 = 0 then 90 else 30)
      else if inst = 12 then (if c mod 2 = 0 then 150 else 50)
      else (if c mod 2 = 0 then 60 else 100))"

definition bench_window :: Timestamp where
  "bench_window = 20000000"

text \<open>The instruments of a cycle: what was targeted and what was filled so far.\<close>

fun bench_insts_loop ::
  "(double \<Rightarrow> 'g \<Rightarrow> bool \<times> 'g) \<Rightarrow> nat \<Rightarrow> Timestamp \<Rightarrow> InstrumentId list \<Rightarrow> Quantity \<Rightarrow> Quantity \<Rightarrow> 'g Rig
     \<Rightarrow> (Quantity \<times> Quantity \<times> 'g Rig) result" where
  "bench_insts_loop draw c t [] target_abs filled_abs rg = Inr (target_abs, filled_abs, rg)"
| "bench_insts_loop draw c t (inst # insts) target_abs filled_abs rg =
     (let delta = execution_delta (rg_om rg) inst (bench_target c inst)
      in if delta = 0 then bench_insts_loop draw c t insts target_abs filled_abs rg
         else
           let sd = (if delta > 0 then Buy else Sell);
               qty = (if delta > 0 then delta else - delta);
               algo_type = (if inst \<le> 11 then ''twap'' else ''pov'')
           in ebind (run_parent draw algo_type inst sd qty t bench_window 8 rg) (\<lambda>(moved, rg1).
                bench_insts_loop draw c t insts (target_abs + qty)
                  (filled_abs + (if moved < 0 then - moved else moved)) rg1))"

definition cycle_rate :: "Quantity \<Rightarrow> Quantity \<Rightarrow> double" where
  "cycle_rate target_abs filled_abs = (if target_abs = 0 then 1 else d_div (of_i64 filled_abs) (of_i64 target_abs))"

definition cycle_row :: "(double \<Rightarrow> string) \<Rightarrow> nat \<Rightarrow> Quantity \<Rightarrow> Quantity \<Rightarrow> string" where
  "cycle_row fmt_rate c target_abs filled_abs =
     to_string (int c) @ '','' @ to_string target_abs @ '','' @ to_string filled_abs @ '',''
     @ fmt_rate (cycle_rate target_abs filled_abs) @ '','' @ (if filled_abs \<ge> target_abs then ''1'' else ''0'') @ newline"

text \<open>One cycle, and the cycles; at the end of a cycle its algos are destroyed.\<close>

definition bench_cycle ::
  "(double \<Rightarrow> 'g \<Rightarrow> bool \<times> 'g) \<Rightarrow> (double \<Rightarrow> string) \<Rightarrow> nat \<Rightarrow> Timestamp \<Rightarrow> PeriodicReconciler \<Rightarrow> 'g Rig
     \<Rightarrow> (string \<times> DriftRecord list \<times> PeriodicReconciler \<times> 'g Rig) result" where
  "bench_cycle draw fmt_rate c t rc rg =
     ebind (bench_insts_loop draw c t bench_insts 0 0 rg) (\<lambda>(target_abs, filled_abs, rg1).
       let rg2 = rg1\<lparr>rg_metrics := record_cycle target_abs filled_abs (rg_metrics rg1)\<rparr>;
           now = (case venue_get 0 (rg_om rg2) of Some x \<Rightarrow> sx_now x | None \<Rightarrow> 0)
       in ebind (reconcile (sim_client draw) now rc (rg_om rg2)) (\<lambda>(recs, rc1, om1).
            Inr (cycle_row fmt_rate c target_abs filled_abs, recs, rc1,
                 rg2\<lparr>rg_om := om1, rg_destroyed := length (rg_regs rg2)\<rparr>)))"

fun bench_cycles ::
  "(double \<Rightarrow> 'g \<Rightarrow> bool \<times> 'g) \<Rightarrow> (double \<Rightarrow> string) \<Rightarrow> nat \<Rightarrow> nat \<Rightarrow> Timestamp \<Rightarrow> PeriodicReconciler \<Rightarrow> 'g Rig
     \<Rightarrow> (string \<times> DriftRecord list \<times> PeriodicReconciler \<times> 'g Rig) result" where
  "bench_cycles draw fmt_rate 0 c t rc rg = Inr ([], [], rc, rg)"
| "bench_cycles draw fmt_rate (Suc n) c t rc rg =
     ebind (bench_cycle draw fmt_rate c t rc rg) (\<lambda>(row, recs, rc1, rg1).
       ebind (bench_cycles draw fmt_rate n (c + 1) (t + bench_window * 2) rc1 rg1) (\<lambda>(rows, recs', rc2, rg2).
         Inr (row @ rows, recs @ recs', rc2, rg2)))"

text \<open>Demotions and the recoveries among them, counted from the breaker's trips.\<close>

definition count_demotions :: "u64 \<Rightarrow> 'g Rig \<Rightarrow> 'g Rig result" where
  "count_demotions trips_before rg =
     ebind (health_trips 0 (om_health (rg_om rg))) (\<lambda>trips.
       ebind (health_unresolved 0 (om_health (rg_om rg))) (\<lambda>unresolved.
         let demotions = trips - trips_before;
             recoveries = (if demotions > unresolved then demotions - unresolved else 0)
         in Inr (rg\<lparr>rg_metrics := (add_recovery ^^ unat recoveries) ((add_demotion ^^ unat demotions) (rg_metrics rg))\<rparr>)))"

definition bench_setup ::
  "(u64 \<Rightarrow> 'g) \<Rightarrow> (double \<Rightarrow> 'g \<Rightarrow> bool \<times> 'g) \<Rightarrow> (OrderIdRaw set \<Rightarrow> OrderIdRaw list)
     \<Rightarrow> (OrderIdRaw set \<Rightarrow> OrderIdRaw list) \<Rightarrow> Timestamp \<Rightarrow> 'g Rig result" where
  "bench_setup seed_rng draw wit lit wall =
     ebind (rig_new seed_rng draw wit lit bench_config wall) (\<lambda>rg0.
       let rg1 = bench_market rg0
       in Inr (rg1\<lparr>rg_metrics := set_netting_saved (ne_saved_notional (fst bench_netting)) (rg_metrics rg1)\<rparr>))"

section \<open>The report\<close>

text \<open>The dash of the prose, in UTF-8.\<close>

definition em_dash :: string where
  "em_dash = map char_of [0xE2 :: nat, 0x80, 0x94]"

definition report_row :: "string \<Rightarrow> Distribution \<Rightarrow> string" where
  "report_row name d = ''| '' @ name @ '' | '' @ to_string (dist_p (dbl (1 / 2)) d) @ '' | '' @ to_string (dist_p (dbl (99 / 100)) d)
     @ '' | '' @ to_string (dist_p (dbl (999 / 1000)) d) @ '' | '' @ to_string (int (dist_count d)) @ '' |'' @ newline"

definition report_intro :: "nat \<Rightarrow> string" where
  "report_intro cycles =
     ''# Execution Metrics Report'' @ newline @ newline
     @ ''Deterministic run: seed '' @ to_string (uint (sc_seed bench_config)) @ '', '' @ to_string (int cycles)
     @ '' rebalance cycles across '' @ to_string (int (length bench_insts))
     @ '' instruments, TWAP on {10,11} and POV on {12,13}, with injected partial fills, rejects, ''
     @ ''duplicate fills, and unsolicited cancels. All numbers are reproducible.'' @ newline @ newline"

definition report_headline :: "MetricsCollector \<Rightarrow> string" where
  "report_headline m =
     ''## Headline numbers'' @ newline @ newline
     @ ''| Metric | p50 | p99 | p99.9 | count |'' @ newline @ ''|---|---|---|---|---|'' @ newline
     @ report_row ''Slippage arrival (bps)'' (mc_slip_arrival m)
     @ report_row ''Slippage VWAP (bps)'' (mc_slip_vwap m)
     @ report_row ''Time to fill (ns)'' (mc_ttf m)
     @ report_row ''Ack latency (ns)'' (mc_ack_latency m)
     @ report_row ''Fill rate (bps of target)'' (mc_fill_rate m) @ newline"

definition report_counters :: "(double \<Rightarrow> string) \<Rightarrow> 'e OrderManager \<Rightarrow> MetricsCollector \<Rightarrow> string" where
  "report_counters fmt_rate om m =
     (let num = (\<lambda>w :: u64. to_string (uint w)) in
      ''## Counters'' @ newline @ newline
      @ ''- Filled orders: '' @ num (mc_filled_orders m) @ newline
      @ ''- Rebalance completion rate: '' @ fmt_rate (completion_rate m) @ '' (''
      @ num (mc_completed_cycles m) @ ''/'' @ num (mc_cycles m) @ '')'' @ newline
      @ ''- Rejections: '' @ num (om_reject_count om) @ newline
      @ ''- Ack timeouts: '' @ num (om_ack_timeout_count om) @ newline
      @ ''- Unsolicited cancels: '' @ num (om_unsolicited_cancel_count om) @ newline
      @ ''- Out-of-sequence events dropped: '' @ num (om_oos_dropped_count om) @ newline
      @ ''- False cancel-rejects (excluded from health): '' @ num (om_false_cancel_reject_count om) @ newline
      @ ''- Venue demotions: '' @ num (mc_demotions m) @ newline
      @ ''- Netting saved notional: '' @ to_string (mc_netting_saved m) @ newline @ newline)"

definition report_prose :: "MetricsCollector \<Rightarrow> string" where
  "report_prose m =
      ''## Interpretation'' @ newline @ newline
      @ ''- **Slippage reference.** We report slippage against the **arrival mid** (mid at ''
      @ ''the instant the OMS accepted the parent), because that captures the full cost of ''
      @ ''the delay the execution layer is responsible for. We also report VWAP-relative ''
      @ ''slippage, which isolates algo skill from market drift. In this run the book is ''
      @ ''static, so the two coincide; in a moving market arrival-relative would exceed ''
      @ ''VWAP-relative whenever the market trended against us during the window. Reporting ''
      @ ''only one hides where the cost came from.'' @ newline
      @ ''- **What p99 tells you.** p50 is the typical child order; p99 is the tail that sets ''
      @ ''risk limits and SLAs. Here the ack-latency p99 of ''
      @ to_string (dist_p (dbl (99 / 100)) (mc_ack_latency m))
      @ ''ns reflects the sim's fixed ack latency; a real venue's p99 blowing out is the ''
      @ ''early warning of the reject/latency circuit breaker about to trip.'' @ newline
      @ ''- **Why POV's fill rate differs from TWAP's.** TWAP sizes off the clock and will ''
      @ ''cross at the deadline, so it completes the target whenever liquidity is present. ''
      @ ''POV sizes off observed volume and deliberately *idles* below the volume floor, so ''
      @ ''when volume is thin POV under-fills within the window and only its deadline IOC ''
      @ ''closes the gap. POV trades completion certainty for footprint control.'' @ newline
      @ ''- **What the demotion count implies.** ''
      @ to_string (uint (mc_demotions m))
      @ '' demotion(s): with a single venue, any demotion means the all-down policy engaged ''
      @ ''and a cycle was marked incomplete. With multiple venues it would instead show ''
      @ ''routing shifting away from the sick venue.'' @ newline
      @ ''- **What I would alert on in production.** Rebalance completion rate below target ''
      @ ''and a rising reject/ack-latency p99 ''
      @ em_dash
      @ '' those lead the circuit breaker. Raw fill counts are lagging indicators.'' @ newline
      @ ''- **Honest limitation.** Distributions use a fixed-size ring reservoir (last N ''
      @ ''samples), so with few observations p99.9 collapses onto a single sample and is not ''
      @ ''statistically meaningful here; it is reported for shape, not precision.'' @ newline"

definition report_md :: "(double \<Rightarrow> string) \<Rightarrow> nat \<Rightarrow> 'e OrderManager \<Rightarrow> MetricsCollector \<Rightarrow> string" where
  "report_md fmt_rate cycles om m =
     report_intro cycles @ report_headline m @ report_counters fmt_rate om m @ report_prose m"

text \<open>
  The run: the texts of \<^verbatim>\<open>cycles.csv\<close>, \<^verbatim>\<open>metrics_summary.csv\<close> and \<^verbatim>\<open>REPORT.md\<close>, and the rig at
  the end.
\<close>

definition bench_main ::
  "(u64 \<Rightarrow> 'g) \<Rightarrow> (double \<Rightarrow> 'g \<Rightarrow> bool \<times> 'g) \<Rightarrow> (OrderIdRaw set \<Rightarrow> OrderIdRaw list)
     \<Rightarrow> (OrderIdRaw set \<Rightarrow> OrderIdRaw list) \<Rightarrow> (double \<Rightarrow> string) \<Rightarrow> (double \<Rightarrow> string) \<Rightarrow> Timestamp
     \<Rightarrow> (string \<times> string \<times> string \<times> 'g Rig) result" where
  "bench_main seed_rng draw wit lit fmt_rate show_double wall =
     ebind (bench_setup seed_rng draw wit lit wall) (\<lambda>rg0.
       ebind (health_trips 0 (om_health (rg_om rg0))) (\<lambda>trips_before.
         ebind (bench_cycles draw fmt_rate 5 0 0 (recon_new bench_recon_config (Some [])) rg0) (\<lambda>(rows, recs, rc, rg1).
           ebind (count_demotions trips_before rg1) (\<lambda>rg2.
             Inr (''cycle,target_abs,filled_abs,fill_rate,completed'' @ newline @ rows,
                  summary_csv show_double (rg_om rg2) (rg_metrics rg2),
                  report_md fmt_rate 5 (rg_om rg2) (rg_metrics rg2), rg2)))))"

end
