(* ===== verification/AlgoDesk.thy ===== *)
theory AlgoDesk
  imports SimBudget Drivers
begin

text \<open>
  What an algo relies on when it trades: a desk that takes its orders and cancels, counts the calls
  and returns as long as the count stays below a limit. Over any such desk a timer of an algo
  returns, makes a bounded number of calls and cancels only ids the desk holds. The wired pair is
  such a desk.
\<close>

section \<open>What the algos keep\<close>

definition kids :: "'z AlgoBase_scheme \<Rightarrow> OrderIdRaw list" where
  "kids a = map fst (ab_children a)"

definition base_fits :: "int \<Rightarrow> 'z AlgoBase_scheme \<Rightarrow> bool" where
  "base_fits w a \<longleftrightarrow> ac_om (ab_config a) \<and> ac_worker_offset (ab_config a) = 0 \<and> ac_worker_index (ab_config a) = w
     \<and> 0 < po_limit (ab_parent a)"

definition twap_fits :: "int \<Rightarrow> TwapAlgo \<Rightarrow> bool" where
  "twap_fits w a \<longleftrightarrow> base_fits w a \<and> tw_n a \<le> 8 \<and> 0 \<le> tw_slices_done a"

definition pov_fits :: "int \<Rightarrow> PovAlgo \<Rightarrow> bool" where
  "pov_fits w a \<longleftrightarrow> base_fits w a \<and> ac_residual_twap_slices (ab_config a) \<le> 8
     \<and> (\<forall>t. pv_twap a = Some t \<longrightarrow> twap_fits w t)"

fun algo_fits :: "int \<Rightarrow> Algo \<Rightarrow> bool" where
  "algo_fits w (Twap a) = twap_fits w a"
| "algo_fits w (Pov a) = pov_fits w a"

definition held_kids :: "PovAlgo \<Rightarrow> OrderIdRaw list" where
  "held_kids a = (case pv_twap a of None \<Rightarrow> [] | Some t \<Rightarrow> kids t)"

definition pov_kids :: "PovAlgo \<Rightarrow> OrderIdRaw list" where
  "pov_kids a = kids a @ held_kids a"

fun algo_kids :: "Algo \<Rightarrow> OrderIdRaw list" where
  "algo_kids (Twap a) = kids a"
| "algo_kids (Pov a) = pov_kids a"

lemma more_twap:
  fixes a a' :: TwapAlgo
  assumes "AlgoBase.more a' = AlgoBase.more a"
  shows "tw_n a' = tw_n a" and "tw_slices_done a' = tw_slices_done a"
  using assms by (cases a; cases a'; simp)+

lemma more_pov:
  fixes a a' :: PovAlgo
  assumes "AlgoBase.more a' = AlgoBase.more a"
  shows "pv_twap a' = pv_twap a" and "pv_degraded a' = pv_degraded a"
  using assms by (cases a; cases a'; simp)+

lemma length_update: "length (AList.update k v xs) \<le> Suc (length xs)"
  by (induction xs) auto

lemma kids_update: "set (map fst (AList.update k v xs)) = insert k (set (map fst xs))"
  by (induction xs) auto

lemma cross_price_pos: "base_fits w a \<Longrightarrow> 0 < cross_price mds a"
  by (auto simp: cross_price_def base_fits_def Let_def split: option.splits)

text \<open>The TWAP algo a POV algo degrades to.\<close>

lemma degrade_fits:
  assumes "pov_fits w a"
  obtains t where "pv_twap (degrade_to_twap now a) = Some t" and "twap_fits w t" and "kids t = []"
    and "pov_fits w (degrade_to_twap now a)" and "kids (degrade_to_twap now a) = kids a"
proof -
  obtain t where t: "pv_twap (degrade_to_twap now a) = Some t" "twap_fits w t" "kids t = []"
    using assms by (simp add: degrade_to_twap_def Let_def algo_log_def twap_start_def twap_new_def twap_fits_def
        base_fits_def pov_fits_def kids_def)
  moreover have "base_fits w (degrade_to_twap now a)" "ac_residual_twap_slices (ab_config (degrade_to_twap now a)) \<le> 8"
    "kids (degrade_to_twap now a) = kids a"
    using assms by (simp_all add: degrade_to_twap_def Let_def algo_log_def base_fits_def pov_fits_def kids_def)
  ultimately show ?thesis using that by (simp add: pov_fits_def)
qed

text \<open>
  The call returned: an algo that still fits, with at most \<open>b\<close> children, all held by the desk, and
  the desk with at most \<open>m\<close> calls counted.
\<close>

definition served ::
  "(nat \<Rightarrow> 's \<Rightarrow> bool) \<Rightarrow> ('s \<Rightarrow> OrderIdRaw set) \<Rightarrow> ('a \<Rightarrow> bool) \<Rightarrow> ('a \<Rightarrow> OrderIdRaw list)
     \<Rightarrow> nat \<Rightarrow> nat \<Rightarrow> 's \<Rightarrow> ('a \<times> 's) result \<Rightarrow> bool" where
  "served desk held fits ids m b s r \<longleftrightarrow> (\<exists>a s'. r = Inr (a, s') \<and> desk m s' \<and> held s \<subseteq> held s'
     \<and> fits a \<and> set (ids a) \<subseteq> held s' \<and> length (ids a) \<le> b)"

lemma served_Inr:
  "served desk held fits ids m b s (Inr (a, s')) \<longleftrightarrow> desk m s' \<and> held s \<subseteq> held s' \<and> fits a
     \<and> set (ids a) \<subseteq> held s' \<and> length (ids a) \<le> b"
  by (auto simp: served_def)

lemma served_then:
  assumes "served desk held fits ids m b s r"
    and "\<And>a s'. fits a \<Longrightarrow> fits' (f a) \<and> set (ids' (f a)) \<subseteq> set (ids a) \<and> length (ids' (f a)) \<le> length (ids a)"
  shows "served desk held fits' ids' m b s (case r of Inl e \<Rightarrow> Inl e | Inr (a, s') \<Rightarrow> Inr (f a, s'))"
proof -
  obtain a s' where a: "r = Inr (a, s')" "desk m s'" "held s \<subseteq> held s'" "fits a" "set (ids a) \<subseteq> held s'" "length (ids a) \<le> b"
    using assms(1) by (auto simp: served_def)
  with assms(2) [OF a(4)] show ?thesis by (auto simp: served_Inr)
qed

section \<open>What an event leaves of an algo\<close>

text \<open>An event adds no child.\<close>

definition fewer :: "OrderIdRaw list \<Rightarrow> OrderIdRaw list \<Rightarrow> bool" where
  "fewer ids' ids \<longleftrightarrow> set ids' \<subseteq> set ids \<and> length ids' \<le> length ids"

lemma fewer_refl [simp]: "fewer ids ids"
  by (simp add: fewer_def)

lemma fewer_append: "fewer xs' xs \<Longrightarrow> fewer ys' ys \<Longrightarrow> fewer (xs' @ ys') (xs @ ys)"
  by (auto simp: fewer_def)

lemma fewer_delete: "fewer (map fst (AList.delete k xs)) (map fst xs)"
  by (auto simp: fewer_def AList.delete_eq)

lemma length_update_old: "map_of xs k \<noteq> None \<Longrightarrow> length (AList.update k v xs) = length xs"
  by (induction xs) auto

lemma fewer_update:
  assumes "map_of xs k \<noteq> None"
  shows "fewer (map fst (AList.update k v xs)) (map fst xs)"
proof -
  have "k \<in> set (map fst xs)" using assms by (simp add: map_of_eq_None_iff)
  then show ?thesis using assms kids_update [of k v xs] by (auto simp: fewer_def length_update_old simp del: set_map)
qed

text \<open>Handlers of the base class change the fill and the children only.\<close>

definition hears :: "'z AlgoBase_scheme \<Rightarrow> 'z AlgoBase_scheme \<Rightarrow> bool" where
  "hears a a' \<longleftrightarrow> ab_config a' = ab_config a \<and> ab_parent a' = ab_parent a \<and> AlgoBase.more a' = AlgoBase.more a
     \<and> fewer (kids a') (kids a)"

lemma hears_refl [simp]: "hears a a"
  by (simp add: hears_def)

lemma hears_record_fill: "hears a (record_fill ord qty a)"
  using fewer_delete [of "o_internal_id ord" "ab_children a"]
    fewer_update [of "ab_children a" "o_internal_id ord" "remaining ord"]
  by (simp add: record_fill_def hears_def kids_def Let_def)

lemma hears_done: "hears a b \<Longrightarrow> hears a (done_when_filled b)"
  by (simp add: done_when_filled_def hears_def kids_def)

lemma hears_base:
  "hears a (base_on_fill ord qty price a)" "hears a (base_on_reject ord reason a)" "hears a (base_on_cancel ord a)"
  using fewer_delete [of "o_internal_id ord" "ab_children a"] hears_done [OF hears_record_fill]
  by (simp_all add: base_on_fill_def base_on_reject_def base_on_cancel_def hears_def kids_def)

lemma hears_fits: "hears a a' \<Longrightarrow> base_fits w a \<Longrightarrow> base_fits w a'"
  by (simp add: hears_def base_fits_def)

lemma hears_twap: "hears a a' \<Longrightarrow> twap_fits w a \<Longrightarrow> twap_fits w a' \<and> fewer (kids a') (kids a)"
  using hears_fits [of a a' w] more_twap [of a' a] by (simp add: twap_fits_def) (simp add: hears_def)

text \<open>A POV algo hears an event itself or passes it to the algo it holds.\<close>

definition pov_hears :: "PovAlgo \<Rightarrow> PovAlgo \<Rightarrow> bool" where
  "pov_hears a a' \<longleftrightarrow> hears a a' \<or> (\<exists>t t' b. hears a b \<and> pv_twap a = Some t \<and> hears t t' \<and> a' = b\<lparr>pv_twap := Some t'\<rparr>)"

lemma pov_hears_fits:
  assumes "pov_hears a a'" and "pov_fits w a"
  shows "pov_fits w a' \<and> fewer (pov_kids a') (pov_kids a)"
  using assms(1) unfolding pov_hears_def
proof
  assume h: "hears a a'"
  then have a': "ab_config a' = ab_config a" "fewer (kids a') (kids a)" "pv_twap a' = pv_twap a"
    using more_pov(1) [of a' a] by (simp_all add: hears_def)
  have "base_fits w a'" using hears_fits [OF h] assms(2) by (simp add: pov_fits_def)
  moreover have "held_kids a' = held_kids a" using a'(3) by (simp add: held_kids_def)
  ultimately show ?thesis using assms(2) a' by (simp add: pov_fits_def pov_kids_def fewer_append)
next
  assume "\<exists>t t' b. hears a b \<and> pv_twap a = Some t \<and> hears t t' \<and> a' = b\<lparr>pv_twap := Some t'\<rparr>"
  then obtain t t' b where h: "hears a b" "pv_twap a = Some t" "hears t t'" "a' = b\<lparr>pv_twap := Some t'\<rparr>" by blast
  have "twap_fits w t" using assms(2) h(2) by (simp add: pov_fits_def)
  then have t': "twap_fits w t'" "fewer (kids t') (kids t)" using hears_twap [OF h(3)] by blast+
  have b: "base_fits w b" "ab_config b = ab_config a" "fewer (kids b) (kids a)"
    using hears_fits [OF h(1)] assms(2) h(1) by (simp_all add: pov_fits_def hears_def)
  have "base_fits w a'" "ab_config a' = ab_config a" "kids a' = kids b" using b by (simp_all add: h(4) base_fits_def kids_def)
  moreover have "pv_twap a' = Some t'" by (simp add: h(4))
  ultimately show ?thesis
    using t' b(3) assms(2) h(2) by (simp add: pov_fits_def pov_kids_def held_kids_def fewer_append)
qed


lemma pov_hears_own: "hears a a' \<Longrightarrow> pov_hears a a'"
  by (simp add: pov_hears_def)

lemma pov_hears_held: "hears a b \<Longrightarrow> held_twap a = Some t \<Longrightarrow> hears t t' \<Longrightarrow> pov_hears a (b\<lparr>pv_twap := Some t'\<rparr>)"
  by (auto simp: pov_hears_def held_twap_def split: if_splits)

lemma pov_hears_done: "pov_hears a b \<Longrightarrow> pov_hears a (done_when_filled b)"
proof -
  assume "pov_hears a b"
  then consider "hears a b" | t t' c where "hears a c" "pv_twap a = Some t" "hears t t'" "b = c\<lparr>pv_twap := Some t'\<rparr>"
    unfolding pov_hears_def by blast
  then show ?thesis
  proof cases
    case 1
    from hears_done [OF this] show ?thesis by (rule pov_hears_own)
  next
    case (2 t t' c)
    have "done_when_filled b = (done_when_filled c)\<lparr>pv_twap := Some t'\<rparr>" by (simp add: done_when_filled_def 2(4))
    then show ?thesis using hears_done [OF 2(1)] 2(2,3) unfolding pov_hears_def by blast
  qed
qed

lemma pov_hears_events:
  "pov_hears a (pov_on_fill ord qty price a)" "pov_hears a (pov_on_reject ord reason a)" "pov_hears a (pov_on_cancel ord a)"
proof -
  have twap: "held_twap (record_fill ord qty a) = held_twap a"
    using more_pov [of "record_fill ord qty a" a] hears_record_fill [of a] by (simp add: held_twap_def hears_def)
  show "pov_hears a (pov_on_fill ord qty price a)"
    unfolding pov_on_fill_def Let_def
    by (rule pov_hears_done)
      (auto simp: twap hears_base split: option.splits intro: pov_hears_own hears_record_fill pov_hears_held)
  show "pov_hears a (pov_on_reject ord reason a)" "pov_hears a (pov_on_cancel ord a)"
    unfolding pov_on_reject_def pov_on_cancel_def
    by (auto simp: hears_base split: option.splits intro: pov_hears_own pov_hears_held)
qed

lemma deliver_fits:
  assumes "algo_fits w a"
  shows "algo_fits w (deliver_to e ord a) \<and> fewer (algo_kids (deliver_to e ord a)) (algo_kids a)"
proof (cases a)
  case (Twap t)
  with assms hears_twap [of t _ w, OF hears_base(1)] hears_twap [of t _ w, OF hears_base(2)] hears_twap [of t _ w, OF hears_base(3)]
  show ?thesis by (simp add: deliver_to_def split: OrderEventKind.splits)
next
  case (Pov p)
  with assms pov_hears_fits [of p _ w, OF pov_hears_events(1)] pov_hears_fits [of p _ w, OF pov_hears_events(2)]
    pov_hears_fits [of p _ w, OF pov_hears_events(3)]
  show ?thesis by (simp add: deliver_to_def split: OrderEventKind.splits)
qed

section \<open>The desk\<close>

locale order_desk =
  fixes ops :: "'e ExchangeClient"
    and desk :: "nat \<Rightarrow> 'e OrderManager \<Rightarrow> bool"
    and held :: "'e OrderManager \<Rightarrow> OrderIdRaw set"
    and limit :: nat
    and w :: int
  assumes desk_submit: "desk n om \<Longrightarrow> n < limit \<Longrightarrow> 0 < rq_size req \<Longrightarrow> 0 < rq_price req
      \<Longrightarrow> rq_worker_offset req = 0 \<Longrightarrow> rq_worker_index req = w
      \<Longrightarrow> \<exists>i om'. submit ops req om = Inr (i, om') \<and> desk (Suc n) om' \<and> held om \<subseteq> held om' \<and> (i \<noteq> 0 \<longrightarrow> i \<in> held om')"
    and desk_cancel: "desk n om \<Longrightarrow> i \<in> held om
      \<Longrightarrow> desk (Suc n) (snd (cancel ops i om)) \<and> held om \<subseteq> held (snd (cancel ops i om))"
    and desk_mono: "desk n om \<Longrightarrow> n \<le> m \<Longrightarrow> desk m om"
begin

lemma send_child_desk:
  fixes a :: "'z AlgoBase_scheme"
  assumes "desk n om" and "n < limit" and fits: "base_fits w a" and own: "set (kids a) \<subseteq> held om" and price: "0 < price"
  obtains i a' om' where "send_child ops qty price ty a om = Inr (i, a', om')" and "desk (Suc n) om'"
    and "held om \<subseteq> held om'" and "set (kids a') \<subseteq> held om'" and "length (kids a') \<le> Suc (length (kids a))"
    and "base_fits w a'" and "ab_config a' = ab_config a" and "AlgoBase.more a' = AlgoBase.more a"
proof (cases "qty \<le> 0 \<or> \<not> ac_om (ab_config a)")
  case True
  then have "send_child ops qty price ty a om = Inr (0, a, om)" by (simp add: send_child_def)
  with that [OF this] assms desk_mono [of n om "Suc n"] show ?thesis by simp
next
  case False
  let ?req = "child_request qty price ty a"
  have "0 < rq_size ?req" "0 < rq_price ?req" "rq_worker_offset ?req = 0" "rq_worker_index ?req = w"
    using False price fits by (simp_all add: child_request_def base_fits_def)
  from desk_submit [OF assms(1,2) this] obtain i om' where s: "submit ops ?req om = Inr (i, om')" "desk (Suc n) om'"
    "held om \<subseteq> held om'" "i \<noteq> 0 \<longrightarrow> i \<in> held om'" by blast
  show ?thesis
  proof (cases "i = 0")
    case True
    then have "send_child ops qty price ty a om = Inr (0, a, om')" using False s(1) by (simp add: send_child_def)
    with that [OF this s(2,3)] own s(3) fits show ?thesis by auto
  next
    case nz: False
    define a' where "a' = a\<lparr>ab_children := AList.update i qty (ab_children a), ab_sent_total := ab_sent_total a + qty,
        ab_stats := (ab_stats a)\<lparr>as_child_orders := as_child_orders (ab_stats a) + 1\<rparr>\<rparr>"
    have sent: "send_child ops qty price ty a om = Inr (i, a', om')" using False nz s(1) by (simp add: send_child_def a'_def)
    have "set (kids a') \<subseteq> held om'"
      using own s(3,4) nz by (auto simp: kids_def a'_def kids_update simp del: set_map)
    moreover have "length (kids a') \<le> Suc (length (kids a))" by (simp add: kids_def a'_def length_update)
    moreover have "base_fits w a'" "ab_config a' = ab_config a" "AlgoBase.more a' = AlgoBase.more a"
      using fits by (simp_all add: a'_def base_fits_def)
    ultimately show ?thesis using that [OF sent s(2,3)] by blast
  qed
qed

lemma base_cancel_desk:
  assumes "desk n om" and "set (kids a) \<subseteq> held om"
  shows "desk (n + length (kids a)) (base_cancel ops a om) \<and> held om \<subseteq> held (base_cancel ops a om)"
proof -
  have "desk m u \<Longrightarrow> set ids \<subseteq> held u \<Longrightarrow> desk (m + length ids) (foldl (\<lambda>om i. snd (cancel ops i om)) u ids)
      \<and> held u \<subseteq> held (foldl (\<lambda>om i. snd (cancel ops i om)) u ids)" for ids m u
  proof (induction ids arbitrary: m u)
    case (Cons i ids)
    have c: "desk (Suc m) (snd (cancel ops i u))" "held u \<subseteq> held (snd (cancel ops i u))"
      using desk_cancel [OF Cons.prems(1)] Cons.prems(2) by auto
    have "set ids \<subseteq> held (snd (cancel ops i u))" using c(2) Cons.prems(2) by auto
    from Cons.IH [OF c(1) this] c(2) show ?case by auto
  qed simp
  from this [OF assms] desk_mono [OF assms(1)] show ?thesis by (simp add: base_cancel_def kids_def)
qed

text \<open>The slices that are due: at most as many sends as slices are left.\<close>

lemma twap_slices_served:
  assumes "desk n om" and "n + nat (tw_n a - tw_slices_done a) \<le> limit" and "twap_fits w a" and "set (kids a) \<subseteq> held om"
  shows "served desk held (twap_fits w) kids (n + nat (tw_n a - tw_slices_done a))
    (length (kids a) + nat (tw_n a - tw_slices_done a)) om (twap_slices ops now a om)"
  using assms
proof (induction "nat (tw_n a - tw_slices_done a)" arbitrary: a om n rule: less_induct)
  case less
  let ?k = "nat (tw_n a - tw_slices_done a)"
  let ?a1 = "a\<lparr>tw_slices_done := tw_slices_done a + 1\<rparr>"
  note eq = twap_slices.simps [of ops now a om]
  have same: "kids ?a1 = kids a" "base_fits w ?a1 = base_fits w a" by (simp_all add: kids_def base_fits_def)
  show ?case
  proof (cases "slice_due now a")
    case False
    with less.prems desk_mono [of n om "n + ?k"] show ?thesis by (simp add: eq served_Inr)
  next
    case due: True
    then have k: "tw_slices_done a < tw_n a" by (simp add: slice_due_def)
    have a1: "twap_fits w ?a1" using less.prems(3) same(2) by (simp add: twap_fits_def)
    show ?thesis
    proof (cases "slice_quantity a \<le> 0")
      case True
      let ?k1 = "nat (tw_n ?a1 - tw_slices_done ?a1)"
      have k1: "?k1 < ?k" "?k = Suc ?k1" using k by auto
      have "n + ?k1 \<le> limit" using less.prems(2) k1 by simp
      from less.hyps [OF k1(1) less.prems(1) this a1] less.prems(4) same(1) obtain a' om' where
        "twap_slices ops now ?a1 om = Inr (a', om')" "desk (n + ?k1) om'" "held om \<subseteq> held om'"
        "set (kids a') \<subseteq> held om'" "length (kids a') \<le> length (kids a) + ?k1" "twap_fits w a'" by (auto simp: served_def)
      with True due k1 desk_mono [of "n + ?k1" om' "n + ?k"] show ?thesis by (auto simp: eq Let_def served_Inr)
    next
      case False
      have lim: "n < limit" using less.prems(2) k by linarith
      have own: "set (kids ?a1) \<subseteq> held om" using less.prems(4) same(1) by simp
      have fits: "base_fits w ?a1" using less.prems(3) same(2) by (simp add: twap_fits_def)
      then have price: "0 < po_limit (ab_parent ?a1)" by (simp add: base_fits_def)
      obtain i a2 om1 where s: "send_child ops (slice_quantity a) (po_limit (ab_parent ?a1)) Limit ?a1 om = Inr (i, a2, om1)"
        "desk (Suc n) om1" "held om \<subseteq> held om1" "set (kids a2) \<subseteq> held om1" "length (kids a2) \<le> Suc (length (kids ?a1))"
        "base_fits w a2" "AlgoBase.more a2 = AlgoBase.more ?a1"
        by (rule send_child_desk [OF less.prems(1) lim fits own price])
      have a2: "tw_n a2 = tw_n a" "tw_slices_done a2 = tw_slices_done a + 1" using more_twap [OF s(7)] by simp_all
      let ?k1 = "nat (tw_n a2 - tw_slices_done a2)"
      have k1: "?k1 < ?k" "?k = Suc ?k1" using k a2 by auto
      have fits2: "twap_fits w a2" using a1 a2 s(6) by (simp add: twap_fits_def)
      have "Suc n + ?k1 \<le> limit" using less.prems(2) k1 by simp
      from less.hyps [OF k1(1) s(2) this fits2 s(4)] obtain a' om' where r:
        "twap_slices ops now a2 om1 = Inr (a', om')" "desk (Suc n + ?k1) om'" "held om1 \<subseteq> held om'"
        "set (kids a') \<subseteq> held om'" "length (kids a') \<le> length (kids a2) + ?k1" "twap_fits w a'" by (auto simp: served_def)
      have "twap_slices ops now a om = Inr (a', om')" using False due s(1) r(1) by (simp add: eq Let_def)
      with r s(3,5) k1 same(1) show ?thesis by (auto simp: served_Inr)
    qed
  qed
qed

lemma served_mono:
  "served desk held fits ids m b om r \<Longrightarrow> m \<le> m' \<Longrightarrow> b \<le> b' \<Longrightarrow> served desk held fits ids m' b' om r"
  by (auto simp: served_def intro: desk_mono)

text \<open>The two ways a timer sends one child.\<close>

lemma send_child_served:
  fixes a :: "'z AlgoBase_scheme"
  assumes "desk n om" and "n < limit" and "base_fits w a" and "set (kids a) \<subseteq> held om" and "0 < price"
  shows "served desk held (\<lambda>a'. base_fits w a' \<and> ab_config a' = ab_config a \<and> AlgoBase.more a' = AlgoBase.more a) kids
    (Suc n) (Suc (length (kids a))) om
    (case send_child ops qty price ty a om of Inl e \<Rightarrow> Inl e | Inr (i, a', om') \<Rightarrow> Inr (a', om'))"
  by (rule send_child_desk [OF assms, of qty ty]) (auto simp: served_Inr)

lemma cross_served:
  fixes a :: "'z AlgoBase_scheme"
  assumes d: "desk n om" and lim: "n + length (kids a) < limit" and fits: "base_fits w a" and own: "set (kids a) \<subseteq> held om"
  shows "served desk held (\<lambda>a'. base_fits w a' \<and> ab_config a' = ab_config a \<and> AlgoBase.more a' = AlgoBase.more a) kids
    (Suc (n + length (kids a))) (Suc (length (kids a))) om
    (if 0 < residual
     then case send_child ops residual (cross_price mds (algo_log line a)) IOC (algo_log line a) (base_cancel ops a om) of
            Inl e \<Rightarrow> Inl e | Inr (i, a', om') \<Rightarrow> Inr (a', om')
     else Inr (a, base_cancel ops a om))"
proof -
  let ?a = "algo_log line a" and ?om = "base_cancel ops a om"
  have c: "desk (n + length (kids a)) ?om" "held om \<subseteq> held ?om" using base_cancel_desk [OF d own] by blast+
  have a: "kids ?a = kids a" "base_fits w ?a" "ab_config ?a = ab_config a" "AlgoBase.more ?a = AlgoBase.more a"
    using fits by (simp_all add: algo_log_def kids_def base_fits_def)
  have own': "set (kids ?a) \<subseteq> held ?om" using own c(2) a(1) by simp
  show ?thesis
  proof (cases "0 < residual")
    case True
    from send_child_served [OF c(1) lim a(2) own' cross_price_pos [OF a(2)], of residual mds IOC] True c(2) a
    show ?thesis by (auto simp: served_def)
  next
    case False
    with c own fits desk_mono [OF c(1), of "Suc (n + length (kids a))"] show ?thesis by (auto simp: served_Inr)
  qed
qed

lemma twap_deadline_served:
  assumes "desk n om" and "n + length (kids a) < limit" and "twap_fits w a" and "set (kids a) \<subseteq> held om"
  shows "served desk held (twap_fits w) kids (Suc (n + length (kids a))) (Suc (length (kids a))) om
    (twap_deadline_cross ops mds a om)"
proof (cases "tw_deadline_done a")
  case True
  with assms desk_mono [OF assms(1), of "Suc (n + length (kids a))"] show ?thesis
    by (simp add: twap_deadline_cross_def served_Inr)
next
  case False
  let ?a = "a\<lparr>tw_deadline_done := True\<rparr>"
  have a: "kids ?a = kids a" "base_fits w ?a" using assms(3) by (simp_all add: kids_def base_fits_def twap_fits_def)
  let ?r = "po_qty (ab_parent ?a) - ab_filled ?a - base_inflight ?a"
  note c = cross_served [OF assms(1) _ a(2), of ?r mds "''TWAP deadline: crossing residual='' @ to_string ?r",
      unfolded a(1), OF assms(2,4)]
  have "served desk held (\<lambda>a'. base_fits w a' \<and> ab_config a' = ab_config ?a \<and> AlgoBase.more a' = AlgoBase.more ?a) kids
    (Suc (n + length (kids a))) (Suc (length (kids a))) om (twap_deadline_cross ops mds a om)"
    using c by (simp only: twap_deadline_cross_def Let_def False if_False)
  then show ?thesis using assms(3) more_twap [of _ ?a] by (fastforce simp: served_def twap_fits_def)
qed

lemma timer_end_fits:
  "twap_fits w (done_when_filled a) = twap_fits w a" "kids (done_when_filled a) = kids a"
  "twap_fits w (finish_at_deadline f a) = twap_fits w a" "kids (finish_at_deadline f a) = kids a"
  by (simp_all add: done_when_filled_def finish_at_deadline_def twap_fits_def base_fits_def kids_def)

lemma twap_timer_served:
  assumes "desk n om" and lim: "n + length (kids a) + 9 \<le> limit" and fits: "twap_fits w a" and "set (kids a) \<subseteq> held om"
  shows "served desk held (twap_fits w) kids (n + length (kids a) + 9) (length (kids a) + 8) om
    (twap_on_timer ops mds now a om)"
proof -
  have "served desk held (twap_fits w) kids (n + length (kids a) + 9) (length (kids a) + 8) om
      (twap_deadline_cross ops mds a om)"
    by (rule served_mono [OF twap_deadline_served [OF assms(1) _ assms(3,4)]]) (use lim in auto)
  moreover have "served desk held (twap_fits w) kids (n + length (kids a) + 9) (length (kids a) + 8) om
      (twap_slices ops now a om)"
  proof -
    have k: "nat (tw_n a - tw_slices_done a) \<le> 8" using fits by (simp add: twap_fits_def nat_le_iff)
    then have "n + nat (tw_n a - tw_slices_done a) \<le> limit" using lim by simp
    from twap_slices_served [OF assms(1) this assms(3,4)]
    show ?thesis by (rule served_mono) (use k in auto)
  qed
  moreover have "served desk held (twap_fits w) kids (n + length (kids a) + 9) (length (kids a) + 8) om (Inr (a, om))"
    using assms desk_mono [OF assms(1)] by (simp add: served_Inr)
  ultimately show ?thesis
    unfolding twap_on_timer_def by (auto simp: timer_end_fits intro: served_then)
qed

lemma held_timer_served:
  assumes d: "desk n om" and lim: "n + length (kids t) + 9 \<le> limit" and fits: "pov_fits w a" "twap_fits w t"
    and own: "set (kids t) \<subseteq> held om" "set (kids a) \<subseteq> held om"
  shows "served desk held (pov_fits w) pov_kids (n + length (kids t) + 9) (length (kids a) + length (kids t) + 8) om
    (held_on_timer ops mds now t a om)"
proof -
  obtain t' om' where r: "twap_on_timer ops mds now t om = Inr (t', om')" "desk (n + length (kids t) + 9) om'"
    "held om \<subseteq> held om'" "twap_fits w t'" "set (kids t') \<subseteq> held om'" "length (kids t') \<le> length (kids t) + 8"
    using twap_timer_served [OF d lim fits(2) own(1), of mds now] unfolding served_def by blast
  have "pov_fits w (a\<lparr>pv_twap := Some t'\<rparr>)" using fits(1) r(4) by (simp add: pov_fits_def base_fits_def)
  moreover have "pov_kids (a\<lparr>pv_twap := Some t'\<rparr>) = kids a @ kids t'" by (simp add: pov_kids_def held_kids_def kids_def)
  ultimately show ?thesis using r own(2) by (auto simp: held_on_timer_def served_Inr)
qed

lemma pov_sent_fits:
  fixes a a' :: PovAlgo
  assumes "pov_fits w a" and "base_fits w a'" and "ab_config a' = ab_config a" and "AlgoBase.more a' = AlgoBase.more a"
  shows "pov_fits w a'" and "pov_kids a' = kids a' @ held_kids a"
  using assms more_pov [OF assms(4)] by (simp_all add: pov_fits_def pov_kids_def held_kids_def)

lemma pov_sent_served:
  assumes sent: "served desk held (\<lambda>a'. base_fits w a' \<and> ab_config a' = ab_config a \<and> AlgoBase.more a' = AlgoBase.more a)
      kids m b om r"
    and fits: "pov_fits w a" and own: "set (held_kids a) \<subseteq> held om"
  shows "served desk held (pov_fits w) pov_kids m (b + length (held_kids a)) om r"
proof -
  obtain a' om' where r: "r = Inr (a', om')" "desk m om'" "held om \<subseteq> held om'" "base_fits w a'"
    "ab_config a' = ab_config a" "AlgoBase.more a' = AlgoBase.more a" "set (kids a') \<subseteq> held om'" "length (kids a') \<le> b"
    using sent by (auto simp: served_def)
  from pov_sent_fits [OF fits r(4-6)] r own show ?thesis by (auto simp: served_Inr)
qed

lemma pov_idle_served:
  "desk n om \<Longrightarrow> pov_fits w a \<Longrightarrow> set (pov_kids a) \<subseteq> held om \<Longrightarrow> n \<le> m \<Longrightarrow> length (pov_kids a) \<le> b
   \<Longrightarrow> served desk held (pov_fits w) pov_kids m b om (Inr (a, om))"
  by (simp add: served_Inr desk_mono)

lemma pov_deadline_served:
  assumes d: "desk n om" and lim: "n + length (pov_kids a) + 9 \<le> limit" and fits: "pov_fits w a"
    and own: "set (pov_kids a) \<subseteq> held om"
  shows "served desk held (pov_fits w) pov_kids (n + length (pov_kids a) + 9) (length (pov_kids a) + 8) om
    (pov_deadline_cross ops mds now a om)"
proof (cases "pv_deadline_done a")
  case True
  then show ?thesis using pov_idle_served [OF d fits own] by (simp add: pov_deadline_cross_def)
next
  case False
  let ?a = "a\<lparr>pv_deadline_done := True\<rparr>"
  have a: "pov_fits w ?a" "kids ?a = kids a" "held_kids ?a = held_kids a" "held_twap ?a = held_twap a"
    using fits by (simp_all add: pov_fits_def base_fits_def kids_def held_kids_def held_twap_def)
  have own': "set (kids a) \<subseteq> held om" "set (held_kids a) \<subseteq> held om" using own by (simp_all add: pov_kids_def)
  show ?thesis
  proof (cases "held_twap a")
    case (Some t)
    then have t: "pv_twap a = Some t" by (simp add: held_twap_def split: if_splits)
    then have k: "held_kids a = kids t" "twap_fits w t" using fits by (simp_all add: held_kids_def pov_fits_def)
    have "served desk held (pov_fits w) pov_kids (n + length (kids t) + 9) (length (kids ?a) + length (kids t) + 8) om
        (held_on_timer ops mds now t ?a om)"
      by (rule held_timer_served [OF d _ a(1) k(2)]) (use lim own' k a in \<open>auto simp: pov_kids_def\<close>)
    then have "served desk held (pov_fits w) pov_kids (n + length (pov_kids a) + 9) (length (pov_kids a) + 8) om
        (held_on_timer ops mds now t ?a om)"
      by (rule served_mono) (simp_all add: pov_kids_def k(1) a(2))
    then show ?thesis using False Some a(4) by (simp add: pov_deadline_cross_def Let_def)
  next
    case None
    let ?r = "po_qty (ab_parent ?a) - ab_filled ?a"
    have bf: "base_fits w ?a" using a(1) by (simp add: pov_fits_def)
    have room: "n + length (kids a) < limit" using lim by (simp add: pov_kids_def)
    note c = cross_served [OF d _ bf, of ?r mds "''POV deadline: crossing residual='' @ to_string ?r", unfolded a(2), OF room own'(1)]
    have "pov_cancel ops ?a om = base_cancel ops ?a om" using None a(4) by (simp add: pov_cancel_def)
    with c have c': "served desk held (\<lambda>a'. base_fits w a' \<and> ab_config a' = ab_config ?a \<and> AlgoBase.more a' = AlgoBase.more ?a)
        kids (Suc (n + length (kids a))) (Suc (length (kids a))) om (pov_deadline_cross ops mds now a om)"
      by (simp only: pov_deadline_cross_def Let_def False if_False a(4) None option.case)
    show ?thesis
      by (rule served_mono [OF pov_sent_served [OF c' a(1)]]) (use own'(2) a(3) in \<open>auto simp: pov_kids_def\<close>)
  qed
qed

lemma pov_interval_served:
  assumes d: "desk n om" and lim: "n + length (pov_kids a) + 9 \<le> limit" and fits: "pov_fits w a"
    and own: "set (pov_kids a) \<subseteq> held om"
  shows "served desk held (pov_fits w) pov_kids (n + length (pov_kids a) + 9) (length (pov_kids a) + 8) om
    (pov_interval ops mds now vol a om)"
proof -
  let ?goal = "served desk held (pov_fits w) pov_kids (n + length (pov_kids a) + 9) (length (pov_kids a) + 8) om"
  let ?idle = "a\<lparr>ab_stats := (ab_stats a)\<lparr>as_idle_intervals := as_idle_intervals (ab_stats a) + 1\<rparr>\<rparr>"
  have own': "set (kids a) \<subseteq> held om" "set (held_kids a) \<subseteq> held om" using own by (simp_all add: pov_kids_def)
  have bf: "base_fits w a" using fits by (simp add: pov_fits_def)
  have "pov_fits w ?idle" "pov_kids ?idle = pov_kids a"
    using fits by (simp_all add: pov_fits_def base_fits_def pov_kids_def kids_def held_kids_def)
  then have idle: "?goal (Inr (?idle, om))" "?goal (Inr (a, om))"
    using pov_idle_served [OF d, of ?idle] pov_idle_served [OF d fits own] own by simp_all
  obtain t where t: "pv_twap (degrade_to_twap now a) = Some t" "twap_fits w t" "kids t = []"
    "pov_fits w (degrade_to_twap now a)" "kids (degrade_to_twap now a) = kids a" by (rule degrade_fits [OF fits])
  have degraded: "?goal (held_on_timer ops mds now t (degrade_to_twap now a) om)"
    by (rule served_mono [OF held_timer_served [OF d _ t(4,2)]]) (use lim own' t in \<open>auto simp: pov_kids_def\<close>)
  have price: "0 < po_limit (ab_parent a)" using bf by (simp add: base_fits_def)
  have room: "n < limit" using lim by simp
  have sent: "?goal (case send_child ops q (po_limit (ab_parent a)) Limit a om of
      Inl e \<Rightarrow> Inl e | Inr (i, a1, om1) \<Rightarrow> Inr (a1, om1))" for q
    by (rule served_mono [OF pov_sent_served [OF send_child_served [OF d room bf own'(1) price] fits own'(2)]])
      (simp_all add: pov_kids_def)
  show ?thesis unfolding pov_interval_def Let_def using idle degraded sent t(1) by auto
qed

lemma pov_timer_served:
  assumes d: "desk n om" and lim: "n + length (pov_kids a) + 9 \<le> limit" and fits: "pov_fits w a"
    and own: "set (pov_kids a) \<subseteq> held om"
  shows "served desk held (pov_fits w) pov_kids (n + length (pov_kids a) + 9) (length (pov_kids a) + 8) om
    (pov_on_timer ops mds now a om)"
proof -
  let ?goal = "served desk held (pov_fits w) pov_kids (n + length (pov_kids a) + 9) (length (pov_kids a) + 8) om"
  have idle: "?goal (Inr (a, om))" by (rule pov_idle_served [OF d fits own]) simp_all
  have fin: "pov_fits w (finish_at_deadline f b) = pov_fits w b" "pov_kids (finish_at_deadline f b) = pov_kids b" for f b
    by (simp_all add: finish_at_deadline_def pov_fits_def base_fits_def pov_kids_def kids_def held_kids_def)
  have deadline: "?goal (case pov_deadline_cross ops mds now a om of
      Inl e \<Rightarrow> Inl e | Inr (a1, om1) \<Rightarrow> Inr (finish_at_deadline pov_inflight a1, om1))"
    by (rule served_then [OF pov_deadline_served [OF assms]]) (simp add: fin)
  have own': "set (kids a) \<subseteq> held om" "set (held_kids a) \<subseteq> held om" using own by (simp_all add: pov_kids_def)
  have held_timer: "?goal (case held_on_timer ops mds now t a om of
      Inl e \<Rightarrow> Inl e
    | Inr (a1, om1) \<Rightarrow> Inr (case pv_twap a1 of
         Some t' \<Rightarrow> if ab_done t' then a1\<lparr>ab_done := True\<rparr> else a1 | None \<Rightarrow> a1, om1))" if t: "held_twap a = Some t" for t
  proof (rule served_then)
    have "pv_twap a = Some t" using t by (simp add: held_twap_def split: if_splits)
    then have k: "held_kids a = kids t" "twap_fits w t" using fits by (simp_all add: held_kids_def pov_fits_def)
    show "?goal (held_on_timer ops mds now t a om)"
      by (rule served_mono [OF held_timer_served [OF d _ fits k(2)]]) (use lim own' k in \<open>auto simp: pov_kids_def\<close>)
  qed (auto simp: pov_fits_def base_fits_def pov_kids_def kids_def held_kids_def split: option.splits)
  let ?tick = "\<lambda>vol. a\<lparr>pv_last_tick := now, pv_market_volume := pv_market_volume a + vol,
       ab_stats := (ab_stats a)\<lparr>as_market_volume := pv_market_volume a + vol\<rparr>\<rparr>"
  have tick: "pov_fits w (?tick vol)" "pov_kids (?tick vol) = pov_kids a" for vol
    using fits by (simp_all add: pov_fits_def base_fits_def pov_kids_def kids_def held_kids_def)
  have "?goal (pov_interval ops mds now vol (?tick vol) om)" for vol
    using pov_interval_served [OF d, of "?tick vol"] lim own tick by simp
  with idle deadline held_timer show ?thesis
    unfolding pov_on_timer_def Let_def by (auto split: option.splits)
qed

text \<open>The timer of either algo.\<close>

lemma algo_timer_served:
  assumes "desk n om" and "n + length (algo_kids a) + 9 \<le> limit" and "algo_fits w a" and "set (algo_kids a) \<subseteq> held om"
  shows "served desk held (algo_fits w) algo_kids (n + length (algo_kids a) + 9) (length (algo_kids a) + 8) om
    (algo_on_timer ops mds now a om)"
proof (cases a)
  case (Twap t)
  with assms served_then [OF twap_timer_served, where fits' = "algo_fits w" and ids' = algo_kids and f = Twap]
  show ?thesis by simp
next
  case (Pov p)
  with assms served_then [OF pov_timer_served, where fits' = "algo_fits w" and ids' = algo_kids and f = Pov]
  show ?thesis by simp
qed

end

section \<open>The wired pair is a desk\<close>

definition worker_desk ::
  "SimConfig \<Rightarrow> VenueId \<Rightarrow> int \<Rightarrow> int \<Rightarrow> int \<Rightarrow> nat \<Rightarrow> 'g SimulatedExchange OrderManager \<Rightarrow> bool" where
  "worker_desk cfg v D R w n s \<longleftrightarrow> 0 \<le> sc_step_ns cfg \<and> D < w \<and> w \<le> R \<and> steady cfg v D R n s"

interpretation pair: order_desk "sim_client draw" "worker_desk cfg v D R w" "known v" "2 ^ 15" w
  for draw cfg v D R w
proof (unfold_locales, goal_cases)
  case (1 n om req)
  then have st: "steady cfg v D R n om" "0 \<le> sc_step_ns cfg" and req: "worker_request D R req"
    by (simp_all add: worker_desk_def worker_request_def)
  show ?case
    by (rule submit_steady [OF st(1) 1(2) req st(2), where draw = draw]) (use 1(1) in \<open>auto simp: worker_desk_def\<close>)
next
  case (2 n om i)
  then have st: "steady cfg v D R n om" "0 \<le> sc_step_ns cfg" by (simp_all add: worker_desk_def)
  from cancel_steady [OF st(1) 2(2) st(2), of draw] 2(1) show ?case by (simp add: worker_desk_def)
next
  case (3 n om m)
  then have "steady cfg v D R n om" by (simp add: worker_desk_def)
  from steady_mono [OF this order_refl order_refl 3(2)] 3(1) show ?case by (simp add: worker_desk_def)
qed

end
