(* ===== verification/DriverProps.thy ===== *)
theory DriverProps
  imports Drivers ReconProps
begin

text \<open>
  The components together: reconciliation of the wired pair, the demo's output, and the benchmark's
  rig.
\<close>

section \<open>Reconciliation finds nothing\<close>

text \<open>With one connected venue the snapshot is the venue's own book.\<close>

lemma world_snapshot:
  assumes ok: "world_ok v s" and x: "venue_get v s = Some x" and up: "sx_connected x"
  shows "map_get 0 (snapshot_positions (sim_client draw) (om_registry s)) k = map_get 0 (sx_positions x) k"
proof -
  let ?f = "\<lambda>u. case registry_get (om_registry s) u of None \<Rightarrow> 0
     | Some ex \<Rightarrow> if ec_is_connected (sim_client draw) ex then map_get 0 (ec_get_positions (sim_client draw) ex) k else 0"
  have others: "registry_get (om_registry s) u = None" if "u \<noteq> v" for u
    using ok that by (simp add: world_ok_def venue_get_def)
  have "?f u = (if u = v then map_get 0 (sx_positions x) k else 0)" for u
    using x up others [of u] by (cases "u = v") (simp_all add: venue_get_def sim_client_def)
  then have "connected_position (sim_client draw) (om_registry s) k = map_get 0 (sx_positions x) k"
    by (simp add: connected_position_def)
  moreover have "registry_inv (om_registry s)" using ok by (simp add: world_ok_def)
  ultimately show ?thesis by (simp add: snapshot_sum)
qed

lemma recon_insts_in_sync:
  assumes "\<And>k. map_get 0 ex_pos k = pos_net (position om k)" and "0 \<le> pc_threshold (pr_cfg pr)"
    and "\<forall>r \<in> set out. dr_action r = InSync \<and> dr_drift r = 0"
  shows "\<exists>recs pr'. recon_insts ops now ex_pos insts out pr om = Inr (recs, pr', om)
    \<and> (\<forall>r \<in> set recs. dr_action r = InSync \<and> dr_drift r = 0)
    \<and> pr_corrective_orders pr' = pr_corrective_orders pr \<and> pr_halts pr' = pr_halts pr \<and> pr_halted pr' = pr_halted pr
    \<and> pr_cfg pr' = pr_cfg pr"
  using assms
proof (induction insts arbitrary: out pr)
  case (Cons k insts)
  obtain rec pr1 where r: "recon_inst ops now ex_pos k pr om = Inr (rec, pr1, om)" "dr_action rec = InSync" "dr_drift rec = 0"
      "pr_corrective_orders pr1 = pr_corrective_orders pr" "pr_halts pr1 = pr_halts pr" "pr_halted pr1 = pr_halted pr"
      "pr_cfg pr1 = pr_cfg pr"
    using Cons.prems(1,2) by (simp add: recon_inst_def Let_def recon_log_def)
  have "\<forall>r \<in> set (out @ [rec]). dr_action r = InSync \<and> dr_drift r = 0" using Cons.prems(3) r(2,3) by simp
  from Cons.IH [where pr = pr1, OF Cons.prems(1) _ this] Cons.prems(2) r show ?case by simp
qed simp

lemma world_in_sync:
  assumes ok: "world_ok v s" and x: "venue_get v s = Some x" "sx_connected x" and thr: "0 \<le> pc_threshold (pr_cfg pr)"
  shows "\<exists>recs pr'. reconcile (sim_client draw) now pr s = Inr (recs, pr', s)
    \<and> (\<forall>r \<in> set recs. dr_action r = InSync \<and> dr_drift r = 0)
    \<and> pr_corrective_orders pr' = pr_corrective_orders pr \<and> pr_halts pr' = pr_halts pr \<and> pr_halted pr' = pr_halted pr
    \<and> pr_cfg pr' = pr_cfg pr"
proof -
  have "agrees x s" using ok x(1) by (auto simp: world_ok_def)
  then have "map_get 0 (snapshot_positions (sim_client draw) (om_registry s)) k = pos_net (position s k)" for k
    using world_snapshot [OF ok x] by (simp add: agrees_def)
  note sync = recon_insts_in_sync [OF this thr, of "[]"]
  show ?thesis using sync by (cases "pr_halted pr") (simp_all add: reconcile_def Let_def)
qed

text \<open>C17: the reconciler of a wired pair never has work: while the venue is connected a
  reconciliation returns, finds every instrument in sync, sends no corrective order and never
  halts, in every state the pair reaches.\<close>

theorem reconciliation_in_sync:
  assumes "wire seed_rng draw wit lit cfg health_log om_sink cap wall = Inr s0" and "timing_ok cfg"
    and "\<forall>A. set (lit A) = A" and "(world_step draw 0)\<^sup>*\<^sup>* s0 s"
    and "venue_get 0 s = Some x" and "sx_connected x" and "0 \<le> pc_threshold (pr_cfg pr)"
  shows "\<exists>recs pr'. reconcile (sim_client draw) now pr s = Inr (recs, pr', s)
    \<and> (\<forall>r \<in> set recs. dr_action r = InSync \<and> dr_drift r = 0)
    \<and> pr_corrective_orders pr' = pr_corrective_orders pr \<and> pr_halts pr' = pr_halts pr \<and> pr_halted pr' = pr_halted pr"
  using world_in_sync [OF world_reach_ok [OF assms(4) wire_ok [OF assms(1-3)]] assms(5-7), of draw now] by blast

theorem reconciliation_in_sync_witness:
  "\<exists>j s x recs pr'. submit (sim_client ex_never) ex_request ex_wired = Inr (j, s) \<and> venue_get 0 s = Some x
    \<and> (let s1 = venue_put 0 (sim_set_connected True x) s
       in reconcile (sim_client ex_never) 5 (recon_new default_recon_config None) s1 = Inr (recs, pr', s1))
    \<and> pr_corrective_orders pr' = 0 \<and> \<not> pr_halted pr'"
proof -
  obtain j s where s: "submit (sim_client ex_never) ex_request ex_wired = Inr (j, s)" "world_step ex_never 0 ex_wired s"
    by (rule ex_wired_submit)
  obtain x where x: "venue_get 0 s = Some x"
    using world_step_ok [OF s(2) wire_ok [OF ex_wire ex_timing ex_lit]] by (auto simp: world_ok_def)
  let ?s1 = "venue_put 0 (sim_set_connected True x) s"
  have "(world_step ex_never 0)\<^sup>*\<^sup>* ex_wired ?s1"
    using s(2) ws_connect [OF x] by (meson r_into_rtranclp rtranclp.rtrancl_into_rtrancl)
  moreover have "venue_get 0 ?s1 = Some (sim_set_connected True x)" by (rule venue_put_get(1) [OF x])
  moreover have "sx_connected (sim_set_connected True x)" by (simp add: sim_set_connected_def)
  moreover have "0 \<le> pc_threshold (pr_cfg (recon_new default_recon_config None))"
    by (simp add: recon_new_def default_recon_config_def)
  ultimately obtain recs pr' where "reconcile (sim_client ex_never) 5 (recon_new default_recon_config None) ?s1 = Inr (recs, pr', ?s1)"
    "pr_corrective_orders pr' = pr_corrective_orders (recon_new default_recon_config None)"
    "pr_halted pr' = pr_halted (recon_new default_recon_config None)"
    using reconciliation_in_sync [OF ex_wire ex_timing ex_lit] by blast
  then show ?thesis using s(1) x by (auto simp: recon_new_def Let_def)
qed

section \<open>The demo\<close>

text \<open>The pair as wired: nothing sent, the venue tradeable.\<close>

lemma wire_fresh:
  assumes "wire seed_rng draw wit lit cfg health_log om_sink cap wall = Inr s"
  shows "pool_new cap = Inr (om_pool s)" and "\<not> om_killed s" and "venue_up (om_health s) 0"
    and "om_router s = [0]" and "om_venue_seq s = Map.empty" and "om_positions s = Map.empty"
    and "venue_get 0 s = Some (sim_set_sink True (sim_new seed_rng wit 0 cfg))"
proof -
  let ?sim = "sim_new seed_rng wit 0 cfg"
  have "ec_venue_id (sim_client draw) ?sim = 0" by (simp add: sim_client_def sim_new_def)
  then have "registry_add (sim_client draw) (Some ?sim) registry_new = Inr \<lparr>by_venue = [Some ?sim], reg_count = 1\<rparr>"
    by (simp add: registry_add_def registry_new_def Let_def)
  then obtain s0 where s0: "om_new \<lparr>by_venue = [Some ?sim], reg_count = 1\<rparr> [0]
      ((register_venue 0 (health_new default_health_config health_log wall))\<lparr>hm_clock := sx_now ?sim\<rparr>)
      om_sink cap lit (sx_now ?sim) = Inr s0" "s = venue_put 0 (sim_set_sink True ?sim) s0"
    using assms by (auto simp: wire_def Let_def ebind_Inr_iff registry_venues_def)
  from s0 show "pool_new cap = Inr (om_pool s)" "\<not> om_killed s" "om_router s = [0]" "om_venue_seq s = Map.empty"
    "om_positions s = Map.empty" "venue_up (om_health s) 0"
    by (auto simp: om_new_def ebind_Inr_iff venue_put_def venue_up_def register_venue_def health_new_def new_venue_state_def)
  from s0 have "venue_get 0 s0 = Some ?sim" by (auto simp: om_new_def ebind_Inr_iff venue_get_def registry_get_def)
  then show "venue_get 0 s = Some (sim_set_sink True ?sim)" unfolding s0(2) by (rule venue_put_get(1))
qed

text \<open>What the default venue schedules for the demo's order when no draw hits, and its polls.\<close>

lemma demo_place:
  assumes never: "\<And>g. \<not> fst (draw 0 g)" and ord: "o_size ord = 100" "o_side ord = Buy" "o_instrument ord = 42"
    and x: "x = sim_set_sink True (sim_new seed_rng wit 0 default_sim_config)"
  defines "x1 \<equiv> sim_schedule_order draw ord (sim_book_order ord x)"
  shows "sim_place_order draw ord x = (SendOk, x1)"
    and "sx_queue x1 = [sim_event 1000000 SimConfirm (o_internal_id ord),
       (sim_event 2000000 SimFill (o_internal_id ord))\<lparr>se_seq := 1, se_qty := 100, se_price := o_limit_price ord,
          se_trade := 1, se_final := True\<rparr>]"
    and "\<exists>w. sx_working x1 = [o_internal_id ord \<mapsto> w] \<and> wk_alive w \<and> wk_side w = Buy \<and> wk_instrument w = 42
       \<and> wk_seen_trades w = {}"
    and "sx_positions x1 = Map.empty" and "sx_cfg x1 = default_sim_config" and "sx_now x1 = 0" and "sx_sink x1"
proof -
  have d: "fst (sim_draw draw 0 y) = False" "snd (sim_draw draw 0 y) = y\<lparr>sx_rng := snd (draw 0 (sx_rng y))\<rparr>" for y
    using never by (simp_all add: sim_draw_def split_beta)
  note defs = x sim_schedule_order_def sim_book_order_def Let_def split_beta d
        sim_set_sink_def sim_new_def default_sim_config_def schedule_def queue_push_event_def sim_event_def event_key_def
        tdiv_def ord
  show "sim_place_order draw ord x = (SendOk, x1)"
    by (simp add: x1_def x sim_place_order_def sim_set_sink_def sim_new_def default_sim_config_def)
  show "sx_queue x1 = [sim_event 1000000 SimConfirm (o_internal_id ord),
       (sim_event 2000000 SimFill (o_internal_id ord))\<lparr>se_seq := 1, se_qty := 100, se_price := o_limit_price ord,
          se_trade := 1, se_final := True\<rparr>]" by (simp add: x1_def defs)
  show "\<exists>w. sx_working x1 = [o_internal_id ord \<mapsto> w] \<and> wk_alive w \<and> wk_side w = Buy \<and> wk_instrument w = 42
       \<and> wk_seen_trades w = {}" 
    by (rule exI [of _ "the (sx_working x1 (o_internal_id ord))"]) (simp add: x1_def defs)
  show "sx_positions x1 = Map.empty" "sx_cfg x1 = default_sim_config" "sx_now x1 = 0" "sx_sink x1"
    by (simp_all add: x1_def defs)
qed

text \<open>Two polls deliver the confirm and the fill.\<close>

lemma demo_polled:
  fixes x1 :: "'g SimulatedExchange"
  assumes q: "sx_queue x1 = [sim_event 1000000 SimConfirm i,
       (sim_event 2000000 SimFill i)\<lparr>se_seq := 1, se_qty := 100, se_price := p, se_trade := 1, se_final := True\<rparr>]"
    and w: "\<exists>w. sx_working x1 = [i \<mapsto> w] \<and> wk_alive w \<and> wk_side w = Buy \<and> wk_instrument w = 42
       \<and> wk_seen_trades w = {}"
    and x1: "sx_positions x1 = Map.empty" "sx_cfg x1 = default_sim_config" "sx_now x1 = 0" "sx_sink x1"
  defines "x2 \<equiv> snd (sim_poll x1)"
  shows "sx_working x2 = sx_working x1"
    and "sx_queue (snd (sim_poll x2)) = []" and "sx_positions (snd (sim_poll x2)) = [42 \<mapsto> 100]"
proof -
  have step: "sc_step_ns (sx_cfg x1) = 1000000" by (simp add: x1 default_sim_config_def)
  have x2: "x2 = x1\<lparr>sx_now := 1000000, sx_queue := tl (sx_queue x1)\<rparr>"
    using q x1(3,4) step
    by (simp add: x2_def sim_poll_def sim_drain.simps sim_deliver_def sim_event_def)
  then show "sx_working x2 = sx_working x1" by simp
  obtain v where v: "sx_working x1 = [i \<mapsto> v]" "wk_alive v" "wk_side v = Buy" "wk_instrument v = 42" "wk_seen_trades v = {}"
    using w by blast
  show "sx_queue (snd (sim_poll x2)) = []" "sx_positions (snd (sim_poll x2)) = [42 \<mapsto> 100]"
    using q x1 step v
    by (simp_all add: x2 sim_poll_def sim_drain.simps sim_deliver_def sim_event_def sim_book_fill_def Let_def split_beta
        map_upd_def)
qed

text \<open>The demo's loop: the order is found while it is live, and once the venue is idle nothing
  changes any more.\<close>

lemma demo_polls_idle:
  assumes "world_live cfg 0 s" and "venue_get 0 s = Some x" and "sx_queue x = []" and "0 \<le> sc_step_ns cfg"
  obtains s' x' where "demo_polls n i s = Inr s'" "world_live cfg 0 s'" "venue_get 0 s' = Some x'" "sx_queue x' = []"
    "sx_positions x' = sx_positions x"
  using assms
proof (induction n arbitrary: s x thesis)
  case (Suc n)
  show ?case
  proof (cases "find_order s i = None")
    case True
    with Suc.prems show ?thesis by simp
  next
    case False
    have ok: "world_ok 0 s" using Suc.prems(2) by (simp add: world_live_def)
    obtain s1 evs where s1: "world_poll 0 s = Inr (s1, evs)" "(world_step (\<lambda>p g. (False, g)) 0)\<^sup>*\<^sup>* s s1"
      "venue_get 0 s1 = Some (snd (sim_poll x))" by (rule world_poll_ok [OF ok Suc.prems(3)])
    have idle: "sim_poll x = ([], x\<lparr>sx_now := sx_now x + sc_step_ns (sx_cfg x)\<rparr>)"
      using Suc.prems(4) by (simp add: sim_poll_def sim_drain.simps)
    have "world_live cfg 0 s1" by (rule world_reach_live [OF s1(2) Suc.prems(2,5)])
    with Suc.IH [OF _ this s1(3)] Suc.prems(1,4,5) idle s1(1) False show ?thesis by auto
  qed
qed simp

text \<open>The first order of a fresh pair has id 1.\<close>

lemma new_poolE:
  assumes "pool_new cap = Inr p"
  shows "0 < cap" and "capacity p = cap" and "in_use p = 0" and "generation p = replicate cap 0"
    and "free_list p = map (\<lambda>i. cap - 1 - i) [0..<cap]"
  using assms by (auto simp: pool_new_def split: if_splits)

lemma first_id:
  assumes "pool_new cap = Inr (om_pool s)" and "om_venue_seq s = Map.empty" and "reserve_order req 0 s = Inr (i, s1)"
  shows "i = 1"
proof -
  have "acquire (om_pool s) = Inr (0, p) \<Longrightarrow> generation p ! 0 = 0" "\<exists>p. acquire (om_pool s) = Inr (0, p)" for p
    using new_poolE [OF assms(1)] by (auto simp: acquire_def Let_def last_map)
  moreover have "i = encode_order_id 0 (generation p ! slot) (word_of_nat slot) 1"
    if "acquire (om_pool s) = Inr (slot, p)" for slot p
    using assms(2,3) that by (auto simp: reserve_order_def Let_def ebind_Inr_iff map_get_def)
  ultimately have "i = encode_order_id 0 0 0 1" by fastforce
  also have "\<dots> = 1" by (simp add: encode_order_id_def id_consts id_masks)
  finally show ?thesis .
qed

lemma demo_submits:
  assumes w: "wire seed_rng draw wit lit default_sim_config health_log om_sink cap wall = Inr s0"
    and lit: "\<forall>A. set (lit A) = A" and never: "\<And>g. \<not> fst (draw 0 g)"
  obtains s1 x1 ord where "submit (sim_client draw) demo_request s0 = Inr (1, s1)" "world_step draw 0 s0 s1"
    "venue_get 0 s1 = Some x1" "x1 = snd (sim_place_order draw ord (sim_set_sink True (sim_new seed_rng wit 0 default_sim_config)))"
    "o_size ord = 100" "o_side ord = Buy" "o_instrument ord = 42" "o_internal_id ord = 1"
proof -
  have timing: "timing_ok default_sim_config" by (simp add: timing_ok_def default_sim_config_def)
  have ok: "world_ok 0 s0" by (rule wire_ok [OF w timing lit])
  note inv = world_ok_inv [OF ok] and fresh = wire_fresh [OF w]
  let ?x = "sim_set_sink True (sim_new seed_rng wit 0 default_sim_config)"
  have req: "valid_request demo_request" "0 < rq_price demo_request" "rq_instrument demo_request = 42"
      "rq_side demo_request = Buy" "rq_size demo_request = 100"
    by (simp_all add: valid_request_def demo_request_def default_request_def)
  have reg: "registry_get (om_registry s0) 0 = Some ?x" using fresh(7) by (simp add: venue_get_def)
  have room: "\<not> pool_full (om_pool s0)" using new_poolE [OF fresh(1)] by (simp add: pool_full_def)
  show ?thesis
  proof (rule submit_cases [OF inv req(1), of "sim_client draw"])
    fix venue ex i s1 r ex'
    assume a: "venue \<in> set (om_router s0)" "registry_get (om_registry s0) venue = Some ex"
      "reserve_order demo_request venue s0 = Inr (i, s1)" "ec_place_order (sim_client draw) (order_ref s1 i) ex = (r, ex')"
      "place_reserved (sim_client draw) demo_request venue ex i s1 = submit (sim_client draw) demo_request s0"
      "venue \<in> hm_registered (om_health s0)"
    have ven: "venue = 0" "ex = ?x" using a(1,2) fresh(4) reg by auto
    show ?thesis
    proof (rule reserve_order_ok [OF inv room req(1) a(6)], goal_cases)
      case (1 i' s1' ord)
      have i: "i = 1" by (rule first_id [OF fresh(1,5) a(3) [unfolded ven]])
      have eq: "i' = i" "s1' = s1" using 1(1) a(3) by auto
      note b = 1 [unfolded eq req i]
      have ord: "order_ref s1 1 = ord" "o_size ord = 100" "o_side ord = Buy" "o_instrument ord = 42" "o_internal_id ord = 1"
        using b(6,7,10-12) by simp_all
      have call: "sim_place_order draw ord ?x = (r, ex')" using a(4) ord(1) by (simp add: i ven sim_client_def)
      have "r = SendOk" using call by (simp add: sim_place_order_def sim_set_sink_def sim_new_def default_sim_config_def)
      have live: "1 \<in> om_live s1" using b(5) by simp
      have call': "ec_place_order (sim_client draw) (order_ref s1 1) ?x = (r, ex')" using call ord(1) by (simp add: sim_client_def)
      have s1: "o_size (order_ref s1 1) = rq_size demo_request" "o_filled_size (order_ref s1 1) = 0"
        "o_instrument (order_ref s1 1) = rq_instrument demo_request" "o_side (order_ref s1 1) = rq_side demo_request"
        using ord b(8) req by simp_all
      have reg1: "om_registry s1 = om_registry s0" "venue_of 1 = 0" using b(13,16) ven by simp_all
      show ?thesis
      proof (cases rule: place_reserved_ok [OF b(2) live req(1) s1 reg1(2) call'])
        case sent: (1 s')
        have sub: "submit (sim_client draw) demo_request s0 = Inr (1, s')" using sent(2) a(5) by (simp add: i ven)
        have "counters_ok ?x" by (simp add: counters_ok_def sim_set_sink_def sim_new_def default_sim_config_def)
        then have "world_step draw 0 s0 s'"
          using fresh(5,7) sub req(1,2) by (intro ws_submit [of demo_request]) (simp_all add: orders_sent_def)
        moreover have "venue_get 0 s' = Some ex'"
          using sent(7) reg1(1) registry_get_put_same [OF reg] by (simp add: venue_get_def)
        ultimately show ?thesis using that [OF sub _ _ _ ord(2-5)] call by simp
      qed (use \<open>r = SendOk\<close> in simp)
    qed
  qed (use fresh reg room in auto)
qed

lemma demo_digits: "to_string 0 = ''0''" "to_string 1 = ''1''" "to_string 100 = ''100''"
  by code_simp+

lemma live_found:
  assumes "world_ok 0 s" and "venue_get 0 s = Some x" and "sx_working x i = Some w" and "wk_alive w"
  shows "find_order s i \<noteq> None"
proof -
  have "om_inv s" "i \<in> om_live s" using assms by (auto simp: world_ok_def agrees_def)
  then show ?thesis by (simp add: find_order_def om_live_current)
qed

text \<open>C18: the demo prints a position of 100 and nothing pending: whatever the generator's state, as
  long as a draw of probability zero does not hit.\<close>

theorem demo_fills_its_order:
  assumes never: "\<And>g. \<not> fst (draw 0 g)" and lit: "\<forall>A. set (lit A) = A"
  shows "demo_main seed_rng draw wit lit wall = Inr (''submitted id=1'' @ newline
    @ ''position(42)=100 pending(42)=0'' @ newline)"
proof -
  let ?cfg = default_sim_config
  have cap: "0 < kDefaultCapacity" "kDefaultCapacity \<le> 2 ^ 24" by (simp_all add: kDefaultCapacity_def)
  have cfg: "timing_ok ?cfg" "0 \<le> sc_step_ns ?cfg" by (simp_all add: timing_ok_def default_sim_config_def)
  obtain s0 where w: "wire seed_rng draw wit lit ?cfg (Some []) (Some []) kDefaultCapacity wall = Inr s0"
    using wire_returns [OF cap] by blast
  obtain s1 x1 ord where s1: "submit (sim_client draw) demo_request s0 = Inr (1, s1)" "world_step draw 0 s0 s1"
    "venue_get 0 s1 = Some x1" "x1 = snd (sim_place_order draw ord (sim_set_sink True (sim_new seed_rng wit 0 ?cfg)))"
    "o_size ord = 100" "o_side ord = Buy" "o_instrument ord = 42" "o_internal_id ord = 1"
    by (rule demo_submits [OF w lit never])
  note p = demo_place [where draw = draw and ord = ord and seed_rng = seed_rng and wit = wit, OF never s1(5-7) refl]
  have x1: "x1 = sim_schedule_order draw ord (sim_book_order ord (sim_set_sink True (sim_new seed_rng wit 0 ?cfg)))"
    using s1(4) p(1) by simp
  note p = p(2-7) [folded x1, unfolded s1(8)]
  note v = demo_polled [OF p]
  have live1: "world_live ?cfg 0 s1" by (rule world_step_live [OF s1(2) wire_live [OF w cfg(1) lit] cfg(2)])
  have f1: "find_order s1 1 \<noteq> None" using live_found [OF _ s1(3)] live1 p(2) by (auto simp: world_live_def)
  obtain s2 evs2 where s2: "world_poll 0 s1 = Inr (s2, evs2)" "(world_step draw 0)\<^sup>*\<^sup>* s1 s2"
    "venue_get 0 s2 = Some (snd (sim_poll x1))"
    using world_poll_ok [OF _ s1(3)] live1 unfolding world_live_def by blast
  have live2: "world_live ?cfg 0 s2" by (rule world_reach_live [OF s2(2) live1 cfg(2)])
  have f2: "find_order s2 1 \<noteq> None" using live_found [OF _ s2(3)] live2 p(2) v(1) by (auto simp: world_live_def)
  obtain s3 evs3 where s3: "world_poll 0 s2 = Inr (s3, evs3)" "(world_step draw 0)\<^sup>*\<^sup>* s2 s3"
    "venue_get 0 s3 = Some (snd (sim_poll (snd (sim_poll x1))))"
    using world_poll_ok [OF _ s2(3)] live2 unfolding world_live_def by blast
  have live3: "world_live ?cfg 0 s3" by (rule world_reach_live [OF s3(2) live2 cfg(2)])
  obtain s4 x4 where s4: "demo_polls 8 1 s3 = Inr s4" "world_live ?cfg 0 s4" "venue_get 0 s4 = Some x4" "sx_queue x4 = []"
    "sx_positions x4 = [42 \<mapsto> 100]"
    using demo_polls_idle [OF live3 s3(3) v(2) cfg(2), of 8 1] v(3) by metis
  have "demo_polls (Suc (Suc 8)) 1 s1 = Inr s4"
    using f1 f2 by (simp only: demo_polls.simps s2(1) s3(1) s4(1) if_False sum.case prod.case)
  then have "demo_polls 10 1 s1 = Inr s4" by (simp only: eval_nat_numeral BitM.simps)
  moreover have "pos_net (position s4 42) = 100"
    using s4(2,3,5) by (auto simp: world_live_def world_ok_def agrees_def map_get_def)
  moreover have "pending_quantity s4 42 = 0" by (rule drained_idle(2) [OF s4(2-4)])
  ultimately show ?thesis
    using w s1(1) by (simp add: demo_main_def demo_output_def id_str_def demo_digits)
qed

theorem demo_fills_its_order_witness:
  "demo_main (\<lambda>_. ()) ex_never sorted_list_of_set sorted_list_of_set 7
     = Inr (''submitted id=1'' @ newline @ ''position(42)=100 pending(42)=0'' @ newline)"
  by (rule demo_fills_its_order) (simp_all add: ex_never_def)

end
