(* ===== verification/BenchProps.thy ===== *)
theory BenchProps
  imports AlgoDesk DriverProps
begin

text \<open>
  The benchmark runs to its end whatever the generator draws: no counter wraps, no handler leaves
  its contract, and no event ever reaches an algo that a finished cycle has destroyed.
\<close>

section \<open>The dispatcher\<close>

definition heard :: "OrderEvent \<Rightarrow> Order \<Rightarrow> Reg \<Rightarrow> Reg" where
  "heard e ord = (\<lambda>(a, offset, index). (if tag ord \<noteq> index then a else deliver_to e ord a, offset, index))"

lemma retrieve_tag: "retrieve_int_data 0 ord = Inr (tag ord)"
  by (simp add: retrieve_int_data_def kScratchSlots_def tag_def)

lemma dispatch_regs_heard:
  "\<forall>r \<in> set regs. fst (snd r) = 0 \<Longrightarrow> dispatch_regs e ord regs = Inr (map (heard e ord) regs)"
  by (induction regs) (auto simp: retrieve_tag heard_def)

text \<open>An event of no destroyed algo's order goes through.\<close>

lemma dispatch_past_heard:
  "\<forall>r \<in> set regs. fst (snd r) = 0 \<Longrightarrow> \<forall>r \<in> set (take d regs). snd (snd r) \<noteq> tag ord
   \<Longrightarrow> dispatch_past d e ord regs = Inr (map (heard e ord) regs)"
proof (induction d arbitrary: regs)
  case 0
  then show ?case by (simp add: dispatch_regs_heard)
next
  case (Suc d)
  show ?case
  proof (cases regs)
    case (Cons r regs')
    obtain a offset index where r: "r = (a, offset, index)" by (cases r)
    have "dispatch_past d e ord regs' = Inr (map (heard e ord) regs')" by (rule Suc.IH) (use Suc.prems Cons in auto)
    then show ?thesis using Suc.prems Cons r by (simp add: retrieve_tag heard_def)
  qed simp
qed

text \<open>Registrations number their algos from one.\<close>

definition regs_ok :: "Reg list \<Rightarrow> bool" where
  "regs_ok regs \<longleftrightarrow> (\<forall>k < length regs. snd (regs ! k) = (0, int k + 1))"

lemma regs_okD: "regs_ok regs \<Longrightarrow> \<forall>r \<in> set regs. fst (snd r) = 0"
  unfolding regs_ok_def by (metis fst_conv in_set_conv_nth)

lemma regs_ok_past:
  assumes "regs_ok regs" and "int d < t"
  shows "\<forall>r \<in> set (take d regs). snd (snd r) \<noteq> t"
proof
  fix r assume "r \<in> set (take d regs)"
  then obtain k where k: "k < length regs" "k < d" "r = regs ! k" by (auto simp: in_set_conv_nth)
  with assms show "snd (snd r) \<noteq> t" by (simp add: regs_ok_def)
qed

lemma regs_ok_append: "regs_ok regs \<Longrightarrow> regs_ok (regs @ [(a, 0, int (length regs) + 1)])"
  by (auto simp: regs_ok_def nth_append less_Suc_eq)

lemma regs_ok_update: "regs_ok regs \<Longrightarrow> k < length regs \<Longrightarrow> regs_ok (regs[k := (a, snd (regs ! k))])"
  by (auto simp: regs_ok_def nth_list_update)

section \<open>The rig\<close>

definition rig_ok :: "nat \<Rightarrow> 'g Rig \<Rightarrow> bool" where
  "rig_ok n rg \<longleftrightarrow> steady bench_config 0 (int (rg_destroyed rg)) (int (length (rg_regs rg))) n (rg_om rg)
     \<and> rg_destroyed rg \<le> length (rg_regs rg) \<and> regs_ok (rg_regs rg)
     \<and> rg_next_worker rg = int (length (rg_regs rg)) + 1
     \<and> (\<forall>i \<in> set bench_insts. sm_books (rg_mds rg) i = Some bench_book)"

lemma rig_ok_mono: "rig_ok n rg \<Longrightarrow> n \<le> m \<Longrightarrow> rig_ok m rg"
  unfolding rig_ok_def using steady_mono [OF _ order_refl order_refl] by blast

text \<open>The algo behind registration \<open>k\<close> can run: it is alive and has at most \<open>m\<close> children, all known
  to the venue.\<close>

definition running :: "nat \<Rightarrow> nat \<Rightarrow> 'g Rig \<Rightarrow> bool" where
  "running k m rg \<longleftrightarrow> k < length (rg_regs rg) \<and> rg_destroyed rg \<le> k \<and> (let a = fst (rg_regs rg ! k) in
     algo_fits (int k + 1) a \<and> set (algo_kids a) \<subseteq> known 0 (rg_om rg) \<and> length (algo_kids a) \<le> m)"

text \<open>What an operation of the rig leaves alone.\<close>

definition rig_same :: "'g Rig \<Rightarrow> 'g Rig \<Rightarrow> bool" where
  "rig_same rg rg' \<longleftrightarrow> length (rg_regs rg') = length (rg_regs rg) \<and> rg_destroyed rg' = rg_destroyed rg
     \<and> rg_mds rg' = rg_mds rg \<and> rg_next_worker rg' = rg_next_worker rg"

lemma rig_same_refl [simp]: "rig_same rg rg"
  by (simp add: rig_same_def)

lemma rig_same_trans [trans]: "rig_same rg rg1 \<Longrightarrow> rig_same rg1 rg2 \<Longrightarrow> rig_same rg rg2"
  by (simp add: rig_same_def)

lemma bench_numbers: "0 \<le> sc_step_ns bench_config" "timing_ok bench_config" "sc_start_connected bench_config"
    "order_cost bench_config \<le> 2 ^ 17" "horizon bench_config \<le> int 8 * sc_step_ns bench_config"
  by (simp_all add: bench_config_def default_sim_config_def timing_ok_def order_cost_def horizon_def)

lemma rig_venue:
  assumes "rig_ok n rg"
  obtains x where "venue_get 0 (rg_om rg) = Some x" and "sx_connected x"
  using assms by (auto simp: rig_ok_def steady_def funded_def)

text \<open>Publishing to the collector and the dispatcher changes what the algos know, nothing else.\<close>

definition hears_reg :: "Reg \<Rightarrow> Reg \<Rightarrow> bool" where
  "hears_reg r r' \<longleftrightarrow> snd r' = snd r \<and> (\<forall>w. algo_fits w (fst r) \<longrightarrow> algo_fits w (fst r')
     \<and> fewer (algo_kids (fst r')) (algo_kids (fst r)))"

lemma fewer_trans: "fewer xs ys \<Longrightarrow> fewer ys zs \<Longrightarrow> fewer xs zs"
  by (auto simp: fewer_def)

lemma hears_reg_refl: "hears_reg r r"
  by (simp add: hears_reg_def)

lemma hears_reg_trans: "hears_reg r s \<Longrightarrow> hears_reg s t \<Longrightarrow> hears_reg r t"
  unfolding hears_reg_def by (simp, blast intro: fewer_trans)

lemma hears_reg_heard: "hears_reg r (heard e ord r)"
proof (cases r)
  case (fields a offset index)
  then show ?thesis using deliver_fits [of _ a e ord] by (simp add: hears_reg_def heard_def)
qed

lemma hears_regs_ok:
  assumes "list_all2 hears_reg regs regs'" and "regs_ok regs"
  shows "regs_ok regs'"
  using assms list_all2_nthD [OF assms(1)] list_all2_lengthD [OF assms(1)] by (auto simp: regs_ok_def hears_reg_def)

lemma rig_publish_hears:
  assumes "published_to (int (rg_destroyed rg)) R evs" and "regs_ok (rg_regs rg)"
  shows "\<exists>rg'. rig_publish evs rg = Inr rg' \<and> rig_same rg rg' \<and> rg_om rg' = rg_om rg
    \<and> list_all2 hears_reg (rg_regs rg) (rg_regs rg')"
  using assms
proof (induction evs arbitrary: rg)
  case Nil
  then show ?case by (simp add: list.rel_refl hears_reg_refl)
next
  case (Cons ev evs)
  obtain e om where ev: "ev = (e, om)" by (cases ev)
  have "\<exists>rg1. rig_notify e om rg = Inr rg1 \<and> rig_same rg rg1 \<and> rg_om rg1 = rg_om rg
      \<and> list_all2 hears_reg (rg_regs rg) (rg_regs rg1)"
  proof (cases "find_order om (ev_internal_id e)")
    case None
    then show ?thesis by (simp add: rig_notify_def Let_def rig_same_def list.rel_refl hears_reg_refl)
  next
    case (Some ord)
    then have "int (rg_destroyed rg) < tag ord" using Cons.prems(1) by (auto simp: published_to_def ev)
    with Cons.prems(2) have "dispatch_past (rg_destroyed rg) e ord (rg_regs rg) = Inr (map (heard e ord) (rg_regs rg))"
      by (intro dispatch_past_heard regs_okD regs_ok_past)
    moreover have "list_all2 hears_reg regs (map (heard e ord) regs)" for regs
      by (induction regs) (simp_all add: hears_reg_heard)
    ultimately show ?thesis using Some by (simp add: rig_notify_def Let_def rig_same_def)
  qed
  then obtain rg1 where rg1: "rig_notify e om rg = Inr rg1" "rig_same rg rg1" "rg_om rg1 = rg_om rg"
    "list_all2 hears_reg (rg_regs rg) (rg_regs rg1)" by blast
  have "published_to (int (rg_destroyed rg1)) R evs" using Cons.prems(1) rg1(2) by (auto simp: published_to_def rig_same_def)
  from Cons.IH [OF this hears_regs_ok [OF rg1(4) Cons.prems(2)]] obtain rg' where rg':
    "rig_publish evs rg1 = Inr rg'" "rig_same rg1 rg'" "rg_om rg' = rg_om rg1" "list_all2 hears_reg (rg_regs rg1) (rg_regs rg')"
    by blast
  have "list_all2 hears_reg (rg_regs rg) (rg_regs rg')"
    by (rule list_all2_trans [OF _ rg1(4) rg'(4)]) (rule hears_reg_trans)
  with rg1 rg' show ?case using rig_same_trans by (auto simp: ev)
qed

lemma rig_poll_ok:
  assumes ok: "rig_ok n rg" and run: "running k m rg"
  obtains rg' where "rig_poll rg = Inr rg'" and "rig_ok n rg'" and "running k m rg'" and "rig_same rg rg'"
proof -
  obtain x where x: "venue_get 0 (rg_om rg) = Some x" by (rule rig_venue [OF ok])
  have st: "steady bench_config 0 (int (rg_destroyed rg)) (int (length (rg_regs rg))) n (rg_om rg)"
    using ok by (simp add: rig_ok_def)
  obtain om evs where p: "world_poll 0 (rg_om rg) = Inr (om, evs)"
    "steady bench_config 0 (int (rg_destroyed rg)) (int (length (rg_regs rg))) n om"
    "published_to (int (rg_destroyed rg)) (int (length (rg_regs rg))) evs" "known 0 (rg_om rg) \<subseteq> known 0 om"
    by (rule poll_steady [OF st x bench_numbers(1)])
  have regs: "regs_ok (rg_regs rg)" using ok by (simp add: rig_ok_def)
  obtain rg1 where rg1: "rig_publish evs rg = Inr rg1" "rig_same rg rg1" "list_all2 hears_reg (rg_regs rg) (rg_regs rg1)"
    using rig_publish_hears [OF p(3) regs] by blast
  let ?rg = "rg1\<lparr>rg_om := om\<rparr>"
  have "rig_poll rg = Inr ?rg" using p(1) rg1(1) by (simp add: rig_poll_def)
  moreover have "rig_ok n ?rg"
    using ok p(2) rg1(2) hears_regs_ok [OF rg1(3) regs] by (simp add: rig_ok_def rig_same_def)
  moreover have "running k m ?rg"
    using run rg1(2) list_all2_nthD [OF rg1(3), of k] p(4)
    by (fastforce simp: running_def rig_same_def Let_def hears_reg_def fewer_def)
  moreover have "rig_same rg ?rg" using rg1(2) by (simp add: rig_same_def)
  ultimately show ?thesis by (rule that)
qed

lemma poll_n_ok:
  assumes "rig_ok n rg" and "running k m rg"
  obtains rg' where "poll_n j rg = Inr rg'" and "rig_ok n rg'" and "running k m rg'" and "rig_same rg rg'"
  using assms
proof (induction j arbitrary: rg thesis)
  case (Suc j)
  obtain rg1 where rg1: "rig_poll rg = Inr rg1" "rig_ok n rg1" "running k m rg1" "rig_same rg rg1"
    by (rule rig_poll_ok [OF Suc.prems(2,3)])
  obtain rg' where "poll_n j rg1 = Inr rg'" "rig_ok n rg'" "running k m rg'" "rig_same rg1 rg'"
    by (rule Suc.IH [OF _ rg1(2,3)])
  with rg1 Suc.prems(1) [of rg'] rig_same_trans [OF rg1(4)] show ?case by simp
qed simp

lemma poll_n_world: "poll_n j rg = Inr rg' \<Longrightarrow> \<exists>evs. world_polls j 0 (rg_om rg) = Inr (rg_om rg', evs)"
proof (induction j arbitrary: rg)
  case (Suc j)
  then obtain om evs rg1 where "world_poll 0 (rg_om rg) = Inr (om, evs)" "poll_n j (rg1\<lparr>rg_om := om\<rparr>) = Inr rg'"
    by (auto simp: rig_poll_def ebind_Inr_iff)
  with Suc.IH [of "rg1\<lparr>rg_om := om\<rparr>"] show ?case by auto
qed simp

lemma rig_timer_ok:
  assumes ok: "rig_ok n rg" and run: "running k m rg" and lim: "n + m + 9 \<le> 2 ^ 15"
  obtains rg' where "rig_timer draw k now rg = Inr rg'" and "rig_ok (n + m + 9) rg'" and "running k (m + 8) rg'"
    and "rig_same rg rg'"
proof -
  let ?D = "int (rg_destroyed rg)" and ?R = "int (length (rg_regs rg))" and ?w = "int k + 1"
  obtain a where a: "rg_regs rg ! k = (a, 0, ?w)"
    using ok run by (metis regs_ok_def rig_ok_def running_def prod.collapse)
  have r: "k < length (rg_regs rg)" "rg_destroyed rg \<le> k" "algo_fits ?w a" "set (algo_kids a) \<subseteq> known 0 (rg_om rg)"
    "length (algo_kids a) \<le> m" using run a by (simp_all add: running_def)
  have desk: "worker_desk bench_config 0 ?D ?R ?w n (rg_om rg)"
    using ok r(1,2) bench_numbers(1) by (simp add: worker_desk_def rig_ok_def)
  have "n + length (algo_kids a) + 9 \<le> 2 ^ 15" using lim r(5) by simp
  from pair.algo_timer_served [OF desk this r(3,4), of draw "Some (static_source (rg_mds rg))" now]
  obtain a' om where t: "algo_on_timer (sim_client draw) (Some (static_source (rg_mds rg))) now a (rg_om rg) = Inr (a', om)"
    "steady bench_config 0 ?D ?R (n + length (algo_kids a) + 9) om" "algo_fits ?w a'" "set (algo_kids a') \<subseteq> known 0 om"
    "length (algo_kids a') \<le> length (algo_kids a) + 8"
    by (auto simp: served_def worker_desk_def)
  let ?rg = "rg\<lparr>rg_regs := (rg_regs rg)[k := (a', 0, ?w)], rg_om := om\<rparr>"
  have "rig_timer draw k now rg = Inr ?rg" using a t(1) by (simp add: rig_timer_def)
  moreover have "rig_ok (n + m + 9) ?rg"
    using ok r(1,5) steady_mono [OF t(2) order_refl order_refl, of "n + m + 9"] regs_ok_update [of "rg_regs rg" k a'] a
    by (simp add: rig_ok_def)
  moreover have "running k (m + 8) ?rg" using r t(3-5) by (simp add: running_def)
  moreover have "rig_same rg ?rg" by (simp add: rig_same_def)
  ultimately show ?thesis by (rule that)
qed

text \<open>Intervals: each costs at most 89 calls while there are at most 80 children.\<close>

lemma run_intervals_ok:
  assumes "rig_ok c rg" and "running k m rg" and "m + 8 * j \<le> 80" and "c + 90 * j \<le> 2 ^ 15"
  obtains rg' where "run_intervals draw k start step j i rg = Inr rg'" and "rig_ok (c + 90 * j) rg'"
    and "running k (m + 8 * j) rg'" and "rig_same rg rg'"
  using assms
proof (induction j arbitrary: rg c m i thesis)
  case (Suc j)
  have "c + m + 9 \<le> 2 ^ 15" using Suc.prems(4,5) by simp
  then obtain rg1 where rg1: "rig_timer draw k (start + i * step) rg = Inr rg1" "rig_ok (c + m + 9) rg1"
    "running k (m + 8) rg1" "rig_same rg rg1" by (rule rig_timer_ok [OF Suc.prems(2,3)])
  obtain rg2 where rg2: "poll_n 6 rg1 = Inr rg2" "rig_ok (c + m + 9) rg2" "running k (m + 8) rg2" "rig_same rg1 rg2"
    by (rule poll_n_ok [OF rg1(2,3)])
  have "rig_ok (c + 90) rg2" by (rule rig_ok_mono [OF rg2(2)]) (use Suc.prems(4) in simp)
  from Suc.IH [OF _ this rg2(3), of "i + 1"] Suc.prems(4,5) obtain rg' where
    "run_intervals draw k start step j (i + 1) rg2 = Inr rg'" "rig_ok (c + 90 + 90 * j) rg'"
    "running k (m + 8 + 8 * j) rg'" "rig_same rg2 rg'" by auto
  moreover from this have "rig_same rg rg'" using rg1(4) rg2(4) by (simp add: rig_same_def)
  ultimately show ?case using rg1(1) rg2(1) Suc.prems(1) [of rg'] by (simp add: algebra_simps)
qed simp

section \<open>Parents and cycles\<close>

definition idle :: "'g Rig \<Rightarrow> bool" where
  "idle rg \<longleftrightarrow> (\<exists>x. venue_get 0 (rg_om rg) = Some x \<and> sx_queue x = [])"

lemma poll_n_drains:
  assumes ok: "rig_ok n rg" and poll: "poll_n 8 rg = Inr rg'"
  shows "idle rg'"
proof -
  obtain x where x: "venue_get 0 (rg_om rg) = Some x" by (rule rig_venue [OF ok])
  have live: "world_live bench_config 0 (rg_om rg)" using ok by (simp add: rig_ok_def steady_def)
  obtain s' evs x' where "world_polls 8 0 (rg_om rg) = Inr (s', evs)" "venue_get 0 s' = Some x'" "sx_queue x' = []"
    by (rule polls_drain [OF live x bench_numbers(1) _ bench_numbers(5)]) simp_all
  with poll_n_world [OF poll] show ?thesis by (auto simp: idle_def)
qed

lemma started_fits:
  assumes "sm_books md inst = Some bench_book"
  shows "algo_fits w (algo_start (parent_order md inst sd qty start window)
      (algo_create ty (parent_config w qty 8) (Some [])))"
    and "algo_kids (algo_start (parent_order md inst sd qty start window)
      (algo_create ty (parent_config w qty 8) (Some []))) = []"
  using assms
  by (auto simp: algo_create_def twap_new_def pov_new_def twap_start_def pov_start_def parent_order_def
      parent_config_def default_algo_config_def default_parent_def static_source_def map_get_def bench_book_def
      twap_fits_def pov_fits_def base_fits_def kids_def pov_kids_def held_kids_def Let_def)

text \<open>A parent order: nine intervals and the last timer, at most 90 calls each, then the drain.\<close>

lemma run_parent_ok:
  assumes ok: "rig_ok c rg" and inst: "inst \<in> set bench_insts" and lim: "c + 900 \<le> 2 ^ 15"
  obtains moved rg' where "run_parent draw ty inst sd qty start bench_window 8 rg = Inr (moved, rg')"
    and "rig_ok (c + 900) rg'" and "idle rg'" and "length (rg_regs rg') = Suc (length (rg_regs rg))"
    and "rg_destroyed rg' = rg_destroyed rg"
proof -
  let ?k = "length (rg_regs rg)" and ?w = "rg_next_worker rg"
  define algo where "algo = algo_start (parent_order (rg_mds rg) inst sd qty start bench_window)
      (algo_create ty (parent_config ?w qty 8) (Some []))"
  define rg1 where "rg1 = rg\<lparr>rg_next_worker := ?w + 1, rg_regs := register_algo algo 0 ?w (rg_regs rg)\<rparr>"
  have w: "?w = int ?k + 1" and book: "sm_books (rg_mds rg) inst = Some bench_book" using ok inst by (simp_all add: rig_ok_def)
  have 1: "rg_regs rg1 = rg_regs rg @ [(algo, 0, int ?k + 1)]" "rg_om rg1 = rg_om rg" "rg_destroyed rg1 = rg_destroyed rg"
    by (simp_all add: rg1_def register_algo_def w)
  have "rig_ok c rg1"
    using ok steady_mono [of bench_config 0 "int (rg_destroyed rg)" "int ?k" c "rg_om rg" _ "int (Suc ?k)" c]
      regs_ok_append [of "rg_regs rg" algo] by (simp add: rig_ok_def 1) (simp add: rg1_def)
  moreover have "algo_fits (int ?k + 1) algo" "algo_kids algo = []"
    unfolding algo_def w by (rule started_fits [OF book])+
  then have "running ?k 0 rg1" using ok by (simp add: running_def 1 rig_ok_def)
  moreover have "0 + 8 * 9 \<le> (80 :: nat)" "c + 90 * 9 \<le> 2 ^ 15" using lim by simp_all
  ultimately obtain rg2 where rg2: "run_intervals draw ?k start (tdiv bench_window 8) 9 0 rg1 = Inr rg2"
    "rig_ok (c + 90 * 9) rg2" "running ?k (0 + 8 * 9) rg2" "rig_same rg1 rg2" by (rule run_intervals_ok)
  have "c + 90 * 9 + (0 + 8 * 9) + 9 \<le> 2 ^ 15" using lim by simp
  then obtain rg3 where rg3: "rig_timer draw ?k (start + bench_window + tdiv bench_window 8) rg2 = Inr rg3"
    "rig_ok (c + 90 * 9 + (0 + 8 * 9) + 9) rg3" "running ?k (0 + 8 * 9 + 8) rg3" "rig_same rg2 rg3"
    by (rule rig_timer_ok [OF rg2(2,3)])
  obtain rg4 where rg4: "poll_n 8 rg3 = Inr rg4" "rig_ok (c + 90 * 9 + (0 + 8 * 9) + 9) rg4" "rig_same rg3 rg4"
    by (rule poll_n_ok [OF rg3(2,3)])
  have "run_parent draw ty inst sd qty start bench_window 8 rg
      = Inr (pos_net (position (rg_om rg4) inst) - pos_net (position (rg_om rg) inst), rg4)"
    using rg2(1) rg3(1) rg4(1) by (simp add: run_parent_def Let_def algo_def [symmetric] rg1_def [symmetric])
  moreover have "rig_ok (c + 900) rg4" by (rule rig_ok_mono [OF rg4(2)]) simp
  moreover have "length (rg_regs rg4) = Suc ?k" "rg_destroyed rg4 = rg_destroyed rg"
    using 1 rg2(4) rg3(4) rg4(3) by (simp_all add: rig_same_def)
  ultimately show ?thesis using that poll_n_drains [OF rg3(2) rg4(1)] by blast
qed

lemma bench_insts_ok:
  assumes "rig_ok c rg" and "idle rg" and "set insts \<subseteq> set bench_insts" and "c + 900 * length insts \<le> 2 ^ 15"
  obtains ta fa rg' where "bench_insts_loop draw cyc t insts ta0 fa0 rg = Inr (ta, fa, rg')"
    and "rig_ok (c + 900 * length insts) rg'" and "idle rg'" and "length (rg_regs rg') \<le> length (rg_regs rg) + length insts"
    and "rg_destroyed rg' = rg_destroyed rg"
  using assms
proof (induction insts arbitrary: c rg ta0 fa0 thesis)
  case (Cons inst insts)
  let ?delta = "execution_delta (rg_om rg) inst (bench_target cyc inst)"
  show ?case
  proof (cases "?delta = 0")
    case True
    have lim: "c + 900 * length insts \<le> 2 ^ 15" "set insts \<subseteq> set bench_insts" using Cons.prems(4,5) by simp_all
    obtain ta fa rg' where r: "bench_insts_loop draw cyc t insts ta0 fa0 rg = Inr (ta, fa, rg')"
      "rig_ok (c + 900 * length insts) rg'" "idle rg'" "length (rg_regs rg') \<le> length (rg_regs rg) + length insts"
      "rg_destroyed rg' = rg_destroyed rg"
      by (rule Cons.IH [OF _ Cons.prems(2,3) lim(2,1)])
    have "rig_ok (c + 900 * length (inst # insts)) rg'" by (rule rig_ok_mono [OF r(2)]) simp
    then show ?thesis using Cons.prems(1) r True by simp
  next
    case False
    have inst: "inst \<in> set bench_insts" "c + 900 \<le> 2 ^ 15" using Cons.prems(4,5) by simp_all
    let ?sd = "if ?delta > 0 then Buy else Sell" and ?q = "if ?delta > 0 then ?delta else - ?delta"
    let ?ty = "if inst \<le> 11 then ''twap'' else ''pov''"
    obtain moved rg1 where p: "run_parent draw ?ty inst ?sd ?q t bench_window 8 rg = Inr (moved, rg1)"
      "rig_ok (c + 900) rg1" "idle rg1" "length (rg_regs rg1) = Suc (length (rg_regs rg))" "rg_destroyed rg1 = rg_destroyed rg"
      by (rule run_parent_ok [OF Cons.prems(2) inst])
    have lim: "c + 900 + 900 * length insts \<le> 2 ^ 15" "set insts \<subseteq> set bench_insts" using Cons.prems(4,5) by simp_all
    obtain ta fa rg' where r: "bench_insts_loop draw cyc t insts (ta0 + ?q)
        (fa0 + (if moved < 0 then - moved else moved)) rg1 = Inr (ta, fa, rg')"
      "rig_ok (c + 900 + 900 * length insts) rg'" "idle rg'" "length (rg_regs rg') \<le> length (rg_regs rg1) + length insts"
      "rg_destroyed rg' = rg_destroyed rg1"
      by (rule Cons.IH [OF _ p(2,3) lim(2,1)])
    have "bench_insts_loop draw cyc t (inst # insts) ta0 fa0 rg = Inr (ta, fa, rg')"
      unfolding bench_insts_loop.simps Let_def p(1) using False r(1) by simp
    with Cons.prems(1) r p(4,5) show ?thesis by (simp add: add.assoc)
  qed
qed simp

text \<open>A cycle: four parents, a reconciliation with nothing to do, and the cycle's algos are gone.\<close>

lemma bench_cycle_ok:
  assumes ok: "rig_ok c rg" and id: "idle rg" and lim: "c + 3600 \<le> 2 ^ 15" and thr: "0 \<le> pc_threshold (pr_cfg rc)"
  obtains row recs rc' rg' where "bench_cycle draw fmt_rate cyc t rc rg = Inr (row, recs, rc', rg')"
    and "rig_ok (c + 3600) rg'" and "idle rg'" and "\<forall>r \<in> set recs. dr_action r = InSync" and "pr_cfg rc' = pr_cfg rc"
    and "length (rg_regs rg') \<le> length (rg_regs rg) + 4"
proof -
  have len: "length bench_insts = 4" by (simp add: bench_insts_def)
  have "c + 900 * length bench_insts \<le> 2 ^ 15" using lim len by simp
  then obtain ta fa rg1 where r: "bench_insts_loop draw cyc t bench_insts 0 0 rg = Inr (ta, fa, rg1)"
    "rig_ok (c + 900 * length bench_insts) rg1" "idle rg1" "length (rg_regs rg1) \<le> length (rg_regs rg) + length bench_insts"
    by (rule bench_insts_ok [OF ok id order_refl])
  let ?rg2 = "rg1\<lparr>rg_metrics := record_cycle ta fa (rg_metrics rg1)\<rparr>"
  let ?now = "case venue_get 0 (rg_om ?rg2) of Some x \<Rightarrow> sx_now x | None \<Rightarrow> 0"
  obtain x where x: "venue_get 0 (rg_om rg1) = Some x" "sx_connected x" by (rule rig_venue [OF r(2)])
  have st: "steady bench_config 0 (int (rg_destroyed rg1)) (int (length (rg_regs rg1))) (c + 3600) (rg_om rg1)"
    using r(2) len by (simp add: rig_ok_def)
  obtain recs rc' where rec: "reconcile (sim_client draw) ?now rc (rg_om rg1) = Inr (recs, rc', rg_om rg1)"
    "\<forall>r \<in> set recs. dr_action r = InSync" "pr_cfg rc' = pr_cfg rc"
    using world_in_sync [OF steady_ok [OF st] x thr, of draw ?now] by auto
  let ?rg' = "?rg2\<lparr>rg_om := rg_om rg1, rg_destroyed := length (rg_regs ?rg2)\<rparr>"
  have empty: "sx_queue x = []" using r(3) x(1) by (simp add: idle_def)
  have "rig_ok (c + 3600) ?rg'" using r(2) steady_idle(2) [OF st x(1) empty] by (simp add: rig_ok_def)
  moreover have "idle ?rg'" using r(3) by (simp add: idle_def)
  moreover have "bench_cycle draw fmt_rate cyc t rc rg = Inr (cycle_row fmt_rate cyc ta fa, recs, rc', ?rg')"
    using r(1) rec(1) by (simp add: bench_cycle_def Let_def)
  ultimately show ?thesis using that rec(2,3) r(4) len by simp
qed

lemma bench_cycles_ok:
  assumes "rig_ok c rg" and "idle rg" and "c + 3600 * n \<le> 2 ^ 15" and "0 \<le> pc_threshold (pr_cfg rc)"
  obtains rows recs rc' rg' where "bench_cycles draw fmt_rate n cyc t rc rg = Inr (rows, recs, rc', rg')"
    and "rig_ok (c + 3600 * n) rg'" and "idle rg'" and "\<forall>r \<in> set recs. dr_action r = InSync"
    and "length (rg_regs rg') \<le> length (rg_regs rg) + 4 * n"
  using assms
proof (induction n arbitrary: c cyc t rc rg thesis)
  case (Suc n)
  have "c + 3600 \<le> 2 ^ 15" using Suc.prems(4) by simp
  then obtain row recs1 rc1 rg1 where r: "bench_cycle draw fmt_rate cyc t rc rg = Inr (row, recs1, rc1, rg1)"
    "rig_ok (c + 3600) rg1" "idle rg1" "\<forall>r \<in> set recs1. dr_action r = InSync" "pr_cfg rc1 = pr_cfg rc"
    "length (rg_regs rg1) \<le> length (rg_regs rg) + 4"
    by (rule bench_cycle_ok [OF Suc.prems(2,3) _ Suc.prems(5)])
  have lim: "c + 3600 + 3600 * n \<le> 2 ^ 15" "0 \<le> pc_threshold (pr_cfg rc1)" using Suc.prems(4,5) r(5) by simp_all
  obtain rows recs rc' rg' where s: "bench_cycles draw fmt_rate n (cyc + 1) (t + bench_window * 2) rc1 rg1 = Inr (rows, recs, rc', rg')"
    "rig_ok (c + 3600 + 3600 * n) rg'" "idle rg'" "\<forall>r \<in> set recs. dr_action r = InSync"
    "length (rg_regs rg') \<le> length (rg_regs rg1) + 4 * n"
    by (rule Suc.IH [OF _ r(2,3) lim])
  have "bench_cycles draw fmt_rate (Suc n) cyc t rc rg = Inr (row @ rows, recs1 @ recs, rc', rg')"
    using r(1) s(1) by simp
  moreover have "\<forall>r \<in> set (recs1 @ recs). dr_action r = InSync" using r(4) s(4) by auto
  ultimately show ?case using Suc.prems(1) s(2,3,5) r(6) by (simp add: add.assoc)
qed simp

section \<open>Events of destroyed algos\<close>

text \<open>
  Nothing takes an algo out of the dispatcher: an event, other than a confirmation, of an order
  tagged with the worker index of a destroyed algo is an error. \<open>bench_runs\<close> shows that the
  benchmark never publishes one.
\<close>

lemma dispatch_dangles:
  assumes "(algo, offset, index) \<in> set (take n regs)" and "retrieve_int_data offset ord = Inr index"
    and "ev_kind e \<noteq> EvConfirmed"
  shows "\<exists>err. dispatch_past n e ord regs = Inl err"
  using assms(1)
proof (induction n arbitrary: regs)
  case (Suc n)
  then obtain a off i regs' where regs: "regs = (a, off, i) # regs'" by (cases regs) auto
  show ?case
  proof (cases "(algo, offset, index) = (a, off, i)")
    case True
    then show ?thesis using regs assms(2,3) by simp
  next
    case False
    then have "\<exists>err. dispatch_past n e ord regs' = Inl err" using Suc.prems regs by (intro Suc.IH) auto
    then show ?thesis by (auto simp: regs split: sum.splits)
  qed
qed simp

lemma late_event_dangles:
  assumes "find_order om (ev_internal_id e) = Some ord"
    and "(algo, offset, index) \<in> set (take (rg_destroyed rg) (rg_regs rg))"
    and "retrieve_int_data offset ord = Inr index" and "ev_kind e \<noteq> EvConfirmed"
  shows "\<exists>err. rig_notify e om rg = Inl err"
  using dispatch_dangles [OF assms(2-4)] assms(1) by (auto simp: rig_notify_def)

section \<open>The whole run\<close>

text \<open>The rig as built: nothing sent, nothing live, nothing queued.\<close>

lemma wire_steady:
  assumes w: "wire seed_rng draw wit lit bench_config None (Some []) kDefaultCapacity wall = Inr s"
    and lit: "\<forall>A. set (lit A) = A" "\<forall>A. distinct (lit A)"
  shows "steady bench_config 0 D R 0 s" and "\<exists>x. venue_get 0 s = Some x \<and> sx_queue x = []"
proof -
  note fresh = wire_fresh [OF w]
  let ?x = "sim_set_sink True (sim_new seed_rng wit 0 bench_config)"
  have x: "venue_get 0 s = Some ?x" "sx_queue ?x = []" "sx_connected ?x" "sx_cfg ?x = bench_config"
    "sx_trade_counter ?x = 0" "sx_seq_counter ?x = 0"
    using fresh(7) bench_numbers(3) by (simp_all add: sim_set_sink_def sim_new_def)
  have "om_live s = {}" "om_live_iter s = lit"
    using w by (auto simp: wire_def Let_def ebind_Inr_iff om_new_def venue_put_def)
  moreover have "capacity (om_pool s) \<le> 2 ^ 17" using new_poolE(2) [OF fresh(1)] by (simp add: kDefaultCapacity_def)
  moreover have "orders_sent 0 s = 0" using fresh(5) by (simp add: orders_sent_def)
  ultimately show "steady bench_config 0 D R 0 s"
    using x lit(2) fresh(4) wire_live [OF w bench_numbers(2) lit(1)] bench_numbers(4)
    by (simp add: steady_def all_open_def owned_def funded_def)
  show "\<exists>x. venue_get 0 s = Some x \<and> sx_queue x = []" using x(1,2) by blast
qed

lemma bench_market_books:
  "rg_om (bench_market rg) = rg_om rg" "rg_regs (bench_market rg) = rg_regs rg"
  "rg_destroyed (bench_market rg) = rg_destroyed rg" "rg_next_worker (bench_market rg) = rg_next_worker rg"
  "i \<in> set bench_insts \<Longrightarrow> sm_books (rg_mds (bench_market rg)) i = Some bench_book"
  by (auto simp: bench_market_def bench_insts_def Let_def)

lemma bench_setup_ok:
  assumes lit: "\<forall>A. set (lit A) = A" "\<forall>A. distinct (lit A)"
  obtains rg where "bench_setup seed_rng draw wit lit wall = Inr rg" and "rig_ok 0 rg" and "idle rg" and "rg_regs rg = []"
proof -
  have cap: "0 < kDefaultCapacity" "kDefaultCapacity \<le> 2 ^ 24" by (simp_all add: kDefaultCapacity_def)
  obtain s where w: "wire seed_rng draw wit lit bench_config None (Some []) kDefaultCapacity wall = Inr s"
    using wire_returns [OF cap] by blast
  define rg0 :: "'a Rig" where "rg0 = \<lparr>rg_om = s, rg_mds = \<lparr>sm_books = Map.empty, sm_vol_per_interval = 0\<rparr>,
      rg_regs = [], rg_destroyed = 0, rg_metrics = metrics_new, rg_next_worker = 1\<rparr>"
  let ?rg = "(bench_market rg0)\<lparr>rg_metrics := set_netting_saved (ne_saved_notional (fst bench_netting)) (rg_metrics (bench_market rg0))\<rparr>"
  have "rig_new seed_rng draw wit lit bench_config wall = Inr rg0" using w by (simp add: rig_new_def rg0_def)
  then have "bench_setup seed_rng draw wit lit wall = Inr ?rg" by (simp add: bench_setup_def Let_def)
  moreover have "rig_ok 0 ?rg"
    using wire_steady(1) [OF w lit] by (simp add: rig_ok_def bench_market_books) (simp add: rg0_def regs_ok_def)
  moreover have "idle ?rg" using wire_steady(2) [OF w lit] by (simp add: idle_def bench_market_books) (simp add: rg0_def)
  moreover have "rg_regs ?rg = []" by (simp add: bench_market_books) (simp add: rg0_def)
  ultimately show ?thesis by (rule that)
qed

lemma rig_registered:
  assumes "rig_ok n rg"
  obtains st where "hm_venues (om_health (rg_om rg)) 0 = Some st"
proof -
  have "0 \<in> hm_registered (om_health (rg_om rg))"
    by (rule steady_registered [OF conjunct1 [OF assms [unfolded rig_ok_def]]])
  then show ?thesis using that by (auto simp: hm_registered_def)
qed

text \<open>C5: the benchmark always runs to its end: whatever the generator draws, it never wraps a
  counter, breaks a handler's contract or calls an algo of an earlier cycle. Every reconciliation
  finds every instrument in sync; at the end nothing is queued, live or pending, the positions are
  the venue's, and at most 20 parents and 18000 orders were sent.\<close>

theorem bench_runs:
  assumes "\<forall>A. set (lit A) = A" and "\<forall>A. distinct (lit A)"
  shows "\<exists>csv summary report rg x. bench_main seed_rng draw wit lit fmt_rate show_double wall = Inr (csv, summary, report, rg)
    \<and> venue_get 0 (rg_om rg) = Some x \<and> sx_queue x = [] \<and> om_live (rg_om rg) = {}
    \<and> (\<forall>k. pending_quantity (rg_om rg) k = 0 \<and> pos_net (position (rg_om rg) k) = map_get 0 (sx_positions x) k)
    \<and> length (rg_regs rg) \<le> 20 \<and> orders_sent 0 (rg_om rg) \<le> 18000
    \<and> (\<exists>rg0 rows recs rc rg1. bench_setup seed_rng draw wit lit wall = Inr rg0
        \<and> bench_cycles draw fmt_rate 5 0 0 (recon_new bench_recon_config (Some [])) rg0 = Inr (rows, recs, rc, rg1)
        \<and> rg_om rg1 = rg_om rg \<and> (\<forall>r \<in> set recs. dr_action r = InSync))"
proof -
  obtain rg0 where rg0: "bench_setup seed_rng draw wit lit wall = Inr rg0" "rig_ok 0 rg0" "idle rg0" "rg_regs rg0 = []"
    by (rule bench_setup_ok [OF assms])
  have lim: "0 + 3600 * 5 \<le> (2 ^ 15 :: nat)" by simp
  have thr: "0 \<le> pc_threshold (pr_cfg (recon_new bench_recon_config (Some [])))"
    by (simp add: recon_new_def bench_recon_config_def)
  obtain rows recs rc rg1 where r: "bench_cycles draw fmt_rate 5 0 0 (recon_new bench_recon_config (Some [])) rg0 = Inr (rows, recs, rc, rg1)"
    "rig_ok (0 + 3600 * 5) rg1" "idle rg1" "\<forall>r \<in> set recs. dr_action r = InSync" "length (rg_regs rg1) \<le> length (rg_regs rg0) + 4 * 5"
    by (rule bench_cycles_ok [OF rg0(2,3) lim thr])
  obtain st0 where st0: "hm_venues (om_health (rg_om rg0)) 0 = Some st0" by (rule rig_registered [OF rg0(2)])
  obtain st1 where st1: "hm_venues (om_health (rg_om rg1)) 0 = Some st1" by (rule rig_registered [OF r(2)])
  have "\<exists>rg2. count_demotions (vs_trips st0) rg1 = Inr rg2 \<and> rg_om rg2 = rg_om rg1 \<and> rg_regs rg2 = rg_regs rg1"
    by (simp add: count_demotions_def health_trips_def health_unresolved_def must_get_def st1 Let_def)
  then obtain rg2 where rg2: "count_demotions (vs_trips st0) rg1 = Inr rg2" "rg_om rg2 = rg_om rg1" "rg_regs rg2 = rg_regs rg1"
    by blast
  have main: "bench_main seed_rng draw wit lit fmt_rate show_double wall
      = Inr (''cycle,target_abs,filled_abs,fill_rate,completed'' @ newline @ rows,
          summary_csv show_double (rg_om rg2) (rg_metrics rg2), report_md fmt_rate 5 (rg_om rg2) (rg_metrics rg2), rg2)"
    using rg0(1) r(1) rg2(1) st0 by (simp add: bench_main_def health_trips_def must_get_def)
  obtain x where x: "venue_get 0 (rg_om rg2) = Some x" "sx_queue x = []" using r(3) rg2(2) by (auto simp: idle_def)
  have steady: "steady bench_config 0 (int (rg_destroyed rg1)) (int (length (rg_regs rg1))) 18000 (rg_om rg2)"
    using r(2) rg2(2) by (simp add: rig_ok_def)
  note live = steady_idle(1) [OF steady x]
  have "world_live bench_config 0 (rg_om rg2)" using steady by (simp add: steady_def)
  note pend = drained_idle(2) [OF this x]
  have "agrees x (rg_om rg2)" using steady_ok [OF steady] x(1) by (auto simp: world_ok_def)
  moreover have "orders_sent 0 (rg_om rg2) \<le> 18000" using steady by (simp add: steady_def funded_def)
  ultimately show ?thesis
    using main x live pend r rg0(1,4) rg2 by (simp add: agrees_def)
qed

text \<open>With draws that hit every seventh time.\<close>

theorem bench_runs_witness:
  "\<exists>csv summary report rg x. bench_main (\<lambda>_. 0 :: nat) (\<lambda>p g. (0 < p \<and> g mod 7 = 0, g + 1))
      sorted_list_of_set sorted_list_of_set (\<lambda>_. ''1'') (\<lambda>_. ''0'') 7 = Inr (csv, summary, report, rg)
    \<and> venue_get 0 (rg_om rg) = Some x \<and> sx_queue x = [] \<and> om_live (rg_om rg) = {}"
  using bench_runs [of sorted_list_of_set "\<lambda>_. 0 :: nat" "\<lambda>p g. (0 < p \<and> g mod 7 = 0, g + 1)" sorted_list_of_set
      "\<lambda>_. ''1''" "\<lambda>_. ''0''" 7]
  by auto

end
