(* ===== verification/MetricsProps.thy ===== *)
theory MetricsProps
  imports Metrics
begin

text \<open>
  The metrics: what the event stream adds to the counters, and the signs and bounds of the two
  rounded figures, slippage in basis points and the fill rate of a cycle.
\<close>

section \<open>The event stream\<close>

definition metrics_run ::
  "MarketDataSource option \<Rightarrow> 'e published \<Rightarrow> MetricsCollector \<Rightarrow> MetricsCollector" where
  "metrics_run mds evs m = foldl (\<lambda>m (e, om). metrics_on_event mds e om m) m evs"

definition client_event :: "OrderEvent \<times> 'e OrderManager \<Rightarrow> bool" where
  "client_event p \<longleftrightarrow> (case find_order (snd p) (ev_internal_id (fst p)) of
     None \<Rightarrow> False | Some ord \<Rightarrow> \<not> o_reconciliation ord)"

lemma metrics_run_simps:
  "metrics_run mds [] m = m"
  "metrics_run mds (p # evs) m = metrics_run mds evs (metrics_on_event mds (fst p) (snd p) m)"
  by (simp_all add: metrics_run_def split_beta)

lemma metrics_ignores: "\<not> client_event p \<Longrightarrow> metrics_on_event mds (fst p) (snd p) m = m"
  by (auto simp: client_event_def metrics_on_event_def split: option.splits)

definition ack_sample :: "OrderEvent \<times> 'e OrderManager \<Rightarrow> int" where
  "ack_sample p = (let ts = o_ts (order_ref (snd p) (ev_internal_id (fst p))) in ts_confirmed ts - ts_sent ts)"

lemma metrics_on_event_counts:
  "mc_filled_orders (metrics_on_event mds (fst p) (snd p) m)
     = mc_filled_orders m + (if client_event p \<and> ev_kind (fst p) = EvFill then 1 else 0)"
  "mc_ack_latency (metrics_on_event mds (fst p) (snd p) m)
     = (if client_event p \<and> ev_kind (fst p) = EvConfirmed then dist_add (ack_sample p) (mc_ack_latency m)
        else mc_ack_latency m)"
  by (auto simp: client_event_def metrics_on_event_def metrics_on_confirmed_def metrics_on_filled_def Let_def
      ack_sample_def find_order_def split: option.splits OrderEventKind.splits if_splits)

lemma metrics_run_filter: "metrics_run mds (filter client_event evs) m = metrics_run mds evs m"
  by (induction evs arbitrary: m) (simp_all add: metrics_run_simps metrics_ignores)

lemma metrics_run_filled:
  "mc_filled_orders (metrics_run mds evs m) = mc_filled_orders m
     + of_nat (length (filter (\<lambda>p. client_event p \<and> ev_kind (fst p) = EvFill) evs))"
  by (induction evs arbitrary: m) (simp_all add: metrics_run_simps metrics_on_event_counts)

lemma metrics_run_acks:
  "mc_ack_latency (metrics_run mds evs m)
     = fold dist_add (map ack_sample (filter (\<lambda>p. client_event p \<and> ev_kind (fst p) = EvConfirmed) evs)) (mc_ack_latency m)"
  by (induction evs arbitrary: m) (simp_all add: metrics_run_simps metrics_on_event_counts)

text \<open>over any stream of events the metrics count exactly the completed client orders and the
  acknowledgements of client orders, with the latencies between send and confirm; the events of
  corrective reconciliation orders and of unknown ids contribute nothing to any figure.\<close>

theorem metrics_count_client_orders:
  "metrics_run mds evs m = metrics_run mds (filter client_event evs) m
    \<and> mc_filled_orders (metrics_run mds evs m) = mc_filled_orders m
        + of_nat (length (filter (\<lambda>p. client_event p \<and> ev_kind (fst p) = EvFill) evs))
    \<and> mc_ack_latency (metrics_run mds evs m) =
        fold dist_add (map ack_sample (filter (\<lambda>p. client_event p \<and> ev_kind (fst p) = EvConfirmed) evs))
          (mc_ack_latency m)"
  by (simp only: metrics_run_filter metrics_run_filled metrics_run_acks simp_thms)

section \<open>Slippage and fill rate\<close>

lemma d_mul_minus: "d_mul (- x) y = - d_mul x y" "d_mul x (- y) = - d_mul x y"
  by (simp_all add: d_mul_def dbl_minus)

lemma d_div_minus: "d_div (- x) y = - d_div x y"
  by (simp add: d_div_def dbl_minus)

lemma to_i64_minus: "to_i64 (- x) = - to_i64 x"
  by (cases "x = 0") (auto simp: to_i64_def ceiling_minus floor_minus)

lemma of_i64_minus: "of_i64 (- k) = - of_i64 k"
  by (simp add: of_i64_def dbl_minus)

lemma of_i64_1 [simp]: "of_i64 1 = 1"
  by (simp add: of_i64_exact)

lemma bps_sell: "bps avg ref (- 1) = - bps avg ref 1"
  by (simp add: bps_def Let_def of_i64_minus d_mul_minus d_div_minus to_i64_minus)

lemma of_i64_pos: "0 < k \<Longrightarrow> 1 \<le> of_i64 k"
  using of_i64_mono [of 1 k] by simp

lemma bps_buy_nonneg:
  assumes "0 < ref" and "ref \<le> avg"
  shows "0 \<le> bps avg ref 1"
proof -
  have "0 \<le> of_i64 (avg - ref)" using of_i64_mono [of 0 "avg - ref"] assms(2) by simp
  then have "0 \<le> d_div (d_mul (of_i64 (avg - ref)) 1) (of_i64 ref)"
    using of_i64_pos [OF assms(1)] by (simp add: d_div_def d_mul_def dbl_nonneg)
  then show ?thesis using assms(1) by (simp add: bps_def d_mul_def dbl_nonneg to_i64_nonneg)
qed

lemma bps_buy_nonpos:
  assumes "0 < ref" and "avg \<le> ref"
  shows "bps avg ref 1 \<le> 0"
proof -
  have np: "dbl x \<le> 0" if "x \<le> 0" for x using dbl_mono [OF that] by simp
  have "of_i64 (avg - ref) \<le> 0" using of_i64_mono [of "avg - ref" 0] assms(2) by simp
  then have "d_div (d_mul (of_i64 (avg - ref)) 1) (of_i64 ref) \<le> 0"
    using of_i64_pos [OF assms(1)] np by (simp add: d_div_def d_mul_def divide_le_0_iff)
  then show ?thesis using assms(1) np to_i64_le [of _ 0] by (simp add: bps_def d_mul_def)
qed

lemma dbl_10000 [simp]: "dbl 10000 = 10000"
  using of_i64_exact [of 10000] by (simp add: of_i64_def)

lemma rate_complete:
  assumes "0 < target_abs" and "target_abs \<le> filled_abs"
  shows "10000 \<le> to_i64 (d_mul (d_div (of_i64 filled_abs) (of_i64 target_abs)) 10000)"
proof -
  have "1 \<le> of_i64 filled_abs / of_i64 target_abs"
    using of_i64_pos [OF assms(1)] of_i64_mono [OF assms(2)] by (simp add: le_divide_eq)
  then have "1 \<le> d_div (of_i64 filled_abs) (of_i64 target_abs)"
    using dbl_mono by (fastforce simp: d_div_def)
  then have "10000 \<le> d_mul (d_div (of_i64 filled_abs) (of_i64 target_abs)) 10000"
    using dbl_mono [of 10000] by (simp add: d_mul_def)
  then show ?thesis using to_i64_ge [of 10000] by simp
qed

lemma rate_incomplete:
  assumes "0 < target_abs" and "0 \<le> filled_abs" and "filled_abs < target_abs"
  shows "0 \<le> to_i64 (d_mul (d_div (of_i64 filled_abs) (of_i64 target_abs)) 10000)
    \<and> to_i64 (d_mul (d_div (of_i64 filled_abs) (of_i64 target_abs)) 10000) \<le> 10000"
proof -
  have r: "0 \<le> of_i64 filled_abs / of_i64 target_abs" "of_i64 filled_abs / of_i64 target_abs \<le> 1"
    using of_i64_pos [OF assms(1)] of_i64_mono [of filled_abs target_abs] of_i64_mono [OF assms(2)] assms(3)
    by (simp_all add: divide_le_eq)
  have d: "0 \<le> d_div (of_i64 filled_abs) (of_i64 target_abs)" "d_div (of_i64 filled_abs) (of_i64 target_abs) \<le> 1"
    using dbl_nonneg [OF r(1)] dbl_mono [OF r(2)] by (simp_all add: d_div_def)
  have "d_mul (d_div (of_i64 filled_abs) (of_i64 target_abs)) 10000 \<le> 10000"
    using dbl_mono [of "d_div (of_i64 filled_abs) (of_i64 target_abs) * 10000" 10000] d(2) by (simp add: d_mul_def)
  moreover have "0 \<le> d_mul (d_div (of_i64 filled_abs) (of_i64 target_abs)) 10000"
    using d(1) by (simp add: d_mul_def dbl_nonneg)
  ultimately show ?thesis using to_i64_nonneg to_i64_le [of _ 10000] by simp
qed

text \<open>C40: the rounding to doubles never flips a reported figure. A buy filled at or above (below) its
  positive reference price has slippage at least (at most) zero, a sell exactly the negative of it; the
  fill rate of a cycle is at least 10000 basis points when the target was reached and between 0 and
  10000 when it was not.\<close>

theorem reported_figures_keep_their_sign:
  assumes "0 < ref" and "0 < target_abs" and "0 \<le> filled_abs"
  shows "(ref \<le> avg \<longrightarrow> 0 \<le> bps avg ref 1) \<and> (avg \<le> ref \<longrightarrow> bps avg ref 1 \<le> 0)
    \<and> bps avg ref (- 1) = - bps avg ref 1
    \<and> (\<exists>rate. mc_fill_rate (record_cycle target_abs filled_abs m) = dist_add rate (mc_fill_rate m)
         \<and> (if target_abs \<le> filled_abs then 10000 \<le> rate else 0 \<le> rate \<and> rate \<le> 10000)
         \<and> mc_completed_cycles (record_cycle target_abs filled_abs m) = mc_completed_cycles m
             + (if target_abs \<le> filled_abs then 1 else 0))"
proof -
  let ?rate = "to_i64 (d_mul (d_div (of_i64 filled_abs) (of_i64 target_abs)) 10000)"
  have "if target_abs \<le> filled_abs then 10000 \<le> ?rate else 0 \<le> ?rate \<and> ?rate \<le> 10000"
    using rate_complete [OF assms(2), of filled_abs] rate_incomplete [OF assms(2,3)] by simp
  moreover have "mc_fill_rate (record_cycle target_abs filled_abs m) = dist_add ?rate (mc_fill_rate m)
      \<and> mc_completed_cycles (record_cycle target_abs filled_abs m) = mc_completed_cycles m
             + (if target_abs \<le> filled_abs then 1 else 0)"
    using assms(2) by (simp add: record_cycle_def Let_def)
  ultimately show ?thesis using bps_buy_nonneg [OF assms(1)] bps_buy_nonpos [OF assms(1)] bps_sell by blast
qed

theorem reported_figures_keep_their_sign_witness:
  "0 \<le> bps 10050 10000 1 \<and> bps 10050 10000 (- 1) \<le> 0
   \<and> mc_completed_cycles (record_cycle 300 300 metrics_new) = 1"
proof -
  have "mc_completed_cycles metrics_new = 0" by (simp add: metrics_new_def)
  then show ?thesis
    using reported_figures_keep_their_sign [of 10000 300 300 10050 metrics_new] by auto
qed

end
