(* ===== verification/Spec2Isabelle.thy ===== *)
theory Spec2Isabelle
  imports OmProps OmLifecycle OmSafety OmLimits OmLedger HealthProps SignalPipeline
    AlgoProps ReconProps SimProps BenchProps MetricsProps
begin

text \<open>
  A verification of the order management system of this repository: the C++ under
  \<^verbatim>\<open>include/oms/\<close>, \<^verbatim>\<open>src/\<close> and the simulated venue and drivers of \<^verbatim>\<open>sim/\<close> (paths are relative to the
  repository), translated by hand into executable definitions, with the theorems that make each
  component correct.

  \<^bold>\<open>How the program works.\<close> Strategies publish target positions as binary signals. A gate refuses
  stale or implausible ones; the netting engine sums the accepted targets per instrument, sends
  one order per instrument and cycle, and gives each fill back to the strategies that caused it.
  An execution algo (TWAP or POV) slices a parent order into children. The order manager gives a
  child a pool slot and a 64-bit id, routes it to the healthiest venue, books what the venue
  reports (confirms, fills, rejects, cancel acknowledgements, unsolicited cancels), keeps positions
  and open interest, and publishes an event per change; the algos and the metrics listen. The
  health model turns acknowledgement latencies and rejects into a breaker state per venue.
  Reconciliation compares the manager's positions with the venues', at startup and periodically.

  \<^bold>\<open>Theories of the model\<close>, each with its own head comment; definitions carry the names of the
  source, records its fields with a prefix per class.
  \<^item> \<^verbatim>\<open>Prelude\<close>: the result type, \<^verbatim>\<open>unordered_map\<close> lookups, C++ division, integer types and ranges.
  \<^item> \<^verbatim>\<open>Logging\<close>, \<^verbatim>\<open>Domain\<close>: \<^verbatim>\<open>Logging.h\<close>; \<^verbatim>\<open>Types.h\<close>, \<^verbatim>\<open>Order.h\<close>, \<^verbatim>\<open>Position.h\<close>, \<^verbatim>\<open>MarketData.h\<close>, the
    names of \<^verbatim>\<open>Detail.h\<close>.
  \<^item> \<^verbatim>\<open>OrderIdCodec\<close>, \<^verbatim>\<open>OrderPool\<close>, \<^verbatim>\<open>RingBuffer\<close>: \<^verbatim>\<open>OrderId.h\<close>, \<^verbatim>\<open>OrderPool.cpp\<close>, \<^verbatim>\<open>RingBuffer.h\<close>.
  \<^item> \<^verbatim>\<open>Double\<close>: IEEE-754 binary64 as rationals rounded to nearest even, as far as the code uses it.
  \<^item> \<^verbatim>\<open>Health\<close>, \<^verbatim>\<open>Router\<close>, \<^verbatim>\<open>Exchange\<close>: \<^verbatim>\<open>Health.cpp\<close>, \<^verbatim>\<open>Router.cpp\<close>, \<^verbatim>\<open>ExchangeClient.h\<close> and
    \<^verbatim>\<open>ExchangeRegistry.cpp\<close>. A venue is a record of operations on a state type of its own.
  \<^item> \<^verbatim>\<open>OrderManager\<close>: \<^verbatim>\<open>OrderManager.cpp\<close>, one definition per member function with its guards, log
    lines and counters. A handler returns the new state and the list of events it publishes, each
    with the state at its publication.
  \<^item> \<^verbatim>\<open>Netting\<close>, \<^verbatim>\<open>Signal\<close>, \<^verbatim>\<open>SignalProducer\<close>, \<^verbatim>\<open>SignalPipeline\<close>: \<^verbatim>\<open>Netting.cpp\<close>, \<^verbatim>\<open>Signal.cpp\<close>,
    \<^verbatim>\<open>SignalProducer.cpp\<close>, \<^verbatim>\<open>sim/signal_demo.cpp\<close>.
  \<^item> \<^verbatim>\<open>ExecutionAlgo\<close>, \<^verbatim>\<open>Reconciliation\<close>, \<^verbatim>\<open>Metrics\<close>: the files of these names.
  \<^item> \<^verbatim>\<open>SimExchange\<close>: \<^verbatim>\<open>sim/SimulatedExchange.cpp\<close>, an instance of the venue record.
  \<^item> \<^verbatim>\<open>Wiring\<close>: the manager wired to one simulated venue as both drivers build it, and the poll of the
    pair, in which the manager's handlers run between the venue's deliveries.
  \<^item> \<^verbatim>\<open>Drivers\<close>: \<^verbatim>\<open>sim/main.cpp\<close>, and \<^verbatim>\<open>sim/bench.cpp\<close> with its rig, parent orders and cycles.

  \<^bold>\<open>Theories of lemmas.\<close>
  \<^item> \<^verbatim>\<open>OmInvariant\<close> states the manager's invariant \<open>om_inv\<close> (pool, open orders, retired queue,
    seen trades, open interest), \<^verbatim>\<open>OmPreserve\<close> shows that every operation keeps it and never leaves
    its contract, \<^verbatim>\<open>OmSteps\<close> defines the runs of a manager and proves the invariant along them,
    \<^verbatim>\<open>OmExample\<close> evaluates a concrete run for the witnesses.
  \<^item> \<^verbatim>\<open>OmProps\<close>, \<^verbatim>\<open>OmLifecycle\<close>, \<^verbatim>\<open>OmSafety\<close>, \<^verbatim>\<open>OmLimits\<close>: the manager's properties. \<^verbatim>\<open>OmLedger\<close>
    is its abstract specification, a ledger of open remainders, positions and seen trades, and the
    simulation: every step of the manager is a step of the ledger or leaves it alone.
  \<^item> \<^verbatim>\<open>HealthProps\<close>, \<^verbatim>\<open>NettingProps\<close>, \<^verbatim>\<open>SignalCodec\<close>, \<^verbatim>\<open>SignalGate\<close>, \<^verbatim>\<open>AlgoProps\<close>, \<^verbatim>\<open>ReconProps\<close>,
    \<^verbatim>\<open>SimProps\<close>, \<^verbatim>\<open>MetricsProps\<close>: the properties of the component they are named after. \<^verbatim>\<open>AlgoProps\<close>
    steps a TWAP algo and the manager together.
  \<^item> The manager and the venue together. \<^verbatim>\<open>SimAgree\<close> says what the two agree on (positions, working
    orders, their remainders and seen trades) and that a delivery keeps it. \<^verbatim>\<open>SimIds\<close>: an id a venue
    still holds never names another order, while fewer than 65536 were sent. \<^verbatim>\<open>SimBooks\<close>: what the
    venue does with the manager's calls. \<^verbatim>\<open>SimWorld\<close>: the step relation of the pair and that every
    step keeps the agreement. \<^verbatim>\<open>SimLive\<close>: every live order with a remainder has its end queued, so
    polling past the venue's horizon settles everything. \<^verbatim>\<open>DriverProps\<close>: reconciliation of the pair,
    and the demo driver.
  \<^item> The whole benchmark. \<^verbatim>\<open>SimBudget\<close>: what one order costs of the ids, the venue's sequence
    numbers and the pool (\<open>costs\<close>), what a state has left of them (\<open>funded\<close>), and the invariant
    \<open>steady\<close> that submits, cancels and polls keep while the budget lasts. \<^verbatim>\<open>AlgoDesk\<close>: a timer of an
    algo makes a bounded number of calls, each on an order of its own worker. \<^verbatim>\<open>BenchProps\<close>: the
    rig with its dispatcher, a parent order that leaves nothing behind, and \<open>bench_runs\<close>, which
    runs \<open>bench_main\<close> to its end for every random draw.

  \<^bold>\<open>Interfaces.\<close> The locales \<open>slot_allocator\<close> (pool), \<open>sample_window\<close> (ring), \<open>venue_registry\<close>,
  \<open>venue_health\<close> (what the router needs of a health model), \<open>codec\<close> (fixed-width fields of the wire
  format), \<open>event_queue\<close> (the simulator's priority queue) and \<open>order_desk\<close> (what an algo needs of the
  manager it calls) state what a client relies on; each is interpreted on the model's own
  operations, \<open>order_desk\<close> on the manager wired to the simulated venue.

  \<^bold>\<open>Numbers.\<close> Ids and hash values are machine words. Prices, quantities, positions and times are
  mathematical integers: where \<^verbatim>\<open>int64_t\<close> would overflow the C++ is undefined, and the model says
  nothing about such runs. Unsigned counters that only feed reports are natural numbers, sequence
  and generation counters are words and wrap. A failed \<^verbatim>\<open>assert\<close>, an exception and an access out of
  range are the error side of the result type.

  \<^bold>\<open>Loops.\<close> Every loop is a structural recursion or has a measure, with two exceptions. The
  producer's loop counts with a 16-bit strategy id and may not end; it is a partial function and
  the theorem on it says exactly when it returns. The simulator's poll drains a queue that
  delivery does not extend; its measure is the length of the queue.

  \<^bold>\<open>Budgets of the benchmark.\<close> A timer makes at most 90 calls on the manager, a parent order with
  its ten timers at most 900, the twenty parents of the five cycles at most 18000. \<open>steady\<close>
  allows \<open>2 ^ 15\<close> calls, each worth at most \<open>2 ^ 17\<close> of the venue's counters, so no slot's
  generation and no venue id comes round again and the pool does not run out.

  \<^bold>\<open>What is a parameter.\<close> The system clock (a clock field of the states, set between operations),
  the answers of the market data source, the random draws of the simulator, and how a stream prints
  a double. The venue the manager talks to is an argument of its operations; no theorem on the
  manager assumes anything about it.

  \<^bold>\<open>Not modelled.\<close> \<^verbatim>\<open>Common.h\<close> (includes only), \<^verbatim>\<open>Clock.h\<close> (one call of the system clock), the
  opening and writing of files: the drivers' texts (\<^verbatim>\<open>cycles.csv\<close>, \<^verbatim>\<open>metrics_summary.csv\<close>,
  \<^verbatim>\<open>REPORT.md\<close>, the console output) are values of the model. A POV algo that degrades owns a TWAP
  algo; the log the two share is modelled as a copy in each. Subscribers are called after the
  handler with the state it published; the algos' and the metrics' handlers do not call the
  manager back, so the order does not matter.
\<close>

end
